(* ===== verification/Prelude.thy ===== *)
theory Prelude
  imports Main "HOL-Library.Word"
begin

text \<open>
  Shared vocabulary of the development: the names of the machine types, the heap of
  nodes the lock-free structures work on, and the atomic cell (a value next to its ABA
  counter) that stands for an AtomicPointer or AtomicValue of src/src/util/atomic_value.h.
  The theory Atomic_Value proves that the two layouts of the source (128 bit and 64 bit
  words) implement exactly this cell.
\<close>

section \<open>Machine types\<close>

type_synonym tid = nat
type_synonym addr = nat
type_synonym u64 = "64 word"
type_synonym u32 = "32 word"
type_synonym u8 = "8 word"

text \<open>The null pointer. A node never lives at this address.\<close>

abbreviation NULL :: addr where
  "NULL \<equiv> 0"

text \<open>What stops a thread for good: the undefined and the aborting branches of the code.\<close>

datatype fault = Null_Deref | Wild_Deref | Abort string | Undefined string

section \<open>Collections of hints\<close>

named_theorems heap_simps \<open>reading and writing the heap of nodes\<close>
named_theorems cas_simps \<open>compare-and-swap on an atomic cell\<close>

section \<open>Heaps of nodes\<close>

type_synonym 'n heap = "addr \<Rightarrow> 'n option"

text \<open>The allocator may hand out any address that is not in use and is not NULL.\<close>

definition is_fresh :: "'n heap \<Rightarrow> addr \<Rightarrow> bool" where
  "is_fresh h a \<longleftrightarrow> a \<noteq> NULL \<and> h a = None"

lemma is_fresh_notin_dom [heap_simps]: "is_fresh h a \<Longrightarrow> a \<notin> dom h"
  by (auto simp: is_fresh_def)

lemma fresh_exists: "finite (dom h) \<Longrightarrow> \<exists>a. is_fresh h a"
  using ex_new_if_finite [of "insert NULL (dom h)"] by (auto simp: is_fresh_def domIff)

lemma is_fresh_NULL [simp]: "\<not> is_fresh h NULL"
  by (simp add: is_fresh_def)

section \<open>Atomic cells\<close>

record 'v acell =
  val :: 'v
  aba :: u64

text \<open>
  \<open>cell v a\<close> is the two-argument constructor of the atomic classes;
  \<open>cas\<close> is the compare-and-swap on the whole memory word (value and counter).
\<close>

definition cell :: "'v \<Rightarrow> u64 \<Rightarrow> 'v acell" where
  "cell v a = \<lparr>val = v, aba = a\<rparr>"

lemma cell_sel [simp]: "val (cell v a) = v" "aba (cell v a) = a"
  by (simp_all add: cell_def)

lemma cell_eq_iff [simp]: "cell v a = cell w b \<longleftrightarrow> v = w \<and> a = b"
  by (simp add: cell_def)

lemma acell_eqI: "val x = val y \<Longrightarrow> aba x = aba y \<Longrightarrow> x = y"
  for x y :: "'v acell"
  by simp

lemma cell_collapse [simp]: "cell (val x) (aba x) = x"
  for x :: "'v acell"
  by (simp add: cell_def)

definition cas :: "'v acell \<Rightarrow> 'v acell \<Rightarrow> 'v acell \<Rightarrow> 'v acell \<times> bool" where
  "cas cur expected new = (if cur = expected then (new, True) else (cur, False))"

lemma cas_hit [cas_simps]: "cas c c n = (n, True)"
  by (simp add: cas_def)

lemma cas_miss [cas_simps]: "c \<noteq> e \<Longrightarrow> cas c e n = (c, False)"
  by (simp add: cas_def)

lemma cas_True_iff: "snd (cas c e n) \<longleftrightarrow> c = e"
  by (simp add: cas_def)

lemma cas_cases [consumes 1, case_names hit miss]:
  assumes "cas c e n = (c', b)"
  obtains "b" "c = e" "c' = n" | "\<not> b" "c \<noteq> e" "c' = c"
  using assms by (auto simp: cas_def split: if_splits)

section \<open>Linked lists in the heap\<close>

text \<open>
  \<open>fault_at a\<close> is what reading through the pointer a does when no node is there.
  \<open>path nx h a as b\<close>: following nx from a visits the nodes as and ends at b.
  \<open>chain\<close> computes the nodes of a list that ends at NULL; it has no value on a
  list that does not end there.
\<close>

definition fault_at :: "addr \<Rightarrow> fault" where
  "fault_at a = (if a = NULL then Null_Deref else Wild_Deref)"

fun path :: "('n \<Rightarrow> addr) \<Rightarrow> 'n heap \<Rightarrow> addr \<Rightarrow> addr list \<Rightarrow> addr \<Rightarrow> bool" where
  "path nx h a [] b = (a = b)"
| "path nx h a (x # xs) b = (a = x \<and> (case h a of None \<Rightarrow> False | Some n \<Rightarrow> path nx h (nx n) xs b))"

partial_function (option) chain :: "('n \<Rightarrow> addr) \<Rightarrow> 'n heap \<Rightarrow> addr \<Rightarrow> addr list option" where
  "chain nx h a = (if a = NULL then Some [] else
     (case h a of None \<Rightarrow> None
      | Some n \<Rightarrow> Option.bind (chain nx h (nx n)) (\<lambda>as. Some (a # as))))"

lemma path_append:
  "path nx h a (xs @ ys) b \<longleftrightarrow> (\<exists>c. path nx h a xs c \<and> path nx h c ys b)"
  by (induction xs arbitrary: a) (auto split: option.splits)

lemma path_dom: "path nx h a as b \<Longrightarrow> set as \<subseteq> dom h"
  by (induction as arbitrary: a) (auto split: option.splits)

lemma path_upd [heap_simps]: "x \<notin> set as \<Longrightarrow> path nx (h(x := n)) a as b = path nx h a as b"
  by (induction as arbitrary: a) (auto split: option.splits)

lemma path_upd_same:
  assumes "h x = Some m" "nx n = nx m"
  shows "path nx (h(x \<mapsto> n)) a as b = path nx h a as b"
  using assms by (induction as arbitrary: a) (auto split: option.splits)

lemma path_cong: "(\<And>x. x \<in> set as \<Longrightarrow> h' x = h x) \<Longrightarrow> path nx h' a as b = path nx h a as b"
  by (induction as arbitrary: a) (auto split: option.splits)

lemma path_unique:
  assumes "path nx h a as NULL" "path nx h a bs NULL" "h NULL = None"
  shows "as = bs"
  using assms(1,2)
proof (induction as arbitrary: a bs)
  case Nil
  then show ?case using assms(3) by (cases bs) auto
next
  case (Cons x xs)
  then show ?case using assms(3) by (cases bs) (auto split: option.splits)
qed

lemma path_distinct:
  assumes "path nx h a as NULL" "h NULL = None"
  shows "distinct as"
  using assms(1)
proof (induction as arbitrary: a)
  case Nil
  then show ?case by simp
next
  case (Cons x xs)
  then obtain n where n: "h x = Some n" "a = x" "path nx h (nx n) xs NULL"
    by (auto split: option.splits)
  have "x \<notin> set xs"
  proof
    assume "x \<in> set xs"
    then obtain ys zs where xs: "xs = ys @ x # zs" by (auto simp: in_set_conv_decomp)
    then have "path nx h x (x # zs) NULL" using n(3) by (auto simp: path_append)
    moreover have "path nx h x (x # xs) NULL" using n by simp
    ultimately have "x # zs = x # xs" using path_unique assms(2) by blast
    then have "length zs = length xs" by simp
    then show False using xs by simp
  qed
  then show ?case using Cons.IH n by simp
qed

lemma chain_NULL [simp]: "chain nx h NULL = Some []"
  by (subst chain.simps) simp

lemma chain_node: "a \<noteq> NULL \<Longrightarrow> h a = Some n \<Longrightarrow>
  chain nx h a = Option.bind (chain nx h (nx n)) (\<lambda>as. Some (a # as))"
  by (subst chain.simps) simp

lemma path_chain:
  assumes "path nx h a as NULL" "h NULL = None"
  shows "chain nx h a = Some as"
  using assms(1)
proof (induction as arbitrary: a)
  case Nil
  then show ?case by simp
next
  case (Cons x xs)
  then obtain n where "h x = Some n" "a = x" "path nx h (nx n) xs NULL"
    by (auto split: option.splits)
  moreover have "a \<noteq> NULL" using calculation assms(2) by (cases "x = NULL") auto
  ultimately show ?case using Cons.IH by (simp add: chain_node)
qed

lemma path_last_null: "path nx h a (as @ [z]) b \<Longrightarrow> \<exists>n. h z = Some n \<and> nx n = b"
  by (auto simp: path_append split: option.splits)

section \<open>Lists and folds\<close>

text \<open>Paths depend on the successors only.\<close>

lemma path_shape:
  "(\<And>x. map_option nx (h' x) = map_option nx (h x)) \<Longrightarrow> path nx h' a as b = path nx h a as b"
proof (induction as arbitrary: a)
  case (Cons x as)
  have "map_option nx (h' a) = map_option nx (h a)" by (rule Cons.prems)
  moreover have "path nx h' c as b = path nx h c as b" for c by (rule Cons.IH) (rule Cons.prems)
  ultimately show ?case by (cases "h a"; cases "h' a") simp_all
qed simp

text \<open>The first position of an element of a list.\<close>

definition pos :: "'x list \<Rightarrow> 'x \<Rightarrow> nat" where
  "pos xs x = length (takeWhile (\<lambda>y. y \<noteq> x) xs)"

lemma pos_nth [simp]:
  assumes "distinct xs" "i < length xs"
  shows "pos xs (xs ! i) = i"
  unfolding pos_def using assms
  by (subst takeWhile_eq_take_P_nth [of i]) (auto simp: nth_eq_iff_index_eq)

lemma path_nth:
  assumes "path nx h a as b" "i < length as"
  shows "\<exists>n. h (as ! i) = Some n \<and> nx n = (if Suc i < length as then as ! Suc i else b)"
  using assms
proof (induction as arbitrary: a i)
  case (Cons x xs)
  then obtain n where n: "h x = Some n" "path nx h (nx n) xs b" by (auto split: option.splits)
  show ?case
  proof (cases i)
    case 0
    then show ?thesis using n by (cases xs) auto
  next
    case (Suc j)
    then show ?thesis using Cons.IH [OF n(2), of j] Cons.prems(2) by (auto split: if_splits)
  qed
qed simp

lemma path_snoc:
  assumes "path nx h a as b" "b \<notin> set as" "h b = Some n" "nx n = c"
  shows "path nx h a (as @ [b]) c"
  using assms by (auto simp: path_append intro: exI [of _ b])

lemma distinct_append_disjoint: "distinct (xs @ ys) \<Longrightarrow> x \<in> set xs \<Longrightarrow> x \<notin> set ys"
  by auto

lemma last_butlast_split: "xs \<noteq> [] \<Longrightarrow> \<exists>ys. xs = ys @ [last xs]"
  by (metis append_butlast_last_id)

section \<open>Numbers in C strings\<close>

text \<open>strtol in base 10: leading blanks, a sign, digits; saturated to the range of long.\<close>

definition digit :: "char \<Rightarrow> nat option" where
  "digit c = (let k = of_char c in if 48 \<le> k \<and> k \<le> (57 :: nat) then Some (k - 48) else None)"

fun digits :: "nat \<Rightarrow> string \<Rightarrow> nat" where
  "digits acc [] = acc"
| "digits acc (c # cs) = (case digit c of None \<Rightarrow> acc | Some d \<Rightarrow> digits (acc * 10 + d) cs)"

definition blank :: "char \<Rightarrow> bool" where
  "blank c \<longleftrightarrow> c = CHR '' '' \<or> (9 \<le> (of_char c :: nat) \<and> of_char c \<le> (13 :: nat))"

definition strtol :: "string \<Rightarrow> int" where
  "strtol str = (case dropWhile blank str of
     [] \<Rightarrow> 0
   | c # cs \<Rightarrow> if c = CHR ''-'' then max (- (2 ^ 63)) (- int (digits 0 cs))
       else if c = CHR ''+'' then min (2 ^ 63 - 1) (int (digits 0 cs))
       else min (2 ^ 63 - 1) (int (digits 0 (c # cs))))"

lemma digits_append: "list_all (\<lambda>c. digit c \<noteq> None) ds \<Longrightarrow>
    digits acc (ds @ cs) = digits (digits acc ds) cs"
  by (induction ds arbitrary: acc) auto

lemma digit_not_blank: "digit c \<noteq> None \<Longrightarrow> \<not> blank c \<and> c \<noteq> CHR ''-'' \<and> c \<noteq> CHR ''+''"
  by (auto simp: digit_def blank_def Let_def split: if_splits)

lemma strtol_digits:
  assumes "list_all (\<lambda>c. digit c \<noteq> None) ds" "digits 0 ds < 2 ^ 63"
  shows "strtol ds = int (digits 0 ds)"
proof (cases ds)
  case (Cons c cs)
  then have "digit c \<noteq> None" using assms(1) by simp
  from digit_not_blank [OF this] have "dropWhile blank ds = c # cs" using Cons by simp
  then show ?thesis using \<open>digit c \<noteq> None\<close> digit_not_blank [of c] assms(2) Cons
    by (simp add: strtol_def del: digits.simps)
qed (simp add: strtol_def)

section \<open>Words\<close>

lemma unat_add_no_overflow: "unat x + unat y < 2 ^ 64 \<Longrightarrow> unat (x + y) = unat x + unat y" for x y :: u64
  by (simp add: unat_word_ariths)

lemma unat_incr: "j < k \<Longrightarrow> unat (j + 1) = Suc (unat j)" for j k :: u64
  using unsigned_less [of k, where ?'a = nat] by (subst unat_add_no_overflow) (simp_all add: word_less_nat_alt)

lemma index_less: "k \<noteq> 0 \<Longrightarrow> x mod k < (k :: u64)"
  by (simp add: word_mod_less_divisor word_gt_0)

end
