(* ===== verification/Concurrency.thy ===== *)
theory Concurrency
  imports Prelude
begin

text \<open>
  The library every concurrent structure of src/src/datastructures is modelled in:
  threads that interleave at the granularity of one access to shared memory, the
  history of their calls and returns, linearizability of such a history, and the two
  interfaces (locales) through which a structure is proved linearizable: an invariant
  in the style of Owicki and Gries, and a marking of the program counters that names
  the linearization points.
\<close>

section \<open>Threads that interleave\<close>

text \<open>
  One step of a method either goes on at another program counter, returns, or faults.
  A thread is idle, inside a method, about to hand back a result, or dead.
\<close>

datatype ('p, 'r) outcome = Next 'p | Return 'r | Fault fault

datatype ('op, 'r, 'p) tstate = Idle | Run 'op 'p | Resp 'op 'r | Dead 'op fault

text \<open>
  The scheduler picks a thread and what it does: call a method, go on (the number is
  whatever the step draws from outside: the address the allocator returns, a random
  number, a clock), or leave the method with its result.
\<close>

datatype 'op action = Call 'op | Go nat | Leave

type_synonym 'op sched = "(tid \<times> 'op action) list"

record ('s, 'op, 'r, 'p) prog =
  start :: "'op \<Rightarrow> 'p"
  body :: "tid \<Rightarrow> nat \<Rightarrow> 's \<Rightarrow> 'p \<Rightarrow> 's \<times> ('p, 'r) outcome"

record ('s, 'op, 'r, 'p) config =
  shared :: 's
  threads :: "tid \<Rightarrow> ('op, 'r, 'p) tstate"

definition init :: "'s \<Rightarrow> ('s, 'op, 'r, 'p) config" where
  "init s = \<lparr>shared = s, threads = (\<lambda>_. Idle)\<rparr>"

lemma init_sel [simp]: "shared (init s) = s" "threads (init s) t = Idle"
  by (simp_all add: init_def)

fun resume :: "'op \<Rightarrow> ('p, 'r) outcome \<Rightarrow> ('op, 'r, 'p) tstate" where
  "resume op (Next p) = Run op p"
| "resume op (Return r) = Resp op r"
| "resume op (Fault e) = Dead op e"

fun thread_step :: "('s, 'op, 'r, 'p) prog \<Rightarrow> tid \<Rightarrow> 'op action \<Rightarrow> 's \<Rightarrow> ('op, 'r, 'p) tstate
    \<Rightarrow> 's \<times> ('op, 'r, 'p) tstate" where
  "thread_step P t (Call op) s Idle = (s, Run op (start P op))"
| "thread_step P t (Go n) s (Run op p) = (let (s', out) = body P t n s p in (s', resume op out))"
| "thread_step P t Leave s (Resp op r) = (s, Idle)"
| "thread_step P t a s l = (s, l)"

definition step :: "('s, 'op, 'r, 'p) prog \<Rightarrow> tid \<times> 'op action \<Rightarrow> ('s, 'op, 'r, 'p) config
    \<Rightarrow> ('s, 'op, 'r, 'p) config" where
  "step P e c = (let (s', l) = thread_step P (fst e) (snd e) (shared c) (threads c (fst e))
     in \<lparr>shared = s', threads = (threads c)(fst e := l)\<rparr>)"

fun exec :: "('s, 'op, 'r, 'p) prog \<Rightarrow> 'op sched \<Rightarrow> ('s, 'op, 'r, 'p) config
    \<Rightarrow> ('s, 'op, 'r, 'p) config" where
  "exec P [] c = c"
| "exec P (e # es) c = exec P es (step P e c)"

lemma exec_append [simp]: "exec P (es @ fs) c = exec P fs (exec P es c)"
  by (induction es arbitrary: c) auto

lemma step_Call [simp]:
  "threads c t = Idle \<Longrightarrow>
   step P (t, Call op) c = \<lparr>shared = shared c, threads = (threads c)(t := Run op (start P op))\<rparr>"
  by (simp add: step_def)

lemma step_Leave [simp]:
  "threads c t = Resp op r \<Longrightarrow>
   step P (t, Leave) c = \<lparr>shared = shared c, threads = (threads c)(t := Idle)\<rparr>"
  by (simp add: step_def)

lemma step_Go:
  "threads c t = Run op p \<Longrightarrow> body P t n (shared c) p = (s', out) \<Longrightarrow>
   step P (t, Go n) c = \<lparr>shared = s', threads = (threads c)(t := resume op out)\<rparr>"
  by (simp add: step_def)

lemma config_update_id [simp]: "\<lparr>shared = shared c, threads = (threads c)(t := threads c t)\<rparr> = c"
  for c :: "('s, 'op, 'r, 'p) config"
  by simp

lemma step_same: "thread_step P t a (shared c) (threads c t) = (shared c, threads c t) \<Longrightarrow> step P (t, a) c = c"
  by (simp add: step_def)

lemma exec_other: "t \<notin> fst ` set es \<Longrightarrow> threads (exec P es c) t = threads c t"
  by (induction es arbitrary: c) (auto simp: step_def split: prod.splits)

section \<open>Histories\<close>

text \<open>
  The history of an execution records the calls and the returns. \<open>Lin\<close> events do not
  happen in a history: they are the linearization points one may insert into it.
\<close>

datatype ('op, 'r) event = Inv tid 'op | Lin tid 'op 'r | Ret tid 'op 'r

fun ev_tid :: "('op, 'r) event \<Rightarrow> tid" where
  "ev_tid (Inv t op) = t"
| "ev_tid (Lin t op r) = t"
| "ev_tid (Ret t op r) = t"

fun is_lin :: "('op, 'r) event \<Rightarrow> bool" where
  "is_lin (Lin t op r) = True"
| "is_lin e = False"

fun emitted :: "tid \<Rightarrow> 'op action \<Rightarrow> ('op, 'r, 'p) tstate \<Rightarrow> ('op, 'r) event list" where
  "emitted t (Call op) Idle = [Inv t op]"
| "emitted t Leave (Resp op r) = [Ret t op r]"
| "emitted t a l = []"

fun history :: "('s, 'op, 'r, 'p) prog \<Rightarrow> 'op sched \<Rightarrow> ('s, 'op, 'r, 'p) config
    \<Rightarrow> ('op, 'r) event list" where
  "history P [] c = []"
| "history P (e # es) c =
     emitted (fst e) (snd e) (threads c (fst e)) @ history P es (step P e c)"

text \<open>Every other action leaves the configuration alone; this is the case analysis of a step.\<close>

lemma step_cases [case_names call go leave stutter]:
  obtains
    (call) t op where "e = (t, Call op)" "threads c t = Idle"
      "step P e c = \<lparr>shared = shared c, threads = (threads c)(t := Run op (start P op))\<rparr>"
  | (go) t n op p s' out where "e = (t, Go n)" "threads c t = Run op p"
      "body P t n (shared c) p = (s', out)"
      "step P e c = \<lparr>shared = s', threads = (threads c)(t := resume op out)\<rparr>"
  | (leave) t op r where "e = (t, Leave)" "threads c t = Resp op r"
      "step P e c = \<lparr>shared = shared c, threads = (threads c)(t := Idle)\<rparr>"
  | (stutter) t a where "e = (t, a)" "step P e c = c" "emitted t a (threads c t) = []"
proof -
  obtain t a where e: "e = (t, a)" by (cases e)
  show thesis
  proof (cases "thread_step P t a (shared c) (threads c t) = (shared c, threads c t)
      \<and> emitted t a (threads c t) = []")
    case True
    then show thesis using stutter [OF e] by (simp add: e step_same)
  next
    case False
    then consider op where "a = Call op" "threads c t = Idle"
      | n op p where "a = Go n" "threads c t = Run op p"
      | op r where "a = Leave" "threads c t = Resp op r"
      by (cases a; cases "threads c t") auto
    then show thesis
    proof cases
      case 1
      then show thesis using call [of t op] by (simp add: e)
    next
      case (2 n op p)
      obtain s' out where b: "body P t n (shared c) p = (s', out)" by fastforce
      show thesis
        by (rule go [OF _ 2(2) b]) (simp_all add: e 2 step_Go [OF 2(2) b])
    next
      case 3
      then show thesis using leave [of t] by (simp add: e)
    qed
  qed
qed

section \<open>Linearizability\<close>

text \<open>
  A history is linearizable when one can insert, between the call and the return of
  every completed operation (and after the call of some pending ones), one point at
  which the operation takes effect with the result it returns, so that the operations
  in the order of these points are a run of the sequential specification.
  \<open>placed\<close> checks the shape call, point, return per thread; \<open>legal\<close> runs the
  specification along the points.
\<close>

datatype ('op, 'r) lstat = LIdle | LPend 'op | LDone 'op 'r

fun place :: "('op, 'r) lstat \<Rightarrow> ('op, 'r) event \<Rightarrow> ('op, 'r) lstat option" where
  "place LIdle (Inv t op) = Some (LPend op)"
| "place (LPend op) (Lin t op' r) = (if op' = op then Some (LDone op r) else None)"
| "place (LDone op r) (Ret t op' r') = (if op' = op \<and> r' = r then Some LIdle else None)"
| "place l e = None"

fun placed :: "(tid \<Rightarrow> ('op, 'r) lstat) \<Rightarrow> ('op, 'r) event list \<Rightarrow> bool" where
  "placed \<sigma> [] = True"
| "placed \<sigma> (e # X) = (case place (\<sigma> (ev_tid e)) e of
     None \<Rightarrow> False | Some l \<Rightarrow> placed (\<sigma>(ev_tid e := l)) X)"

fun legal :: "('q \<Rightarrow> 'op \<Rightarrow> 'r \<Rightarrow> 'q \<Rightarrow> bool) \<Rightarrow> 'q \<Rightarrow> ('op, 'r) event list \<Rightarrow> 'q \<Rightarrow> bool" where
  "legal spec q [] q' = (q = q')"
| "legal spec q (Lin t op r # X) q' = (\<exists>q1. spec q op r q1 \<and> legal spec q1 X q')"
| "legal spec q (Inv t op # X) q' = legal spec q X q'"
| "legal spec q (Ret t op r # X) q' = legal spec q X q'"

definition linearizable_to :: "('q \<Rightarrow> 'op \<Rightarrow> 'r \<Rightarrow> 'q \<Rightarrow> bool) \<Rightarrow> 'q \<Rightarrow> ('op, 'r) event list \<Rightarrow> 'q \<Rightarrow> bool"
  where "linearizable_to spec q H q' \<longleftrightarrow>
    (\<exists>X. filter (\<lambda>e. \<not> is_lin e) X = H \<and> placed (\<lambda>_. LIdle) X \<and> legal spec q X q')"

definition linearizable :: "('q \<Rightarrow> 'op \<Rightarrow> 'r \<Rightarrow> 'q \<Rightarrow> bool) \<Rightarrow> 'q \<Rightarrow> ('op, 'r) event list \<Rightarrow> bool"
  where "linearizable spec q H \<longleftrightarrow> (\<exists>q'. linearizable_to spec q H q')"

lemma linearizable_toI: "linearizable_to spec q H q' \<Longrightarrow> linearizable spec q H"
  by (auto simp: linearizable_def)

section \<open>Marks: where an operation takes effect\<close>

text \<open>
  A running operation is pending, or it has taken effect with a fixed result, or it has
  seen a moment at which it could have returned a result without changing anything
  (a dequeue that read the empty queue) and may still drop that observation.
\<close>

datatype 'r mark = Pend | Seen 'r | Fixed 'r

fun evolves :: "'r mark \<Rightarrow> 'r mark \<Rightarrow> bool" where
  "evolves Pend m = (m = Pend)"
| "evolves (Fixed r) m = (m = Fixed r)"
| "evolves (Seen r) m = (m = Pend \<or> m = Seen r \<or> m = Fixed r)"

fun open_mark :: "'r mark \<Rightarrow> bool" where
  "open_mark (Fixed r) = False"
| "open_mark m = True"

lemma evolves_refl [simp]: "evolves m m"
  by (cases m) auto

fun allowed :: "('op, 'r, 'p) tstate \<Rightarrow> 'r mark \<Rightarrow> ('op, 'r) lstat set" where
  "allowed Idle m = {LIdle}"
| "allowed (Run op p) Pend = {LPend op}"
| "allowed (Run op p) (Seen r) = {LPend op, LDone op r}"
| "allowed (Run op p) (Fixed r) = {LDone op r}"
| "allowed (Resp op r) m = {LDone op r}"
| "allowed (Dead op e) m = {}"

fun res_mark :: "('op, 'r, 'p) tstate \<Rightarrow> 'r mark \<Rightarrow> 'r mark" where
  "res_mark (Resp op r) m = Fixed r"
| "res_mark l m = m"

lemma allowed_res_mark:
  "allowed (resume op out) m =
     (case out of Next p \<Rightarrow> allowed (Run op p) m | Return r \<Rightarrow> {LDone op r} | Fault e \<Rightarrow> {})"
  by (cases out) auto

lemma allowed_evolves:
  "x \<in> allowed (Run op p') m' \<Longrightarrow> evolves m m' \<Longrightarrow> x \<in> allowed (Run op p) m"
  by (cases m; cases m') auto

lemma allowed_open: "open_mark m \<Longrightarrow> LPend op \<in> allowed (Run op p) m"
  by (cases m) auto

lemma allowed_nonempty: "(\<And>op e. l \<noteq> Dead op e) \<Longrightarrow> \<exists>x. x \<in> allowed l m"
  by (cases l; cases m) auto

text \<open>
  A silent step keeps the abstract state and only lets marks evolve; a linearizing step
  is the effect of one thread whose result is not fixed yet, which need not be the thread that moves.
\<close>

definition silent_marks :: "('s, 'op, 'r, 'p) config \<Rightarrow> ('s, 'op, 'r, 'p) config
    \<Rightarrow> (('s, 'op, 'r, 'p) config \<Rightarrow> tid \<Rightarrow> 'r mark) \<Rightarrow> tid set \<Rightarrow> bool" where
  "silent_marks c c' mk U \<longleftrightarrow> (\<forall>u. u \<notin> U \<longrightarrow> evolves (mk c u) (mk c' u))"

definition cmark :: "(('s, 'op, 'r, 'p) config \<Rightarrow> tid \<Rightarrow> 'op \<Rightarrow> 'p \<Rightarrow> 'r mark) \<Rightarrow> ('s, 'op, 'r, 'p) config \<Rightarrow> tid \<Rightarrow> 'r mark"
  where "cmark mark c t = (case threads c t of
     Run op p \<Rightarrow> mark c t op p | Resp op r \<Rightarrow> Fixed r | _ \<Rightarrow> Pend)"

lemma cmark_simps [simp]:
  "threads c t = Run op p \<Longrightarrow> cmark mark c t = mark c t op p"
  "threads c t = Resp op r \<Longrightarrow> cmark mark c t = Fixed r"
  "threads c t = Idle \<Longrightarrow> cmark mark c t = Pend"
  by (simp_all add: cmark_def)

definition lin_step :: "('q \<Rightarrow> 'op \<Rightarrow> 'r \<Rightarrow> 'q \<Rightarrow> bool) \<Rightarrow> ('s \<Rightarrow> 'q)
    \<Rightarrow> (('s, 'op, 'r, 'p) config \<Rightarrow> tid \<Rightarrow> 'op \<Rightarrow> 'p \<Rightarrow> 'r mark)
    \<Rightarrow> ('s, 'op, 'r, 'p) config \<Rightarrow> ('s, 'op, 'r, 'p) config \<Rightarrow> bool" where
  "lin_step spec absf mark c c' \<longleftrightarrow>
     (absf (shared c') = absf (shared c) \<and> silent_marks c c' (cmark mark) {}) \<or>
     (\<exists>u op p r. threads c u = Run op p \<and> open_mark (cmark mark c u) \<and>
        spec (absf (shared c)) op r (absf (shared c')) \<and>
        (cmark mark c' u = Fixed r \<or> cmark mark c' u = Seen r \<and> absf (shared c') = absf (shared c)) \<and>
        silent_marks c c' (cmark mark) {u})"

definition valid_call :: "(tid \<Rightarrow> 'op \<Rightarrow> bool) \<Rightarrow> tid \<times> 'op action \<Rightarrow> bool" where
  "valid_call ok e \<longleftrightarrow> (case snd e of Call op \<Rightarrow> ok (fst e) op | _ \<Rightarrow> True)"

lemma valid_call_simps [simp]:
  "valid_call ok (t, Call op) = ok t op" "valid_call ok (t, Go n)" "valid_call ok (t, Leave)"
  by (simp_all add: valid_call_def)

lemma valid_call_True [simp]: "valid_call (\<lambda>_ _. True) e"
  by (auto simp: valid_call_def split: action.splits)

lemma all_valid [simp]: "list_all (valid_call (\<lambda>_ _. True)) es"
  by (simp add: list_all_iff)

section \<open>The interface of a linearizable system\<close>

text \<open>
  What a structure provides: an invariant that holds initially, that every step keeps
  and that excludes faults, and marks such that every step of a running method is
  silent or is the linearization point of one operation. What it gets: every history
  is linearizable, and the points lead to the abstraction of the state reached.
\<close>

locale lin_system =
  fixes P :: "('s, 'op, 'r, 'p) prog"
    and s0 :: 's
    and ok :: "tid \<Rightarrow> 'op \<Rightarrow> bool"
    and inv :: "('s, 'op, 'r, 'p) config \<Rightarrow> bool"
    and absf :: "'s \<Rightarrow> 'q"
    and spec :: "'q \<Rightarrow> 'op \<Rightarrow> 'r \<Rightarrow> 'q \<Rightarrow> bool"
    and mark :: "('s, 'op, 'r, 'p) config \<Rightarrow> tid \<Rightarrow> 'op \<Rightarrow> 'p \<Rightarrow> 'r mark"
  assumes inv_init: "inv (init s0)"
    and inv_step: "inv c \<Longrightarrow> valid_call ok e \<Longrightarrow> inv (step P e c)"
    and inv_alive: "inv c \<Longrightarrow> threads c t \<noteq> Dead op f"
    and mark_call: "inv c \<Longrightarrow> ok t op \<Longrightarrow> threads c t = Idle \<Longrightarrow> c' = step P (t, Call op) c \<Longrightarrow>
      cmark mark c' u = (if u = t then Pend else cmark mark c u)"
    and mark_leave: "inv c \<Longrightarrow> threads c t = Resp op r \<Longrightarrow> c' = step P (t, Leave) c \<Longrightarrow>
      u \<noteq> t \<Longrightarrow> cmark mark c' u = cmark mark c u"
    and go_lin: "inv c \<Longrightarrow> threads c t = Run op p \<Longrightarrow> lin_step spec absf mark c (step P (t, Go n) c)"
begin

lemma inv_exec: "inv c \<Longrightarrow> list_all (valid_call ok) es \<Longrightarrow> inv (exec P es c)"
  by (induction es arbitrary: c) (auto simp: inv_step)

lemma inv_reachable: "list_all (valid_call ok) es \<Longrightarrow> inv (exec P es (init s0))"
  by (simp add: inv_exec inv_init)

lemma never_dead: "list_all (valid_call ok) es \<Longrightarrow> threads (exec P es (init s0)) t \<noteq> Dead op f"
  by (rule inv_alive) (rule inv_reachable)

abbreviation compat :: "(tid \<Rightarrow> ('op, 'r) lstat) \<Rightarrow> ('s, 'op, 'r, 'p) config \<Rightarrow> bool" where
  "compat \<sigma> c \<equiv> \<forall>u. \<sigma> u \<in> allowed (threads c u) (cmark mark c u)"

lemma silent_compat:
  assumes "compat \<sigma> (step P (t, Go n) c)" "threads c t = Run op p"
    and "silent_marks c (step P (t, Go n) c) (cmark mark) U" "u \<notin> U" "inv (step P (t, Go n) c)"
  shows "\<sigma> u \<in> allowed (threads c u) (cmark mark c u)"
proof -
  let ?c = "step P (t, Go n) c"
  have ev: "evolves (cmark mark c u) (cmark mark ?c u)"
    using assms(3,4) by (auto simp: silent_marks_def)
  obtain s' out where b: "body P t n (shared c) p = (s', out)" by fastforce
  note st = step_Go [OF assms(2) b]
  have mem: "\<sigma> u \<in> allowed (threads ?c u) (cmark mark ?c u)" using assms(1) by blast
  show ?thesis
  proof (cases "u = t")
    case True
    then have m: "cmark mark c t = mark c t op p" using assms(2) by simp
    show ?thesis
    proof (cases out)
      case (Next p')
      with True st mem ev show ?thesis
        by (auto simp: assms(2) intro: allowed_evolves)
    next
      case (Return r)
      with True st mem ev show ?thesis
        by (cases "mark c t op p") (auto simp: assms(2) cmark_def)
    next
      case (Fault e)
      with st have "threads ?c t = Dead op e" by simp
      with assms(5) inv_alive show ?thesis by blast
    qed
  next
    case False
    then have "threads ?c u = threads c u" using st by simp
    with mem ev show ?thesis
      by (cases "threads c u") (auto simp: intro: allowed_evolves)
  qed
qed

lemma point_compat:
  assumes "compat \<sigma> (step P (t, Go n) c)" "threads c t = Run op p"
    and "threads c u = Run op' p'" "cmark mark (step P (t, Go n) c) u = Fixed r
      \<or> cmark mark (step P (t, Go n) c) u = Seen r"
    and "inv (step P (t, Go n) c)"
  shows "\<sigma> u = LDone op' r \<or>
    \<sigma> u = LPend op' \<and> cmark mark (step P (t, Go n) c) u = Seen r"
proof -
  let ?c = "step P (t, Go n) c"
  obtain s' out where b: "body P t n (shared c) p = (s', out)" by fastforce
  note st = step_Go [OF assms(2) b]
  have mem: "\<sigma> u \<in> allowed (threads ?c u) (cmark mark ?c u)" using assms(1) by blast
  consider p2 where "threads ?c u = Run op' p2" | r2 where "threads ?c u = Resp op' r2"
    | e where "threads ?c u = Dead op' e"
    using st assms(2,3) by (cases "u = t"; cases out) auto
  then show ?thesis
  proof cases
    case 3
    with assms(5) inv_alive show ?thesis by blast
  qed (use mem assms(4) in auto)
qed

lemma back_step:
  assumes "inv c" "threads c t = Run op p" "compat \<sigma>' (step P (t, Go n) c)"
    and "inv (step P (t, Go n) c)"
  shows "\<exists>\<sigma>. compat \<sigma> c \<and>
     (\<sigma> = \<sigma>' \<and> absf (shared (step P (t, Go n) c)) = absf (shared c) \<or>
      (\<exists>u op' r. \<sigma>' = \<sigma>(u := LDone op' r) \<and> \<sigma> u = LPend op' \<and>
         spec (absf (shared c)) op' r (absf (shared (step P (t, Go n) c)))))"
proof -
  let ?c = "step P (t, Go n) c"
  note sil = silent_compat [OF assms(3,2) _ _ assms(4)]
  from go_lin [OF assms(1,2), of n] consider
      (silent) "absf (shared ?c) = absf (shared c)" "silent_marks c ?c (cmark mark) {}"
    | (point) u op' p' r where "threads c u = Run op' p'" "open_mark (cmark mark c u)"
        "spec (absf (shared c)) op' r (absf (shared ?c))"
        "cmark mark ?c u = Fixed r \<or> cmark mark ?c u = Seen r \<and> absf (shared ?c) = absf (shared c)"
        "silent_marks c ?c (cmark mark) {u}"
    unfolding lin_step_def by blast
  then show ?thesis
  proof cases
    case silent
    then show ?thesis using sil [OF silent(2)] by blast
  next
    case point
    have others: "\<And>v. v \<noteq> u \<Longrightarrow> \<sigma>' v \<in> allowed (threads c v) (cmark mark c v)"
      using sil [OF point(5)] by blast
    have au: "LPend op' \<in> allowed (threads c u) (cmark mark c u)"
      unfolding point(1) by (rule allowed_open) (rule point(2))
    from point_compat [OF assms(3,2) point(1) _ assms(4), of r] point(4)
    consider "\<sigma>' u = LDone op' r" | "\<sigma>' u = LPend op'" "absf (shared ?c) = absf (shared c)" by auto
    then show ?thesis
    proof cases
      case 1
      have "compat (\<sigma>'(u := LPend op')) c" using others au by auto
      moreover have "\<sigma>' = (\<sigma>'(u := LPend op'))(u := LDone op' r)" using 1 by auto
      ultimately show ?thesis using point(3)
        by (intro exI [of _ "\<sigma>'(u := LPend op')"]) auto
    next
      case 2
      have "compat \<sigma>' c"
      proof
        fix v
        show "\<sigma>' v \<in> allowed (threads c v) (cmark mark c v)"
          using others [of v] au 2(1) by (cases "v = u") auto
      qed
      with 2 show ?thesis by blast
    qed
  qed
qed

lemma backward:
  assumes "inv c" "list_all (valid_call ok) es"
  shows "\<exists>\<sigma> X. compat \<sigma> c \<and> placed \<sigma> X \<and> filter (\<lambda>e. \<not> is_lin e) X = history P es c \<and>
    legal spec (absf (shared c)) X (absf (shared (exec P es c)))"
  using assms
proof (induction es arbitrary: c)
  case Nil
  then have "\<forall>u. \<exists>x. x \<in> allowed (threads c u) (cmark mark c u)"
    by (auto intro!: allowed_nonempty dest: inv_alive)
  then obtain \<sigma> where "compat \<sigma> c" by metis
  then show ?case by (intro exI [of _ \<sigma>] exI [of _ "[]"]) simp
next
  case (Cons e es)
  let ?c = "step P e c"
  have iv: "inv ?c" using Cons.prems by (simp add: inv_step)
  obtain \<sigma>' X where IH: "compat \<sigma>' ?c" "placed \<sigma>' X"
      "filter (\<lambda>e. \<not> is_lin e) X = history P es ?c"
      "legal spec (absf (shared ?c)) X (absf (shared (exec P es ?c)))"
    using Cons.IH [OF iv] Cons.prems by auto
  show ?case
  proof (cases rule: step_cases [of e c P])
    case (call t op)
    have mk: "cmark mark ?c u = (if u = t then Pend else cmark mark c u)" for u
      using Cons.prems call by (intro mark_call) auto
    then have "allowed (threads ?c t) (cmark mark ?c t) = {LPend op}"
      using call by simp
    then have t: "\<sigma>' t = LPend op" using IH(1) by blast
    have "compat (\<sigma>'(t := LIdle)) c"
    proof
      fix u
      have "u \<noteq> t \<Longrightarrow> threads ?c u = threads c u \<and> cmark mark ?c u = cmark mark c u"
        using mk by (simp add: call(3))
      then show "(\<sigma>'(t := LIdle)) u \<in> allowed (threads c u) (cmark mark c u)"
        using IH(1) call(2) by (cases "u = t") (simp, metis fun_upd_other)
    qed
    moreover have "placed (\<sigma>'(t := LIdle)) (Inv t op # X)"
      using IH(2) t by (simp add: fun_upd_idem)
    moreover have "filter (\<lambda>e. \<not> is_lin e) (Inv t op # X) = history P (e # es) c"
      using IH(3) call(1,2) by simp
    moreover have "legal spec (absf (shared c)) (Inv t op # X) (absf (shared (exec P (e # es) c)))"
      using IH(4) by (simp add: call(3))
    ultimately show ?thesis by blast
  next
    case (leave t op r)
    have "\<sigma>' t \<in> allowed (threads ?c t) (cmark mark ?c t)" using IH(1) by blast
    then have t: "\<sigma>' t = LIdle" using leave by simp
    have "compat (\<sigma>'(t := LDone op r)) c"
    proof
      fix u
      have "u \<noteq> t \<Longrightarrow> threads ?c u = threads c u \<and> cmark mark ?c u = cmark mark c u"
        using mark_leave [OF Cons.prems(1) leave(2), of ?c u] leave(1,3) by simp
      then show "(\<sigma>'(t := LDone op r)) u \<in> allowed (threads c u) (cmark mark c u)"
        using IH(1) leave(2) by (cases "u = t") (simp, metis fun_upd_other)
    qed
    moreover have "placed (\<sigma>'(t := LDone op r)) (Ret t op r # X)"
      using IH(2) t by (simp add: fun_upd_idem)
    moreover have "filter (\<lambda>e. \<not> is_lin e) (Ret t op r # X) = history P (e # es) c"
      using IH(3) leave(1,2) by simp
    moreover have "legal spec (absf (shared c)) (Ret t op r # X) (absf (shared (exec P (e # es) c)))"
      using IH(4) by (simp add: leave(3))
    ultimately show ?thesis by blast
  next
    case (stutter t a)
    then show ?thesis using IH by (intro exI [of _ \<sigma>'] exI [of _ X]) simp
  next
    case (go t n op p s' out)
    from back_step [OF Cons.prems(1) go(2), of \<sigma>' n] IH(1) iv go(1)
    obtain \<sigma> where c: "compat \<sigma> c" and
      d: "\<sigma> = \<sigma>' \<and> absf (shared ?c) = absf (shared c) \<or>
         (\<exists>u op' r. \<sigma>' = \<sigma>(u := LDone op' r) \<and> \<sigma> u = LPend op' \<and>
            spec (absf (shared c)) op' r (absf (shared ?c)))" by auto
    have em: "emitted (fst e) (snd e) (threads c (fst e)) = []" using go by simp
    from d show ?thesis
    proof (elim disjE conjE exE)
      assume "\<sigma> = \<sigma>'" "absf (shared ?c) = absf (shared c)"
      then show ?thesis using c IH em by (intro exI [of _ \<sigma>] exI [of _ X]) simp
    next
      fix u op' r
      assume "\<sigma>' = \<sigma>(u := LDone op' r)" "\<sigma> u = LPend op'"
        "spec (absf (shared c)) op' r (absf (shared ?c))"
      then show ?thesis using c IH em
        by (intro exI [of _ \<sigma>] exI [of _ "Lin u op' r # X"]) auto
    qed
  qed
qed

theorem linearizable_exec:
  assumes "list_all (valid_call ok) es"
  shows "linearizable_to spec (absf s0) (history P es (init s0)) (absf (shared (exec P es (init s0))))"
proof -
  from backward [OF inv_init assms] obtain \<sigma> X where
    c: "compat \<sigma> (init s0)" and X: "placed \<sigma> X"
      "filter (\<lambda>e. \<not> is_lin e) X = history P es (init s0)"
      "legal spec (absf s0) X (absf (shared (exec P es (init s0))))"
    by auto
  have "\<sigma> = (\<lambda>_. LIdle)" using c by (auto simp: fun_eq_iff)
  with X show ?thesis by (auto simp: linearizable_to_def)
qed

end

end
