(* ===== verification/Rely_Guarantee.thy ===== *)
theory Rely_Guarantee
  imports Concurrency
begin

text \<open>
  The proof method of the structures whose operations take effect by their own steps:
  an invariant of the shared state, an assertion per program counter, and a discipline
  on resources (nodes of the heap, slots of a thread). A thread may own resources (a
  node it has not published yet), it may have seen resources that nobody owns any more
  (a node it once read from the structure), and the structure itself holds the common
  ones. The locale og_system turns local obligations into an invariant of every
  reachable configuration; lf_object adds linearization points and is an instance of
  lin_system.
\<close>

section \<open>Invariants by rely and guarantee\<close>

locale og_system =
  fixes P :: "('s, 'op, 'r, 'p) prog"
    and s0 :: 's
    and ok :: "tid \<Rightarrow> 'op \<Rightarrow> bool"
    and sinv :: "'s \<Rightarrow> bool"
    and pinv :: "'s \<Rightarrow> tid \<Rightarrow> 'op \<Rightarrow> 'p \<Rightarrow> bool"
    and used :: "'s \<Rightarrow> 'x set"
    and common :: "'s \<Rightarrow> 'x set"
    and base :: "tid \<Rightarrow> 'x set"
    and own :: "'p \<Rightarrow> 'x set"
    and seen :: "'p \<Rightarrow> 'x set"
    and rely :: "'x set \<Rightarrow> 'x set \<Rightarrow> 's \<Rightarrow> 's \<Rightarrow> bool"
    and idle :: "'s \<Rightarrow> tid \<Rightarrow> bool"
  assumes sinv_init: "sinv s0"
    and start_ok: "sinv s \<Longrightarrow> ok t op \<Longrightarrow> idle s t \<Longrightarrow> pinv s t op (start P op)"
    and start_own: "own (start P op) = {} \<and> seen (start P op) = {}"
    and base_used: "sinv s \<Longrightarrow> base t \<subseteq> used s"
    and base_disjoint: "t \<noteq> u \<Longrightarrow> base t \<inter> base u = {}"
    and pinv_used: "pinv s t op p \<Longrightarrow> own p \<union> seen p \<subseteq> used s"
    and common_used: "sinv s \<Longrightarrow> common s \<subseteq> used s"
    and body_sinv: "sinv s \<Longrightarrow> pinv s t op p \<Longrightarrow> own p \<inter> (common s \<union> seen p) = {} \<Longrightarrow>
      body P t n s p = (s', out) \<Longrightarrow> sinv s' \<and> common s' \<subseteq> common s \<union> own p \<union> seen p \<union> - used s"
    and body_next: "sinv s \<Longrightarrow> pinv s t op p \<Longrightarrow> own p \<inter> (common s \<union> seen p) = {} \<Longrightarrow>
      body P t n s p = (s', Next p') \<Longrightarrow>
      pinv s' t op p' \<and> own p' \<subseteq> own p \<union> - used s \<and> seen p' \<subseteq> seen p \<union> common s \<union> common s' \<and>
      own p' \<inter> (common s' \<union> seen p') = {}"
    and body_safe: "sinv s \<Longrightarrow> pinv s t op p \<Longrightarrow> own p \<inter> (common s \<union> seen p) = {} \<Longrightarrow>
      body P t n s p \<noteq> (s', Fault e)"
    and guarantee: "sinv s \<Longrightarrow> pinv s t op p \<Longrightarrow> own p \<inter> (common s \<union> seen p) = {} \<Longrightarrow>
      body P t n s p = (s', out) \<Longrightarrow>
      A \<subseteq> used s - (base t \<union> own p) \<Longrightarrow> A \<inter> (common s \<union> seen p) \<subseteq> base u \<Longrightarrow> t \<noteq> u \<Longrightarrow>
      B \<subseteq> used s - own p \<Longrightarrow> rely A B s s'"
    and stable: "sinv s \<Longrightarrow> sinv s' \<Longrightarrow> rely (base t \<union> own p) (seen p) s s' \<Longrightarrow>
      pinv s t op p \<Longrightarrow> pinv s' t op p"
    and idle_init: "idle s0 t"
    and idle_return: "sinv s \<Longrightarrow> pinv s t op p \<Longrightarrow> own p \<inter> (common s \<union> seen p) = {} \<Longrightarrow>
      body P t n s p = (s', Return r) \<Longrightarrow> idle s' t"
    and idle_stable: "sinv s \<Longrightarrow> sinv s' \<Longrightarrow> rely (base t) {} s s' \<Longrightarrow> idle s t \<Longrightarrow> idle s' t"
begin

definition og_inv :: "('s, 'op, 'r, 'p) config \<Rightarrow> bool" where
  "og_inv c \<longleftrightarrow> sinv (shared c) \<and>
     (\<forall>t op e. threads c t \<noteq> Dead op e) \<and>
     (\<forall>t. (\<forall>op p. threads c t \<noteq> Run op p) \<longrightarrow> idle (shared c) t) \<and>
     (\<forall>t op p. threads c t = Run op p \<longrightarrow>
        pinv (shared c) t op p \<and> own p \<inter> common (shared c) = {} \<and>
        (\<forall>u. t \<noteq> u \<longrightarrow> base u \<inter> own p = {}) \<and>
        (\<forall>u op' q. threads c u = Run op' q \<longrightarrow>
           own p \<inter> seen q = {} \<and> (t \<noteq> u \<longrightarrow> own p \<inter> own q = {})))"

lemma og_invD:
  assumes "og_inv c"
  shows og_sinv: "sinv (shared c)"
    and og_alive: "threads c t \<noteq> Dead op e"
    and og_pinv: "threads c t = Run op p \<Longrightarrow> pinv (shared c) t op p"
    and og_common: "threads c t = Run op p \<Longrightarrow> own p \<inter> (common (shared c) \<union> seen p) = {}"
    and og_base: "threads c t = Run op p \<Longrightarrow> t \<noteq> u \<Longrightarrow> base u \<inter> own p = {}"
    and og_seen: "threads c t = Run op p \<Longrightarrow> threads c u = Run op' q \<Longrightarrow> own p \<inter> seen q = {}"
    and og_own: "threads c t = Run op p \<Longrightarrow> threads c u = Run op' q \<Longrightarrow> t \<noteq> u \<Longrightarrow>
        own p \<inter> own q = {}"
    and og_idle: "(\<And>op p. threads c t \<noteq> Run op p) \<Longrightarrow> idle (shared c) t"
  using assms by (simp_all add: og_inv_def Int_Un_distrib)

lemma og_init: "og_inv (init s0)"
  by (simp add: og_inv_def sinv_init idle_init)

text \<open>What a step of one thread leaves of another running thread.\<close>

lemma og_other:
  assumes "og_inv c" "threads c t = Run op p" "body P t n (shared c) p = (s', out)"
    and "threads c u = Run op' q" "u \<noteq> t"
  shows "rely (base u \<union> own q) (seen q) (shared c) s'" "pinv s' u op' q"
    "own q \<inter> common s' = {}" "own q \<union> seen q \<subseteq> used (shared c)"
proof -
  note D = og_invD [OF assms(1)]
  have s: "sinv (shared c)" and p: "pinv (shared c) t op p" and q: "pinv (shared c) u op' q"
    and f: "own p \<inter> (common (shared c) \<union> seen p) = {}"
    using D(1) D(3) D(4) assms(2,4) by blast+
  have s': "sinv s'" and com: "common s' \<subseteq> common (shared c) \<union> own p \<union> seen p \<union> - used (shared c)"
    using body_sinv [OF s p f assms(3)] by simp_all
  show us: "own q \<union> seen q \<subseteq> used (shared c)" using pinv_used [OF q] .
  have d: "own q \<inter> common (shared c) = {}" "own q \<inter> seen p = {}" "own p \<inter> seen q = {}"
    "own q \<inter> own p = {}" "base t \<inter> own q = {}" "base u \<inter> own p = {}"
    using D(4) [OF assms(4)] D(5) [OF assms(4), of t] D(5) [OF assms(2), of u]
      D(6) [OF assms(4,2)] D(6) [OF assms(2,4)] D(7) [OF assms(4,2)] assms(5) by blast+
  have A: "base u \<union> own q \<subseteq> used (shared c) - (base t \<union> own p)"
    using base_used [OF s] base_disjoint [OF assms(5)] d us by blast
  have A2: "(base u \<union> own q) \<inter> (common (shared c) \<union> seen p) \<subseteq> base u" using d by blast
  have B: "seen q \<subseteq> used (shared c) - own p" using d us by blast
  show r: "rely (base u \<union> own q) (seen q) (shared c) s'"
    by (rule guarantee [OF s p f assms(3) A A2 _ B]) (use assms(5) in simp)
  show "pinv s' u op' q" using stable [OF s s' r q] .
  show "own q \<inter> common s' = {}" using com d us by blast
qed

lemma og_other_idle:
  assumes "og_inv c" "threads c t = Run op p" "body P t n (shared c) p = (s', out)"
    and "idle (shared c) u" "u \<noteq> t"
  shows "idle s' u"
proof -
  note D = og_invD [OF assms(1)]
  have s: "sinv (shared c)" and p: "pinv (shared c) t op p"
    and f: "own p \<inter> (common (shared c) \<union> seen p) = {}"
    using D(1) D(3,4) [OF assms(2)] by simp_all
  have s': "sinv s'" using body_sinv [OF s p f assms(3)] by simp
  have A: "base u \<subseteq> used (shared c) - (base t \<union> own p)"
    using base_used [OF s] base_disjoint [OF assms(5)] D(5) [OF assms(2), of u] assms(5) by blast
  have "rely (base u) {} (shared c) s'"
    by (rule guarantee [OF s p f assms(3) A, where u = u]) (use assms(5) in auto)
  then show ?thesis using idle_stable [OF s s' _ assms(4)] by simp
qed

lemma og_go:
  assumes "og_inv c" "threads c t = Run op p" "body P t n (shared c) p = (s', out)"
  shows "og_inv \<lparr>shared = s', threads = (threads c)(t := resume op out)\<rparr>"
proof -
  note D = og_invD [OF assms(1)]
  have s: "sinv (shared c)" and p: "pinv (shared c) t op p"
    and f: "own p \<inter> (common (shared c) \<union> seen p) = {}"
    using D(1) D(3,4) [OF assms(2)] by simp_all
  have s': "sinv s'" and com: "common s' \<subseteq> common (shared c) \<union> own p \<union> seen p \<union> - used (shared c)"
    using body_sinv [OF s p f assms(3)] by simp_all
  have safe: "resume op out \<noteq> Dead op' e" for op' e
    using body_safe [OF s p f] assms(3) by (cases out) auto
  note other = og_other [OF assms]
  have new: "pinv s' t op p' \<and> own p' \<subseteq> own p \<union> - used (shared c) \<and>
      seen p' \<subseteq> seen p \<union> common (shared c) \<union> common s' \<and> own p' \<inter> (common s' \<union> seen p') = {}"
    if "out = Next p'" for p'
    using body_next [OF s p f] assms(3) that by simp
  have base_new: "base u \<inter> own p' = {}" if "out = Next p'" "t \<noteq> u" for u p'
    using new [OF that(1)] base_used [OF s, of u] D(5) [OF assms(2) that(2)] by blast
  have pair: "own p' \<inter> seen q = {}" "own q \<inter> own p' = {}" "own q \<inter> seen p' = {}"
    if "out = Next p'" "threads c u = Run op' q" "u \<noteq> t" for u op' q p'
    using new [OF that(1)] other(3,4) [OF that(2,3)] D(4) [OF that(2)] that
      D(6) [OF that(2) assms(2)] D(6) [OF assms(2) that(2)] D(7) [OF that(2) assms(2)] by blast+
  have idl: "idle s' v" if "\<And>op' q. (if v = t then resume op out else threads c v) \<noteq> Run op' q" for v
  proof (cases "v = t")
    case True
    have "out \<noteq> Next p'" for p' using that [of op p'] True by auto
    then obtain r where "out = Return r" using safe by (cases out) auto
    then show ?thesis using idle_return [OF s p f] assms(3) True by simp
  next
    case False
    then show ?thesis using og_other_idle [OF assms, of v] D(8) [of v] that by simp
  qed
  have run_t: "out = Next p2 \<and> op2 = op" if "resume op out = Run op2 p2" for op2 p2
    using that by (cases out) auto
  show ?thesis
    unfolding og_inv_def config.simps fun_upd_apply
  proof (intro conjI allI impI)
    fix v op' q
    assume a: "(if v = t then resume op out else threads c v) = Run op' q"
    show "pinv s' v op' q" using a new run_t other(2) by (cases "v = t") auto
    show "own q \<inter> common s' = {}" using a new run_t other(3) by (cases "v = t") auto
    show "base u \<inter> own q = {}" if "v \<noteq> u" for u
      using a that base_new run_t D(5) by (cases "v = t") auto
    fix u op2 q2
    assume b: "(if u = t then resume op out else threads c u) = Run op2 q2"
    consider "v = t" "u = t" | "v = t" "u \<noteq> t" | "v \<noteq> t" "u = t" | "v \<noteq> t" "u \<noteq> t" by blast
    then have "own q \<inter> seen q2 = {} \<and> (v \<noteq> u \<longrightarrow> own q \<inter> own q2 = {})"
    proof cases
      case 1
      then show ?thesis using a b run_t new by auto
    next
      case 2
      then show ?thesis using a b run_t pair(1,2) [of q u op2 q2] by auto
    next
      case 3
      then show ?thesis using a b run_t pair(2,3) [of q2 v op' q] by auto
    next
      case 4
      then show ?thesis using a b D(6,7) by auto
    qed
    then show "own q \<inter> seen q2 = {}" "v \<noteq> u \<Longrightarrow> own q \<inter> own q2 = {}" by blast+
  qed (use s' safe D(2) idl in auto)
qed

lemma og_step:
  assumes "og_inv c" "valid_call ok e"
  shows "og_inv (step P e c)"
proof (cases rule: step_cases [of e c P])
  case (call t op)
  have "pinv (shared c) t op (start P op)"
    using start_ok [OF og_sinv [OF assms(1)]] og_idle [OF assms(1), of t] assms(2) call by simp
  then show ?thesis
    using assms(1) start_own [of op] unfolding og_inv_def call(3) by (auto split: if_splits)
next
  case (go t n op p s' out)
  then show ?thesis using og_go [OF assms(1) go(2,3)] by simp
next
  case (leave t op r)
  then show ?thesis using assms(1) unfolding og_inv_def leave(3) by (auto split: if_splits)
next
  case stutter
  then show ?thesis using assms(1) by simp
qed

lemma og_exec: "og_inv c \<Longrightarrow> list_all (valid_call ok) es \<Longrightarrow> og_inv (exec P es c)"
  by (induction es arbitrary: c) (auto simp: og_step)

lemma og_reachable: "list_all (valid_call ok) es \<Longrightarrow> og_inv (exec P es (init s0))"
  by (simp add: og_exec og_init)

lemma og_no_fault: "list_all (valid_call ok) es \<Longrightarrow> threads (exec P es (init s0)) t \<noteq> Dead op e"
  by (rule og_alive) (rule og_reachable)

lemma og_reach_sinv: "list_all (valid_call ok) es \<Longrightarrow> sinv (shared (exec P es (init s0)))"
  by (rule og_sinv) (rule og_reachable)

end

section \<open>Progress of a thread that runs alone\<close>

text \<open>
  Obstruction freedom: in every reachable configuration a running thread that is
  scheduled alone (with suitable answers of the allocator) returns. The rank bounds the
  number of its steps.
\<close>

definition alone :: "tid \<Rightarrow> nat list \<Rightarrow> 'op sched" where
  "alone t ns = map (\<lambda>n. (t, Go n)) ns"

lemma alone_simps [simp]: "alone t [] = []" "alone t (n # ns) = (t, Go n) # alone t ns"
  by (simp_all add: alone_def)

lemma alone_valid [simp]: "list_all (valid_call ok) (alone t ns)"
  by (induction ns) simp_all

locale solo_progress = og_system P s0 ok sinv pinv used common base own seen rely idle
  for P :: "('s, 'op, 'r, 'p) prog" and s0 ok sinv pinv
    and used :: "'s \<Rightarrow> 'x set" and common base own seen rely idle +
  fixes rank :: "'s \<Rightarrow> 'p \<Rightarrow> nat"
  assumes rank_dec: "sinv s \<Longrightarrow> pinv s t op p \<Longrightarrow> own p \<inter> (common s \<union> seen p) = {} \<Longrightarrow>
    \<exists>n s' out. body P t n s p = (s', out) \<and>
      (case out of Next p' \<Rightarrow> rank s' p' < rank s p | Return r \<Rightarrow> True | Fault e \<Rightarrow> False)"
begin

lemma solo_returns_from:
  assumes "og_inv c" "threads c t = Run op p"
  shows "\<exists>ns r. length ns \<le> Suc (rank (shared c) p) \<and> threads (exec P (alone t ns) c) t = Resp op r"
  using assms
proof (induction "rank (shared c) p" arbitrary: c p rule: less_induct)
  case less
  note inv = og_sinv [OF less.prems(1)] og_pinv [OF less.prems] og_common [OF less.prems]
  obtain n s' out where b: "body P t n (shared c) p = (s', out)" and
    d: "case out of Next p' \<Rightarrow> rank s' p' < rank (shared c) p | Return r \<Rightarrow> True | Fault e \<Rightarrow> False"
    using rank_dec [OF inv] by blast
  let ?c = "\<lparr>shared = s', threads = (threads c)(t := resume op out)\<rparr>"
  have st: "step P (t, Go n) c = ?c" by (rule step_Go [OF less.prems(2) b])
  show ?case
  proof (cases out)
    case (Next p')
    then obtain ns r where "length ns \<le> Suc (rank s' p')"
      "threads (exec P (alone t ns) ?c) t = Resp op r"
      using less.hyps [of ?c p'] d og_go [OF less.prems b] by auto
    then show ?thesis using d Next st
      by (intro exI [of _ "n # ns"] exI [of _ r]) simp
  next
    case (Return r)
    then show ?thesis using st by (intro exI [of _ "[n]"] exI [of _ r]) simp
  qed (use d in simp)
qed

lemma solo_returns:
  assumes "list_all (valid_call ok) es" "threads (exec P es (init s0)) t = Run op p"
  shows "\<exists>ns r. length ns \<le> Suc (rank (shared (exec P es (init s0))) p) \<and>
    threads (exec P (es @ alone t ns) (init s0)) t = Resp op r"
  using solo_returns_from [OF og_reachable [OF assms(1)] assms(2)] by simp

end

section \<open>Lock-free objects with their own linearization points\<close>

definition lin_own :: "('q \<Rightarrow> 'op \<Rightarrow> 'r \<Rightarrow> 'q \<Rightarrow> bool) \<Rightarrow> 'op \<Rightarrow> 'q \<Rightarrow> 'r mark \<Rightarrow> 'q \<Rightarrow> 'r mark \<Rightarrow> bool"
  where "lin_own spec op q m q' m' \<longleftrightarrow> q' = q \<and> evolves m m' \<or>
    open_mark m \<and> (\<exists>r. spec q op r q' \<and> (m' = Fixed r \<or> m' = Seen r \<and> q' = q))"

fun out_mark :: "('p \<Rightarrow> 'r mark) \<Rightarrow> ('p, 'r) outcome \<Rightarrow> 'r mark" where
  "out_mark m (Next p) = m p"
| "out_mark m (Return r) = Fixed r"
| "out_mark m (Fault e) = Pend"

lemma lin_own_silent [intro]: "q' = q \<Longrightarrow> evolves m m' \<Longrightarrow> lin_own spec op q m q' m'"
  by (simp add: lin_own_def)

lemma lin_own_point: "spec q op r q' \<Longrightarrow> open_mark m \<Longrightarrow> lin_own spec op q m q' (Fixed r)"
  by (auto simp: lin_own_def)

lemma lin_own_seen: "spec q op r q \<Longrightarrow> q' = q \<Longrightarrow> open_mark m \<Longrightarrow> lin_own spec op q m q' (Seen r)"
  by (auto simp: lin_own_def)

locale lf_object = og_system P s0 ok sinv pinv used common base own seen rely idle
  for P :: "('s, 'op, 'r, 'p) prog" and s0 ok sinv pinv
    and used :: "'s \<Rightarrow> 'x set" and common base own seen rely idle +
  fixes absf :: "'s \<Rightarrow> 'q"
    and spec :: "'q \<Rightarrow> 'op \<Rightarrow> 'r \<Rightarrow> 'q \<Rightarrow> bool"
    and mark :: "'s \<Rightarrow> 'p \<Rightarrow> 'r mark"
  assumes start_pend: "mark s (start P op) = Pend"
    and body_lin: "sinv s \<Longrightarrow> pinv s t op p \<Longrightarrow> own p \<inter> (common s \<union> seen p) = {} \<Longrightarrow>
      body P t n s p = (s', out) \<Longrightarrow>
      lin_own spec op (absf s) (mark s p) (absf s') (out_mark (mark s') out)"
    and stable_mark: "sinv s \<Longrightarrow> sinv s' \<Longrightarrow> rely (base t \<union> own p) (seen p) s s' \<Longrightarrow>
      pinv s t op p \<Longrightarrow> mark s' p = mark s p"
begin

lemma own_lin_step:
  assumes "og_inv c" "threads c t = Run op p"
  shows "lin_step spec absf (\<lambda>c _ _. mark (shared c)) c (step P (t, Go n) c)"
proof -
  obtain s' out where b: "body P t n (shared c) p = (s', out)" by fastforce
  note st = step_Go [OF assms(2) b]
  note inv = og_sinv [OF assms(1)] og_pinv [OF assms] og_common [OF assms]
  have safe: "out \<noteq> Fault e" for e using body_safe [OF inv] b by auto
  have s': "sinv s'" using body_sinv [OF inv b] by simp
  let ?c = "step P (t, Go n) c"
  let ?mk = "cmark (\<lambda>c _ _. mark (shared c))"
  have mc: "?mk c t = mark (shared c) p" using assms(2) by simp
  have mt: "?mk ?c t = out_mark (mark s') out"
    using safe by (cases out) (simp_all add: st cmark_def)
  have mo: "?mk ?c u = ?mk c u" if "u \<noteq> t" for u
  proof (cases "threads c u")
    case (Run op' q)
    then show ?thesis
      using og_other(1) [OF assms(1,2) b Run that] stable_mark [OF inv(1) s' _ og_pinv [OF assms(1) Run]]
        that by (simp add: st)
  qed (use that in \<open>simp_all add: st cmark_def\<close>)
  from body_lin [OF inv b] consider
      (silent) "absf s' = absf (shared c)" "evolves (mark (shared c) p) (out_mark (mark s') out)"
    | (point) r where "open_mark (mark (shared c) p)" "spec (absf (shared c)) op r (absf s')"
        "out_mark (mark s') out = Fixed r \<or> out_mark (mark s') out = Seen r \<and> absf s' = absf (shared c)"
    unfolding lin_own_def by blast
  then show ?thesis
  proof cases
    case silent
    then have "absf (shared ?c) = absf (shared c)" "\<And>u. evolves (?mk c u) (?mk ?c u)"
      using mc mt mo by (simp add: st, metis evolves_refl)
    then show ?thesis by (simp add: lin_step_def silent_marks_def)
  next
    case (point r)
    show ?thesis
      unfolding lin_step_def silent_marks_def
      by (intro disjI2 exI [of _ t] exI [of _ op] exI [of _ p] exI [of _ r])
        (use point assms(2) mc mt mo st in auto)
  qed
qed

end

sublocale lf_object \<subseteq> lin_system P s0 ok og_inv absf spec "\<lambda>c _ _. mark (shared c)"
proof (unfold_locales, goal_cases)
  case 1 show ?case by (rule og_init)
next
  case 2 then show ?case by (rule og_step)
next
  case 3 then show ?case by (auto dest: og_alive)
next
  case 4 then show ?case by (simp add: cmark_def start_pend split: tstate.split)
next
  case 5 then show ?case by (simp add: cmark_def split: tstate.split)
next
  case 6 then show ?case by (rule own_lin_step)
qed

end
