(* ===== verification/Atomic_Value.thy ===== *)
theory Atomic_Value
  imports Rely_Guarantee
begin

text \<open>
  The atomic words of src/src/util: AtomicValue128 (a 64 bit value over a 64 bit ABA
  counter, changed with a 128 bit compare-and-swap) and the two 64 bit variants that
  squeeze a 3 bit counter into the pointer. The layouts are shown to implement the
  atomic cell of the theory Prelude, and the compare-and-swap loops of the 128 bit
  class are shown linearizable although the two halves of the word are read separately.
\<close>

unbundle bit_operations_syntax

section \<open>The 128 bit layout\<close>

type_synonym u128 = "128 word"

definition max64 :: u64 where
  "max64 = - 1"

definition UINT128_C :: "u64 \<Rightarrow> u128" where
  "UINT128_C x = ucast x"

definition aba128 :: "u128 \<Rightarrow> u64" where
  "aba128 raw = ucast (raw AND UINT128_C max64)"

definition value128 :: "u128 \<Rightarrow> u64" where
  "value128 raw = ucast (drop_bit 64 raw)"

definition with_value128 :: "u64 \<Rightarrow> u128 \<Rightarrow> u128" where
  "with_value128 v m = (m AND UINT128_C max64) OR push_bit 64 (ucast v)"

definition with_aba128 :: "u64 \<Rightarrow> u128 \<Rightarrow> u128" where
  "with_aba128 a m = (m AND push_bit 64 (UINT128_C max64)) OR ucast a"

definition init128 :: "u64 \<Rightarrow> u64 \<Rightarrow> u128" where
  "init128 v a = with_aba128 a (with_value128 v 0)"

text \<open>What the cell of the Prelude sees of the word.\<close>

definition cell128 :: "u128 \<Rightarrow> u64 acell" where
  "cell128 m = cell (value128 m) (aba128 m)"

lemma bit_ucast_max64 [simp]: "bit (UINT128_C max64) n \<longleftrightarrow> n < 64"
  by (auto simp: UINT128_C_def max64_def bit_simps)

lemma bit_aba128: "bit (aba128 m) n \<longleftrightarrow> n < 64 \<and> bit m n"
  by (auto simp: aba128_def bit_simps)

lemma bit_value128: "bit (value128 m) n \<longleftrightarrow> n < 64 \<and> bit m (64 + n)"
  by (auto simp: value128_def bit_simps)

lemma bit_with_value128:
  "bit (with_value128 v m) n \<longleftrightarrow> (if n < 64 then bit m n else n < 128 \<and> bit v (n - 64))"
  by (auto simp: with_value128_def bit_simps)

lemma bit_with_aba128:
  "bit (with_aba128 a m) n \<longleftrightarrow> (if n < 64 then bit a n else bit m n)"
  by (auto simp: with_aba128_def bit_simps dest: bit_imp_le_length)

lemmas bits128 = bit_aba128 bit_value128 bit_with_value128 bit_with_aba128

lemma value_with_value128 [simp]: "value128 (with_value128 v m) = v"
  by (rule bit_word_eqI) (auto simp: bits128)

lemma aba_with_value128 [simp]: "aba128 (with_value128 v m) = aba128 m"
  by (rule bit_word_eqI) (auto simp: bits128)

lemma value_with_aba128 [simp]: "value128 (with_aba128 a m) = value128 m"
  by (rule bit_word_eqI) (auto simp: bits128)

lemma aba_with_aba128 [simp]: "aba128 (with_aba128 a m) = a"
  by (rule bit_word_eqI) (auto simp: bits128)

lemma cell128_inject: "cell128 m = cell128 m' \<Longrightarrow> m = m'"
proof (rule bit_word_eqI)
  fix n
  assume eq: "cell128 m = cell128 m'" and n: "n < LENGTH(128)"
  have v: "value128 m = value128 m'" and a: "aba128 m = aba128 m'"
    using eq by (simp_all add: cell128_def)
  show "bit m n = bit m' n"
  proof (cases "n < 64")
    case True
    then show ?thesis using bit_aba128 [of m n] bit_aba128 [of m' n] a by simp
  next
    case False
    then have "64 + (n - 64) = n" "n - 64 < 64" using n by simp_all
    then show ?thesis using bit_value128 [of m "n - 64"] bit_value128 [of m' "n - 64"] v by simp
  qed
qed

lemma cell128_eq_iff: "cell128 m = cell128 m' \<longleftrightarrow> m = m'"
  using cell128_inject by blast

lemma cell128_init: "cell128 (init128 v a) = cell v a"
  by (simp add: cell128_def init128_def)

definition cas128 :: "u128 \<Rightarrow> u128 \<Rightarrow> u128 \<Rightarrow> u128 \<times> bool" where
  "cas128 mem expected newcp = (if mem = expected then (newcp, True) else (mem, False))"

section \<open>The 64 bit layouts\<close>

text \<open>
  Both 64 bit classes keep a 3 bit counter in the low bits; the offset variant stores the
  value in place (a pointer aligned to 8 bytes), the other one shifts it left by 3.
\<close>

definition kAbaMax64 :: u64 where
  "kAbaMax64 = 7"

definition kAbaBits64 :: nat where
  "kAbaBits64 = 3"

definition aba64 :: "u64 \<Rightarrow> u8" where
  "aba64 raw = ucast (raw AND kAbaMax64)"

definition set_aba64 :: "u8 \<Rightarrow> u64 \<Rightarrow> u64" where
  "set_aba64 a m = (m AND (max64 - kAbaMax64)) OR (ucast a AND kAbaMax64)"

definition cas64 :: "u64 \<Rightarrow> u64 \<Rightarrow> u64 \<Rightarrow> u64 \<times> bool" where
  "cas64 mem expected newcp = (if mem = expected then (newcp, True) else (mem, False))"

definition value64_offset :: "u64 \<Rightarrow> u64" where
  "value64_offset raw = raw AND (max64 - kAbaMax64)"

definition set_value64_offset :: "u64 \<Rightarrow> u64 \<Rightarrow> u64" where
  "set_value64_offset v m = (m AND kAbaMax64) OR (v AND (max64 - kAbaMax64))"

definition init64_offset :: "u64 \<Rightarrow> u8 \<Rightarrow> u64" where
  "init64_offset v a = set_aba64 a (set_value64_offset v 0)"

definition value64_no_offset :: "u64 \<Rightarrow> u64" where
  "value64_no_offset raw = drop_bit kAbaBits64 raw"

definition set_value64_no_offset :: "u64 \<Rightarrow> u64 \<Rightarrow> u64" where
  "set_value64_no_offset v m = (m AND kAbaMax64) OR push_bit kAbaBits64 v"

definition init64_no_offset :: "u64 \<Rightarrow> u8 \<Rightarrow> u64" where
  "init64_no_offset v a = set_aba64 a (set_value64_no_offset v 0)"

lemma kAbaMax64_mask: "kAbaMax64 = mask 3"
  by (simp add: kAbaMax64_def mask_eq_exp_minus_1)

lemma not_kAbaMax64: "max64 - mask 3 = NOT (mask 3)"
  by (simp add: max64_def not_eq_complement)

lemma bit_aba64: "bit (aba64 m) n \<longleftrightarrow> n < 3 \<and> bit m n"
  by (auto simp: aba64_def kAbaMax64_mask bit_simps)

lemma bit_set_aba64: "bit (set_aba64 a m) n \<longleftrightarrow> (if n < 3 then bit a n else bit m n)"
  by (auto simp: set_aba64_def kAbaMax64_mask not_kAbaMax64 bit_simps dest: bit_imp_le_length)

lemma bit_value64_offset: "bit (value64_offset m) n \<longleftrightarrow> 3 \<le> n \<and> bit m n"
  by (auto simp: value64_offset_def kAbaMax64_mask not_kAbaMax64 bit_simps dest: bit_imp_le_length)

lemma bit_set_value64_offset:
  "bit (set_value64_offset v m) n \<longleftrightarrow> (if n < 3 then bit m n else bit v n)"
  by (auto simp: set_value64_offset_def kAbaMax64_mask not_kAbaMax64 bit_simps
      dest: bit_imp_le_length)

lemma bit_value64_no_offset: "bit (value64_no_offset m) n \<longleftrightarrow> bit m (n + 3)"
  by (auto simp: value64_no_offset_def kAbaBits64_def bit_simps add.commute)

lemma bit_set_value64_no_offset:
  "bit (set_value64_no_offset v m) n \<longleftrightarrow> n < 64 \<and> (if n < 3 then bit m n else bit v (n - 3))"
  by (auto simp: set_value64_no_offset_def kAbaBits64_def kAbaMax64_mask bit_simps
      dest: bit_imp_le_length)

lemmas bits64 = bit_aba64 bit_set_aba64 bit_value64_offset bit_set_value64_offset
  bit_value64_no_offset bit_set_value64_no_offset

lemma aba_set_aba64: "aba64 (set_aba64 a m) = a AND mask 3"
  by (rule bit_word_eqI) (auto simp: bits64 bit_simps)

lemma value_set_aba64_offset: "value64_offset (set_aba64 a m) = value64_offset m"
  by (rule bit_word_eqI) (auto simp: bits64)

lemma value_set_aba64_no_offset: "value64_no_offset (set_aba64 a m) = value64_no_offset m"
  by (rule bit_word_eqI) (auto simp: bits64)

lemma value_set_value64_offset: "value64_offset (set_value64_offset v m) = v AND NOT (mask 3)"
  by (rule bit_word_eqI) (auto simp: bits64 bit_simps)

lemma value_set_value64_no_offset: "value64_no_offset (set_value64_no_offset v m) = v AND mask 61"
  by (rule bit_word_eqI) (auto simp: bits64 bit_simps dest: bit_imp_le_length)

lemma aba_set_value64_offset: "aba64 (set_value64_offset v m) = aba64 m"
  by (rule bit_word_eqI) (auto simp: bits64)

lemma aba_set_value64_no_offset: "aba64 (set_value64_no_offset v m) = aba64 m"
  by (rule bit_word_eqI) (auto simp: bits64)

lemma word64_parts_offset:
  assumes "value64_offset m = value64_offset m'" "aba64 m = aba64 m'"
  shows "m = m'"
proof (rule bit_word_eqI)
  fix n assume "n < LENGTH(64)"
  show "bit m n = bit m' n"
    using bit_value64_offset [of m n] bit_value64_offset [of m' n] bit_aba64 [of m n] bit_aba64 [of m' n]
    by (cases "n < 3") (simp_all add: assms)
qed

lemma word64_parts_no_offset:
  assumes "value64_no_offset m = value64_no_offset m'" "aba64 m = aba64 m'"
  shows "m = m'"
proof (rule bit_word_eqI)
  fix n assume "n < LENGTH(64)"
  show "bit m n = bit m' n"
    using bit_value64_no_offset [of m "n - 3"] bit_value64_no_offset [of m' "n - 3"]
      bit_aba64 [of m n] bit_aba64 [of m' n]
    by (cases "n < 3") (simp_all add: assms)
qed

section \<open>The compare-and-swap loops of the 128 bit class\<close>

text \<open>
  Plain reads of the 128 bit word are two 64 bit loads. The method raw() reads the word
  until two reads agree; the setters compute a new word from such a read and install it
  with a compare-and-swap, again and again until it succeeds. The model below makes
  every 64 bit load a step of its own; only the compare-and-swap is atomic.
\<close>

datatype av_op = SetValue u64 | SetAba u64 | SetRaw u128 | GetAba | GetValue | GetRaw | Cas u128 u128

datatype av_res = RUnit | RBool bool | RWord u64 | RRaw u128

datatype av_pc =
    RawLow av_op
  | RawHigh av_op u64
  | CheckLow av_op u64 u64
  | CheckHigh av_op u64 u64
  | Install av_op u128
  | CasLow u128 u128
  | CasHigh u128 u128
  | CasNow u128 u128

definition join128 :: "u64 \<Rightarrow> u64 \<Rightarrow> u128" where
  "join128 hi lo = with_value128 hi (with_aba128 lo 0)"

fun av_new :: "av_op \<Rightarrow> u128 \<Rightarrow> u128" where
  "av_new (SetValue v) old = with_value128 v old"
| "av_new (SetAba a) old = with_aba128 a old"
| "av_new (SetRaw r) old = r"
| "av_new op old = old"

fun av_start :: "av_op \<Rightarrow> av_pc" where
  "av_start (Cas e n) = CasLow e n"
| "av_start op = RawLow op"

text \<open>What is done with the word that raw() returned.\<close>

fun av_read :: "av_op \<Rightarrow> u64 \<Rightarrow> u64 \<Rightarrow> (av_pc, av_res) outcome" where
  "av_read GetAba hi lo = Return (RWord lo)"
| "av_read GetValue hi lo = Return (RWord hi)"
| "av_read GetRaw hi lo = Return (RRaw (join128 hi lo))"
| "av_read op hi lo = Next (Install op (join128 hi lo))"

fun av_body :: "tid \<Rightarrow> nat \<Rightarrow> u128 \<Rightarrow> av_pc \<Rightarrow> u128 \<times> (av_pc, av_res) outcome" where
  "av_body t c m (RawLow op) = (m, Next (RawHigh op (aba128 m)))"
| "av_body t c m (RawHigh op lo) = (m, Next (CheckLow op lo (value128 m)))"
| "av_body t c m (CheckLow op lo hi) =
     (m, Next (if aba128 m = lo then CheckHigh op lo hi else RawLow op))"
| "av_body t c m (CheckHigh op lo hi) =
     (m, if value128 m = hi then av_read op hi lo else Next (RawLow op))"
| "av_body t c m (Install op old) =
     (let (m', b) = cas128 m old (av_new op old)
      in (m', if b then Return RUnit else Next (RawLow op)))"
| "av_body t c m (CasLow e n) =
     (m, if aba128 m = aba128 e then Next (CasHigh e n) else Return (RBool False))"
| "av_body t c m (CasHigh e n) =
     (m, if value128 m = value128 e then Next (CasNow e n) else Return (RBool False))"
| "av_body t c m (CasNow e n) = (let (m', b) = cas128 m e n in (m', Return (RBool b)))"

definition av_prog :: "(u128, av_op, av_res, av_pc) prog" where
  "av_prog = \<lparr>start = av_start, body = av_body\<rparr>"

lemma av_prog_simps [simp]: "start av_prog = av_start" "body av_prog = av_body"
  by (simp_all add: av_prog_def)

text \<open>The sequential atomic register.\<close>

fun register_spec :: "u128 \<Rightarrow> av_op \<Rightarrow> av_res \<Rightarrow> u128 \<Rightarrow> bool" where
  "register_spec m (SetValue v) r m' = (r = RUnit \<and> m' = with_value128 v m)"
| "register_spec m (SetAba a) r m' = (r = RUnit \<and> m' = with_aba128 a m)"
| "register_spec m (SetRaw w) r m' = (r = RUnit \<and> m' = w)"
| "register_spec m GetAba r m' = (r = RWord (aba128 m) \<and> m' = m)"
| "register_spec m GetValue r m' = (r = RWord (value128 m) \<and> m' = m)"
| "register_spec m GetRaw r m' = (r = RRaw m \<and> m' = m)"
| "register_spec m (Cas e n) r m' = (r = RBool (m = e) \<and> m' = (if m = e then n else m))"

text \<open>aba() takes effect at the load of the low half, value() at the load of the high half.\<close>

fun av_mark :: "av_pc \<Rightarrow> av_res mark" where
  "av_mark (RawHigh GetAba lo) = Seen (RWord lo)"
| "av_mark (CheckLow GetAba lo hi) = Seen (RWord lo)"
| "av_mark (CheckHigh GetAba lo hi) = Seen (RWord lo)"
| "av_mark (CheckLow GetValue lo hi) = Seen (RWord hi)"
| "av_mark (CheckHigh GetValue lo hi) = Seen (RWord hi)"
| "av_mark p = Pend"

fun av_pinv :: "u128 \<Rightarrow> tid \<Rightarrow> av_op \<Rightarrow> av_pc \<Rightarrow> bool" where
  "av_pinv m t op (RawLow op') = (op' = op \<and> op \<noteq> GetRaw \<and> (\<forall>e n. op \<noteq> Cas e n))"
| "av_pinv m t op (RawHigh op' lo) = (op' = op \<and> op \<noteq> GetRaw \<and> (\<forall>e n. op \<noteq> Cas e n))"
| "av_pinv m t op (CheckLow op' lo hi) = (op' = op \<and> op \<noteq> GetRaw \<and> (\<forall>e n. op \<noteq> Cas e n))"
| "av_pinv m t op (CheckHigh op' lo hi) = (op' = op \<and> op \<noteq> GetRaw \<and> (\<forall>e n. op \<noteq> Cas e n))"
| "av_pinv m t op (Install op' old) = (op' = op \<and> (\<exists>x. op = SetValue x \<or> op = SetAba x \<or> (\<exists>w. op = SetRaw w)))"
| "av_pinv m t op (CasLow e n) = (op = Cas e n)"
| "av_pinv m t op (CasHigh e n) = (op = Cas e n)"
| "av_pinv m t op (CasNow e n) = (op = Cas e n)"

definition no_raw_read :: "tid \<Rightarrow> av_op \<Rightarrow> bool" where
  "no_raw_read t op \<longleftrightarrow> op \<noteq> GetRaw"

lemma av_pinv_start: "no_raw_read t op \<Longrightarrow> av_pinv m t op (av_start op)"
  by (cases op) (auto simp: no_raw_read_def)

lemma av_pinv_mono: "av_pinv m t op p \<Longrightarrow> av_pinv m' t op p"
  by (cases p) auto

lemma av_body_next: "av_pinv m t op p \<Longrightarrow> av_body t n m p = (m', Next p') \<Longrightarrow> av_pinv m' t op p'"
  by (cases p; cases op) (auto simp: cas128_def split: if_splits)

lemma av_body_safe: "av_body t n m p \<noteq> (m', Fault e)"
proof
  assume "av_body t n m p = (m', Fault e)"
  moreover have "av_read op hi lo \<noteq> Fault e" for op hi lo by (cases op) auto
  ultimately show False by (cases p) (auto simp: cas128_def split: if_splits)
qed

lemma av_body_lin:
  assumes "av_pinv m t op p" "av_body t n m p = (m', out)"
  shows "lin_own register_spec op m (av_mark p) m' (out_mark av_mark out)"
  using assms
  by (cases p; cases op) (auto simp: lin_own_def cas128_def split: if_splits)

interpretation av: lf_object av_prog "0" no_raw_read "\<lambda>_. True" av_pinv
    "\<lambda>_. {} :: unit set" "\<lambda>_. {}" "\<lambda>_. {}" "\<lambda>_. {}" "\<lambda>_. {}" "\<lambda>_ _ _ _. True"
    "\<lambda>_ _. True" "\<lambda>m. m" register_spec "\<lambda>_. av_mark"
proof (unfold_locales, goal_cases)
  case (2 s op t) then show ?case by (simp add: av_pinv_start)
next
  case (9 s t op p n s' p') then show ?case by (auto dest: av_body_next)
next
  case (10 s t op p n s' e) then show ?case by (simp add: av_body_safe)
next
  case (12 s s' t op p) then show ?case by (blast intro: av_pinv_mono)
next
  case (16 s op) then show ?case by (cases op) simp_all
next
  case (17 s t op p n s' out) then show ?case by (auto intro: av_body_lin)
qed simp_all

section \<open>The double read of raw()\<close>

text \<open>
  The four loads of one round of raw(), at four moments of a history of the word.
\<close>

definition raw_round :: "(nat \<Rightarrow> u128) \<Rightarrow> nat \<Rightarrow> nat \<Rightarrow> nat \<Rightarrow> nat \<Rightarrow> u128 option" where
  "raw_round ws t1 t2 t3 t4 = (let lo = aba128 (ws t1); hi = value128 (ws t2)
     in if aba128 (ws t3) = lo \<and> value128 (ws t4) = hi then Some (join128 hi lo) else None)"

definition counted :: "(nat \<Rightarrow> u128) \<Rightarrow> bool" where
  "counted ws \<longleftrightarrow> (\<forall>i. ws (Suc i) = ws i \<or> aba128 (ws (Suc i)) = aba128 (ws i) + 1)"

lemma raw_round_body:
  "raw_round ws t1 t2 t3 t4 = Some w \<longleftrightarrow>
     (\<exists>p1 p2 p3. av_body t n (ws t1) (RawLow GetRaw) = (ws t1, Next p1) \<and>
        av_body t n (ws t2) p1 = (ws t2, Next p2) \<and> av_body t n (ws t3) p2 = (ws t3, Next p3) \<and>
        av_body t n (ws t4) p3 = (ws t4, Return (RRaw w)))"
  by (auto simp: raw_round_def Let_def)

lemma join_parts128 [simp]: "join128 (value128 m) (aba128 m) = m"
  by (rule cell128_inject) (simp add: cell128_def join128_def)

lemma value_join128 [simp]: "value128 (join128 hi lo) = hi" "aba128 (join128 hi lo) = lo"
  by (simp_all add: join128_def)

lemma zero128: "0 = join128 0 0"
  by (rule cell128_inject) (simp add: cell128_def, simp add: value128_def aba128_def)

lemma join128_eq_iff: "join128 a b = join128 c d \<longleftrightarrow> a = c \<and> b = d"
  by (metis value_join128)

lemma counted_changes:
  assumes "counted ws"
  shows "\<exists>k \<le> n. aba128 (ws (t + n)) = aba128 (ws t) + of_nat k \<and> (k = 0 \<longrightarrow> ws (t + n) = ws t)"
proof (induction n)
  case (Suc n)
  then obtain k where k: "k \<le> n" "aba128 (ws (t + n)) = aba128 (ws t) + of_nat k" "k = 0 \<longrightarrow> ws (t + n) = ws t"
    by blast
  consider "ws (Suc (t + n)) = ws (t + n)" | "aba128 (ws (Suc (t + n))) = aba128 (ws (t + n)) + 1"
    using assms by (auto simp: counted_def)
  then show ?case
  proof cases
    case 1
    then show ?thesis using k by (intro exI [of _ k]) simp
  next
    case 2
    then show ?thesis using k by (intro exI [of _ "Suc k"]) (simp add: algebra_simps)
  qed
qed simp

lemma counted_back:
  assumes "counted ws" "n < 2 ^ 64" "aba128 (ws (t + n)) = aba128 (ws t)"
  shows "ws (t + n) = ws t"
proof -
  obtain k where k: "k \<le> n" "aba128 (ws (t + n)) = aba128 (ws t) + of_nat k" "k = 0 \<longrightarrow> ws (t + n) = ws t"
    using counted_changes [OF assms(1)] by blast
  then have "(of_nat k :: u64) = 0" using assms(3) by simp
  then have "2 ^ 64 dvd k" by (simp add: word_of_nat_eq_0_iff)
  then have "k = 0" using k(1) assms(2) by (auto dest: dvd_imp_le)
  then show ?thesis using k(3) by simp
qed

section \<open>Properties\<close>

text \<open>
  C7: in every interleaving of the methods of AtomicValue128 other than raw() itself,
  although each reads the two halves of the word by separate loads, the history is
  linearizable with respect to an atomic 128 bit register, and the linearization ends
  in the word that memory holds.
\<close>

theorem atomic_value128_linearizable:
  assumes "list_all (valid_call no_raw_read) es"
  shows "linearizable_to register_spec 0 (history av_prog es (init 0)) (shared (exec av_prog es (init 0)))"
  using av.linearizable_exec [OF assms] by simp

definition av_setters :: "av_op sched" where
  "av_setters = [(0, Call (SetValue 5)), (1, Call (SetAba 3)), (0, Go 0), (1, Go 0), (0, Go 0), (1, Go 0),
     (0, Go 0), (0, Go 0), (1, Go 0), (1, Go 0), (0, Go 0), (1, Go 0)]"

lemma atomic_value128_linearizable_witness:
  "linearizable_to register_spec 0 (history av_prog av_setters (init 0))
     (shared (exec av_prog av_setters (init 0)))"
  by (rule atomic_value128_linearizable) (simp add: av_setters_def no_raw_read_def)

text \<open>
  C8: a round of raw() that succeeds returns the word that memory held when its second
  load ran, provided every change of the word counts the ABA half up by one (which is
  how the data structures use it) and the counter does not wrap around completely
  within the round. This is what lets the data structures be modelled with an atomic
  read of a 128 bit pointer.
\<close>

theorem raw_snapshot:
  assumes "counted ws" "t1 \<le> t2" "t2 \<le> t3" "t3 - t1 < 2 ^ 64" "raw_round ws t1 t2 t3 t4 = Some w"
  shows "w = ws t2 \<and> ws t3 = ws t1"
proof -
  have lo: "aba128 (ws t3) = aba128 (ws t1)" and w: "w = join128 (value128 (ws t2)) (aba128 (ws t1))"
    using assms(5) by (simp_all add: raw_round_def Let_def split: if_splits)
  have e: "ws t3 = ws t1"
    using counted_back [OF assms(1,4), of t1] lo assms(2,3) by simp
  obtain k where k: "k \<le> t2 - t1" "aba128 (ws t2) = aba128 (ws t1) + of_nat k" "k = 0 \<longrightarrow> ws t2 = ws t1"
    using counted_changes [OF assms(1), of "t2 - t1" t1] assms(2) by auto
  obtain j where j: "j \<le> t3 - t2" "aba128 (ws t3) = aba128 (ws t2) + of_nat j"
    using counted_changes [OF assms(1), of "t3 - t2" t2] assms(3) by auto
  have "(of_nat (k + j) :: u64) = 0" using k(2) j(2) lo by simp
  then have "2 ^ 64 dvd k + j" unfolding word_of_nat_eq_0_iff by simp
  moreover have "k + j < 2 ^ 64" using k(1) j(1) assms(2-4) by linarith
  ultimately have "k + j = 0" by (meson dvd_imp_le not_le gr0I)
  then show ?thesis using k(3) w e by simp
qed

definition counting_word :: "nat \<Rightarrow> u128" where
  "counting_word i = (if i < 3 then 0 else join128 9 1)"

lemma raw_snapshot_witness: "(0 :: u128) = counting_word 1 \<and> counting_word 2 = counting_word 0"
proof (rule raw_snapshot [of counting_word 0 1 2 2 0])
  show "counted counting_word"
    by (simp add: counted_def counting_word_def zero128)
  show "raw_round counting_word 0 1 2 2 = Some 0"
    by (simp add: raw_round_def counting_word_def)
qed simp_all

text \<open>
  Raw() alone does not read consistently when writers reuse words: here the reader
  overlaps a writer that stores (1, 1), (0, 0) and (1, 1) with set_raw(), and returns
  the word (1, 0), which memory never held.
\<close>

definition raw_torn_sched :: "av_op sched" where
  "raw_torn_sched =
     (let write = (\<lambda>w. (1, Call (SetRaw w)) # replicate 5 (1, Go 0) @ [(1, Leave)])
      in (0, Call GetRaw) # (0, Go 0) # write (join128 1 1) @ (0, Go 0) # write 0 @
         (0, Go 0) # write (join128 1 1) @ [(0, Go 0)])"

theorem raw_torn_read:
  "threads (exec av_prog raw_torn_sched (init 0)) 0 = Resp GetRaw (RRaw (join128 1 0)) \<and>
   list_all (\<lambda>n. shared (exec av_prog (take n raw_torn_sched) (init 0)) \<noteq> join128 1 0)
     [0..<Suc (length raw_torn_sched)]"
  by (simp add: raw_torn_sched_def zero128 Let_def numeral_eq_Suc step_def init_def cas128_def
      join128_eq_iff upt_rec)

text \<open>
  C9: the 128 bit word implements the cell the data structures are modelled with: the
  constructor builds the cell of a value and a counter, the setters replace one
  component, words with the same components are equal, and cas() is the
  compare-and-swap of the cells.
\<close>

theorem atomic_value128_refines_cell:
  "cell128 (init128 v a) = cell v a \<and>
   cell128 (with_value128 v m) = cell v (aba128 m) \<and>
   cell128 (with_aba128 a m) = cell (value128 m) a \<and>
   (let (m', b) = cas128 m e n in cas (cell128 m) (cell128 e) (cell128 n) = (cell128 m', b))"
  by (simp add: cell128_init cell128_def [of "with_value128 v m"] cell128_def [of "with_aba128 a m"]
      cas128_def cas_def cell128_eq_iff)

text \<open>
  C10: the 64 bit words: a value that fits (a multiple of eight for the offset layout,
  below 2 to the 61 for the shifted one) and a counter come back unchanged (others are truncated) from the word they
  were stored in, the counter modulo eight; equal parts mean equal words.
\<close>

theorem atomic_value64_layout:
  "value64_offset (init64_offset v a) = v AND NOT (mask 3) \<and>
   value64_no_offset (init64_no_offset v a) = v AND mask 61 \<and>
   aba64 (init64_offset v a) = a AND mask 3 \<and> aba64 (init64_no_offset v a) = a AND mask 3 \<and>
   ((value64_offset m, aba64 m) = (value64_offset m', aba64 m') \<longleftrightarrow> m = m') \<and>
   ((value64_no_offset m, aba64 m) = (value64_no_offset m', aba64 m') \<longleftrightarrow> m = m')"
  using word64_parts_offset [of m m'] word64_parts_no_offset [of m m']
  by (auto simp: init64_offset_def init64_no_offset_def aba_set_aba64 value_set_aba64_offset
      value_set_aba64_no_offset value_set_value64_offset value_set_value64_no_offset)

end
