(* ===== verification/Item_Pool.thy ===== *)
theory Item_Pool
  imports Rely_Guarantee "HOL-Library.Multiset"
begin

text \<open>
  The contract that the relaxed structures share, whatever order they give their items: no
  item is lost, invented or handed out twice. The interface item_pool asks for a balance of
  every single step; what it gives is the balance of every execution, as multisets of the
  items put, stored and handed out in its history.
\<close>

section \<open>Counting items in a history\<close>

fun ret_items :: "('op \<Rightarrow> 'r \<Rightarrow> 'a option) \<Rightarrow> ('op, 'r) event list \<Rightarrow> 'a multiset" where
  "ret_items f [] = {#}"
| "ret_items f (Ret t op r # H) = (case f op r of None \<Rightarrow> {#} | Some x \<Rightarrow> {#x#}) + ret_items f H"
| "ret_items f (Inv t op # H) = ret_items f H"
| "ret_items f (Lin t op r # H) = ret_items f H"

fun inv_items :: "('op \<Rightarrow> 'a option) \<Rightarrow> ('op, 'r) event list \<Rightarrow> 'a multiset" where
  "inv_items f [] = {#}"
| "inv_items f (Inv t op # H) = (case f op of None \<Rightarrow> {#} | Some x \<Rightarrow> {#x#}) + inv_items f H"
| "inv_items f (Ret t op r # H) = inv_items f H"
| "inv_items f (Lin t op r # H) = inv_items f H"

definition one :: "'a option \<Rightarrow> 'a multiset" where
  "one y = (case y of None \<Rightarrow> {#} | Some x \<Rightarrow> {#x#})"

lemma one_simps [simp]: "one None = {#}" "one (Some x) = {#x#}"
  by (simp_all add: one_def)

lemma ret_items_append [simp]: "ret_items f (H @ K) = ret_items f H + ret_items f K"
  by (induction f H rule: ret_items.induct) (simp_all add: add.assoc)

lemma inv_items_append [simp]: "inv_items f (H @ K) = inv_items f H + inv_items f K"
  by (induction f H rule: inv_items.induct) (simp_all add: add.assoc)

text \<open>The same sum over the threads of a configuration, at one thread and at the others.\<close>

lemma sum_at:
  fixes g :: "'l \<Rightarrow> 'm::comm_monoid_add"
  assumes "finite T" "t \<in> T"
  shows "(\<Sum>u \<in> T. g (th u)) = g (th t) + (\<Sum>u \<in> T - {t}. g (th u))"
  using sum.remove [OF assms] .

lemma sum_upd:
  fixes g :: "'l \<Rightarrow> 'm::comm_monoid_add"
  assumes "finite T" "t \<in> T"
  shows "(\<Sum>u \<in> T. g ((th(t := l)) u)) = g l + (\<Sum>u \<in> T - {t}. g (th u))"
proof -
  have "(\<Sum>u \<in> T - {t}. g ((th(t := l)) u)) = (\<Sum>u \<in> T - {t}. g (th u))"
    by (rule sum.cong) auto
  then show ?thesis using sum_at [OF assms, of g "th(t := l)"] by simp
qed

section \<open>The interface\<close>

text \<open>
  items: what the structure holds; put: the item an operation brings; stored and got: the
  item that a result reports as stored and as handed out; inserted and taken: the item a
  running operation has inserted, or taken out, and has not reported yet; the steps of others
  do not change that.
\<close>

fun out_item :: "('p \<Rightarrow> 'a option) \<Rightarrow> ('r \<Rightarrow> 'a option) \<Rightarrow> ('p, 'r) outcome \<Rightarrow> 'a multiset" where
  "out_item f g (Next p) = one (f p)"
| "out_item f g (Return r) = one (g r)"
| "out_item f g (Fault e) = {#}"

locale item_pool = og_system P s0 ok sinv pinv used common base own seen rely idle
  for P :: "('s, 'op, 'r, 'p) prog" and s0 ok sinv pinv
    and used :: "'s \<Rightarrow> 'x set" and common base own seen rely idle +
  fixes items :: "'s \<Rightarrow> 'a multiset"
    and put :: "'op \<Rightarrow> 'a option"
    and stored :: "'op \<Rightarrow> 'r \<Rightarrow> 'a option"
    and got :: "'op \<Rightarrow> 'r \<Rightarrow> 'a option"
    and inserted :: "'s \<Rightarrow> 'op \<Rightarrow> 'p \<Rightarrow> 'a option"
    and taken :: "'s \<Rightarrow> 'op \<Rightarrow> 'p \<Rightarrow> 'a option"
  assumes items_init: "items s0 = {#}"
    and start_items: "inserted s op (start P op) = None \<and> taken s op (start P op) = None"
    and stored_put: "stored op r = Some x \<Longrightarrow> put op = Some x"
    and inserted_put: "sinv s \<Longrightarrow> pinv s t op p \<Longrightarrow> inserted s op p = Some x \<Longrightarrow> put op = Some x"
    and balance: "sinv s \<Longrightarrow> pinv s t op p \<Longrightarrow> own p \<inter> (common s \<union> seen p) = {} \<Longrightarrow>
      body P t n s p = (s', out) \<Longrightarrow>
      items s' + out_item (taken s' op) (got op) out + one (inserted s op p) =
      items s + one (taken s op p) + out_item (inserted s' op) (stored op) out"
    and items_stable: "sinv s \<Longrightarrow> sinv s' \<Longrightarrow> rely (base t \<union> own p) (seen p) s s' \<Longrightarrow> pinv s t op p \<Longrightarrow>
      inserted s' op p = inserted s op p \<and> taken s' op p = taken s op p"
begin

fun th_in :: "'s \<Rightarrow> ('op, 'r, 'p) tstate \<Rightarrow> 'a multiset" where
  "th_in s (Run op p) = one (inserted s op p)"
| "th_in s (Resp op r) = one (stored op r)"
| "th_in s l = {#}"

fun th_out :: "'s \<Rightarrow> ('op, 'r, 'p) tstate \<Rightarrow> 'a multiset" where
  "th_out s (Run op p) = one (taken s op p)"
| "th_out s (Resp op r) = one (got op r)"
| "th_out s l = {#}"

fun th_put :: "('op, 'r, 'p) tstate \<Rightarrow> 'a multiset" where
  "th_put (Run op p) = one (put op)"
| "th_put (Resp op r) = one (put op)"
| "th_put l = {#}"

lemma th_other:
  assumes "og_inv c" "threads c t = Run op p" "body P t n (shared c) p = (s', out)" "u \<noteq> t"
  shows "th_in s' (threads c u) = th_in (shared c) (threads c u)" "th_out s' (threads c u) = th_out (shared c) (threads c u)"
proof -
  note I = og_sinv [OF assms(1)] og_pinv [OF assms(1,2)] og_common [OF assms(1,2)]
  have s': "sinv s'" using body_sinv [OF I assms(3)] by simp
  have "inserted s' op' q = inserted (shared c) op' q \<and> taken s' op' q = taken (shared c) op' q"
    if "threads c u = Run op' q" for op' q
    using items_stable [OF I(1) s' og_other(1) [OF assms(1-3) that assms(4)] og_pinv [OF assms(1) that]] .
  then show "th_in s' (threads c u) = th_in (shared c) (threads c u)" "th_out s' (threads c u) = th_out (shared c) (threads c u)"
    by (cases "threads c u"; simp)+
qed

lemma balance_step:
  assumes "og_inv c" "fst e \<in> T" "finite T"
  shows "items (shared (step P e c)) + (\<Sum>u \<in> T. th_out (shared (step P e c)) (threads (step P e c) u)) +
      ret_items got (emitted (fst e) (snd e) (threads c (fst e))) + (\<Sum>u \<in> T. th_in (shared c) (threads c u)) =
    items (shared c) + (\<Sum>u \<in> T. th_out (shared c) (threads c u)) +
      ret_items stored (emitted (fst e) (snd e) (threads c (fst e))) + (\<Sum>u \<in> T. th_in (shared (step P e c)) (threads (step P e c) u))"
proof (cases rule: step_cases [of e c P])
  case (call t op)
  then have t: "t \<in> T" using assms(2) by simp
  note S = sum_upd [OF assms(3) t] sum_at [OF assms(3) t]
  show ?thesis
    using call start_items [of "shared c" op] S(1) [of "th_out (shared c)" "threads c" "Run op (start P op)"]
      S(2) [of "th_out (shared c)" "threads c"] S(1) [of "th_in (shared c)" "threads c" "Run op (start P op)"]
      S(2) [of "th_in (shared c)" "threads c"] by simp
next
  case (go t n op p s' out)
  then have t: "t \<in> T" using assms(2) by simp
  note I = og_sinv [OF assms(1)] og_pinv [OF assms(1) go(2)] og_common [OF assms(1) go(2)]
  note S = sum_upd [OF assms(3) t] sum_at [OF assms(3) t]
  have nf: "out \<noteq> Fault e" for e using body_safe [OF I] go(3) by auto
  have o: "th_out s' (resume op out) = out_item (taken s' op) (got op) out"
    "th_in s' (resume op out) = out_item (inserted s' op) (stored op) out"
    using nf by (cases out; simp)+
  have R: "(\<Sum>u \<in> T - {t}. th_out s' (threads c u)) = (\<Sum>u \<in> T - {t}. th_out (shared c) (threads c u))"
    "(\<Sum>u \<in> T - {t}. th_in s' (threads c u)) = (\<Sum>u \<in> T - {t}. th_in (shared c) (threads c u))"
    using th_other [OF assms(1) go(2,3)] by (auto intro: sum.cong)
  let ?R = "(\<Sum>u \<in> T - {t}. th_out (shared c) (threads c u)) + (\<Sum>u \<in> T - {t}. th_in (shared c) (threads c u))"
  have "items s' + out_item (taken s' op) (got op) out + one (inserted (shared c) op p) + ?R =
      items (shared c) + one (taken (shared c) op p) + out_item (inserted s' op) (stored op) out + ?R"
    using balance [OF I go(3)] by simp
  then show ?thesis
    using go S(1) [of "th_out s'" "threads c" "resume op out"] S(2) [of "th_out (shared c)" "threads c"]
      S(1) [of "th_in s'" "threads c" "resume op out"] S(2) [of "th_in (shared c)" "threads c"] o R
    by (simp add: ac_simps)
next
  case (leave t op r)
  then have t: "t \<in> T" using assms(2) by simp
  note S = sum_upd [OF assms(3) t] sum_at [OF assms(3) t]
  show ?thesis
    using leave S(1) [of "th_out (shared c)" "threads c" Idle] S(2) [of "th_out (shared c)" "threads c"]
      S(1) [of "th_in (shared c)" "threads c" Idle] S(2) [of "th_in (shared c)" "threads c"]
    by (simp add: one_def ac_simps)
next
  case (stutter t a)
  then show ?thesis by simp
qed

lemma balance_exec:
  assumes "og_inv c" "list_all (valid_call ok) es" "fst ` set es \<subseteq> T" "finite T"
  shows "items (shared (exec P es c)) + (\<Sum>u \<in> T. th_out (shared (exec P es c)) (threads (exec P es c) u)) +
      ret_items got (history P es c) + (\<Sum>u \<in> T. th_in (shared c) (threads c u)) =
    items (shared c) + (\<Sum>u \<in> T. th_out (shared c) (threads c u)) +
      ret_items stored (history P es c) + (\<Sum>u \<in> T. th_in (shared (exec P es c)) (threads (exec P es c) u))"
  using assms
proof (induction es arbitrary: c)
  case (Cons e es)
  let ?c = "step P e c"
  have "og_inv ?c" using og_step [OF Cons.prems(1)] Cons.prems(2) by simp
  with Cons.IH [of ?c] Cons.prems have i: "items (shared (exec P es ?c)) + (\<Sum>u \<in> T. th_out (shared (exec P es ?c)) (threads (exec P es ?c) u)) +
      ret_items got (history P es ?c) + (\<Sum>u \<in> T. th_in (shared ?c) (threads ?c u)) =
    items (shared ?c) + (\<Sum>u \<in> T. th_out (shared ?c) (threads ?c u)) +
      ret_items stored (history P es ?c) + (\<Sum>u \<in> T. th_in (shared (exec P es ?c)) (threads (exec P es ?c) u))" by simp
  have s: "items (shared ?c) + (\<Sum>u \<in> T. th_out (shared ?c) (threads ?c u)) +
      ret_items got (emitted (fst e) (snd e) (threads c (fst e))) + (\<Sum>u \<in> T. th_in (shared c) (threads c u)) =
    items (shared c) + (\<Sum>u \<in> T. th_out (shared c) (threads c u)) +
      ret_items stored (emitted (fst e) (snd e) (threads c (fst e))) + (\<Sum>u \<in> T. th_in (shared ?c) (threads ?c u))"
    by (rule balance_step) (use Cons.prems in auto)
  let ?x = "(\<Sum>u \<in> T. th_in (shared ?c) (threads ?c u)) + (items (shared ?c) + (\<Sum>u \<in> T. th_out (shared ?c) (threads ?c u)))"
  have "(items (shared (exec P es ?c)) + (\<Sum>u \<in> T. th_out (shared (exec P es ?c)) (threads (exec P es ?c) u)) +
      ret_items got (history P (e # es) c) + (\<Sum>u \<in> T. th_in (shared c) (threads c u))) + ?x =
    (items (shared c) + (\<Sum>u \<in> T. th_out (shared c) (threads c u)) +
      ret_items stored (history P (e # es) c) + (\<Sum>u \<in> T. th_in (shared (exec P es ?c)) (threads (exec P es ?c) u))) + ?x"
    using arg_cong2 [OF i s, of "(+)"] by (simp add: ac_simps)
  then show ?case by simp
qed simp

lemma put_step:
  assumes "fst e \<in> T" "finite T"
  shows "inv_items put (emitted (fst e) (snd e) (threads c (fst e))) + (\<Sum>u \<in> T. th_put (threads c u)) =
    ret_items (\<lambda>op r. put op) (emitted (fst e) (snd e) (threads c (fst e))) + (\<Sum>u \<in> T. th_put (threads (step P e c) u)) \<or>
    (\<exists>t op f. threads (step P e c) t = Dead op f)"
proof (cases rule: step_cases [of e c P])
  case (call t op)
  then have t: "t \<in> T" using assms(1) by simp
  show ?thesis
    using call sum_upd [OF assms(2) t, of th_put "threads c" "Run op (start P op)"] sum_at [OF assms(2) t, of th_put "threads c"]
    by (simp add: one_def)
next
  case (go t n op p s' out)
  then have t: "t \<in> T" using assms(1) by simp
  show ?thesis
  proof (cases out)
    case (Fault f)
    then show ?thesis using go(4) by (intro disjI2 exI [of _ t]) simp
  qed (use go sum_upd [OF assms(2) t, of th_put "threads c" "resume op out"] sum_at [OF assms(2) t, of th_put "threads c"]
    in simp_all)
next
  case (leave t op r)
  then have t: "t \<in> T" using assms(1) by simp
  show ?thesis
    using leave sum_upd [OF assms(2) t, of th_put "threads c" Idle] sum_at [OF assms(2) t, of th_put "threads c"]
    by (simp add: one_def)
next
  case (stutter t a)
  then show ?thesis by (cases a; cases "threads c t") auto
qed

lemma put_exec:
  assumes "og_inv c" "list_all (valid_call ok) es" "fst ` set es \<subseteq> T" "finite T"
  shows "inv_items put (history P es c) + (\<Sum>u \<in> T. th_put (threads c u)) =
    ret_items (\<lambda>op r. put op) (history P es c) + (\<Sum>u \<in> T. th_put (threads (exec P es c) u))"
  using assms
proof (induction es arbitrary: c)
  case (Cons e es)
  let ?c = "step P e c"
  have og: "og_inv ?c" using og_step [OF Cons.prems(1)] Cons.prems(2) by simp
  then have "\<not> (\<exists>t op f. threads ?c t = Dead op f)" using og_alive by blast
  then have "inv_items put (emitted (fst e) (snd e) (threads c (fst e))) + (\<Sum>u \<in> T. th_put (threads c u)) =
    ret_items (\<lambda>op r. put op) (emitted (fst e) (snd e) (threads c (fst e))) + (\<Sum>u \<in> T. th_put (threads ?c u))"
    using put_step [of e T c] Cons.prems(3,4) by auto
  note s = this
  have i: "inv_items put (history P es ?c) + (\<Sum>u \<in> T. th_put (threads ?c u)) =
    ret_items (\<lambda>op r. put op) (history P es ?c) + (\<Sum>u \<in> T. th_put (threads (exec P es ?c) u))"
    using Cons.IH [OF og] Cons.prems by simp
  let ?x = "\<Sum>u \<in> T. th_put (threads ?c u)"
  have "(inv_items put (history P (e # es) c) + (\<Sum>u \<in> T. th_put (threads c u))) + ?x =
    (ret_items (\<lambda>op r. put op) (history P (e # es) c) + (\<Sum>u \<in> T. th_put (threads (exec P es ?c) u))) + ?x"
    using arg_cong2 [OF s i, of "(+)"] by (simp add: ac_simps)
  then show ?case by simp
qed simp

lemma stored_sub: "ret_items stored H \<subseteq># ret_items (\<lambda>op r. put op) H"
proof (induction H)
  case (Cons e H)
  show ?case
  proof (cases e)
    case (Ret t op r)
    have "one (stored op r) \<subseteq># one (put op)"
      using stored_put [of op r] by (cases "stored op r") auto
    from subset_mset.add_mono [OF this Cons.IH] show ?thesis using Ret by (simp add: one_def)
  qed (use Cons.IH in simp_all)
qed simp

lemma th_in_sub:
  assumes "og_inv c"
  shows "th_in (shared c) (threads c u) \<subseteq># th_put (threads c u)"
proof (cases "threads c u")
  case (Run op p)
  have "one (inserted (shared c) op p) \<subseteq># one (put op)"
    using inserted_put [OF og_sinv [OF assms] og_pinv [OF assms Run]] by (cases "inserted (shared c) op p") auto
  then show ?thesis using Run by simp
next
  case (Resp op r)
  have "one (stored op r) \<subseteq># one (put op)"
    using stored_put [of op r] by (cases "stored op r") auto
  then show ?thesis using Resp by simp
qed simp_all

lemma sum_sub:
  fixes g h :: "tid \<Rightarrow> 'a multiset"
  assumes "finite T" "\<And>u. g u \<subseteq># h u"
  shows "(\<Sum>u \<in> T. g u) \<subseteq># (\<Sum>u \<in> T. h u)"
  using assms by (induction T rule: finite_induct) (auto intro: subset_mset.add_mono)

text \<open>
  When every thread is back from its operation, what was reported as stored is what was
  handed out and what is still there; at every moment nothing is there or was handed out
  that no operation brought, as often as it was brought.
\<close>

theorem pool_conserved:
  assumes "list_all (valid_call ok) es" "\<And>t. threads (exec P es (init s0)) t = Idle"
  shows "items (shared (exec P es (init s0))) + ret_items got (history P es (init s0)) =
    ret_items stored (history P es (init s0))"
  using balance_exec [OF og_init assms(1), of "fst ` set es"] assms(2) by (simp add: items_init)

theorem pool_no_invention:
  assumes "list_all (valid_call ok) es"
  shows "items (shared (exec P es (init s0))) + ret_items got (history P es (init s0)) \<subseteq>#
    inv_items put (history P es (init s0))"
proof -
  let ?c = "exec P es (init s0)" and ?H = "history P es (init s0)" and ?T = "fst ` set es"
  have I: "og_inv ?c" by (rule og_exec [OF og_init assms])
  have b: "items (shared ?c) + (\<Sum>u \<in> ?T. th_out (shared ?c) (threads ?c u)) + ret_items got ?H =
      ret_items stored ?H + (\<Sum>u \<in> ?T. th_in (shared ?c) (threads ?c u))"
    using balance_exec [OF og_init assms, of ?T] by (simp add: items_init)
  have "ret_items stored ?H + (\<Sum>u \<in> ?T. th_in (shared ?c) (threads ?c u)) \<subseteq>#
      ret_items (\<lambda>op r. put op) ?H + (\<Sum>u \<in> ?T. th_put (threads ?c u))"
    by (intro subset_mset.add_mono stored_sub sum_sub th_in_sub I) simp
  also have "\<dots> = inv_items put ?H"
    using put_exec [OF og_init assms, of ?T] by simp
  finally have s: "items (shared ?c) + (\<Sum>u \<in> ?T. th_out (shared ?c) (threads ?c u)) + ret_items got ?H \<subseteq># inv_items put ?H"
    using b by simp
  have "items (shared ?c) + ret_items got ?H \<subseteq># items (shared ?c) + (\<Sum>u \<in> ?T. th_out (shared ?c) (threads ?c u)) + ret_items got ?H"
    by (simp add: add.assoc)
  then show ?thesis using s by (rule subset_mset.order_trans)
qed

end

section \<open>Linearizable objects are pools\<close>

text \<open>
  An object that is linearizable to a specification whose operations only move items in and
  out of a bag conserves its items: an operation past its linearization point has inserted or
  taken what its fixed result says.
\<close>

fun fixed_item :: "('r \<Rightarrow> 'a option) \<Rightarrow> 'r mark \<Rightarrow> 'a option" where
  "fixed_item f (Fixed r) = f r"
| "fixed_item f m = None"

locale bag_object = lf_object P s0 ok sinv pinv used common base own seen rely idle absf spec mark
  for P :: "('s, 'op, 'r, 'p) prog" and s0 ok sinv pinv
    and used :: "'s \<Rightarrow> 'x set" and common base own seen rely idle
    and absf :: "'s \<Rightarrow> 'q" and spec mark +
  fixes bag :: "'q \<Rightarrow> 'a multiset"
    and put :: "'op \<Rightarrow> 'a option"
    and stored :: "'op \<Rightarrow> 'r \<Rightarrow> 'a option"
    and got :: "'op \<Rightarrow> 'r \<Rightarrow> 'a option"
  assumes bag_init: "bag (absf s0) = {#}"
    and bag_spec: "spec q op r q' \<Longrightarrow> bag q' + one (got op r) = bag q + one (stored op r)"
    and bag_put: "stored op r = Some x \<Longrightarrow> put op = Some x"
    and seen_none: "pinv s t op p \<Longrightarrow> mark s p = Seen r \<Longrightarrow> stored op r = None \<and> got op r = None"
begin

lemma out_fixed:
  "out \<noteq> Fault e \<Longrightarrow> out_item (\<lambda>p. fixed_item f (m p)) f out = one (fixed_item f (out_mark m out))"
  by (cases out) simp_all

lemma bag_balance:
  assumes "sinv s" "pinv s t op p" "own p \<inter> (common s \<union> seen p) = {}" "body P t n s p = (s', out)"
  shows "bag (absf s') + out_item (\<lambda>p. fixed_item (got op) (mark s' p)) (got op) out + one (fixed_item (stored op) (mark s p)) =
    bag (absf s) + one (fixed_item (got op) (mark s p)) + out_item (\<lambda>p. fixed_item (stored op) (mark s' p)) (stored op) out"
proof -
  have nf: "out \<noteq> Fault e" for e using body_safe [OF assms(1-3)] assms(4) by auto
  note o = out_fixed [OF nf, where m = "mark s'"]
  note sn = seen_none [OF assms(2)]
  from body_lin [OF assms] consider
      (silent) "absf s' = absf s" "evolves (mark s p) (out_mark (mark s') out)"
    | (point) r where "open_mark (mark s p)" "spec (absf s) op r (absf s')"
        "out_mark (mark s') out = Fixed r \<or> out_mark (mark s') out = Seen r \<and> absf s' = absf s"
    unfolding lin_own_def by blast
  then show ?thesis
  proof cases
    case silent
    then show ?thesis using sn by (cases "mark s p") (auto simp: o)
  next
    case (point r)
    have m: "fixed_item (got op) (mark s p) = None" "fixed_item (stored op) (mark s p) = None"
      using point(1) by (cases "mark s p"; simp)+
    show ?thesis using point(3) bag_spec [OF point(2)] by (auto simp: o m)
  qed
qed

end

sublocale bag_object \<subseteq> item_pool P s0 ok sinv pinv used common base own seen rely idle
  "\<lambda>s. bag (absf s)" put stored got "\<lambda>s op p. fixed_item (stored op) (mark s p)" "\<lambda>s op p. fixed_item (got op) (mark s p)"
proof (unfold_locales, goal_cases)
  case 1 show ?case by (rule bag_init)
next
  case 2 show ?case by (simp add: start_pend)
next
  case 3 then show ?case by (rule bag_put)
next
  case (4 s t op p x) then show ?case by (cases "mark s p") (auto intro: bag_put)
next
  case 5 then show ?case by (rule bag_balance)
next
  case 6 then show ?case using stable_mark by simp
qed

end
