(* ===== verification/Treiber_Stack.thy ===== *)
theory Treiber_Stack
  imports Item_Pool
begin

text \<open>
  The Treiber stack, src/src/datastructures/treiber_stack.h: nodes in a heap, a top
  pointer with an ABA counter, and the methods push, pop, get_return_empty_state and
  empty_state, one shared-memory access per step. A compare-and-swap of the source
  first compares the word and then runs the hardware instruction; both fail only when
  the word differs at that moment, so the model has one step for them.
\<close>

section \<open>State and methods\<close>

record 'a tnode =
  t_next :: "addr acell"
  t_data :: 'a

record 'a treiber =
  t_top :: "addr acell"
  t_heap :: "'a tnode heap"

definition treiber_init :: "'a treiber" where
  "treiber_init = \<lparr>t_top = cell NULL 0, t_heap = Map.empty\<rparr>"

datatype 'a stack_op = Push 'a | Pop | GetState | EmptyState

datatype 'a stack_res =
  Pushed bool | Popped "'a option" | Got "'a option" "addr acell" | State "addr acell"

datatype 'a treiber_pc =
    PushAlloc 'a
  | PushRead addr
  | PushLink addr "addr acell"
  | PushCas addr "addr acell"
  | PopRead
  | PopNext "addr acell"
  | PopCas "addr acell" addr
  | PopData "addr acell"
  | GetRead
  | GetNext "addr acell"
  | GetCas "addr acell" addr
  | GetData "addr acell"
  | EmptyRead

type_synonym 'a treiber_out = "'a treiber \<times> ('a treiber_pc, 'a stack_res) outcome"

fun push_body :: "nat \<Rightarrow> 'a treiber \<Rightarrow> 'a treiber_pc \<Rightarrow> 'a treiber_out" where
  "push_body n s (PushAlloc item) =
     (if is_fresh (t_heap s) n
      then (s\<lparr>t_heap := (t_heap s)(n \<mapsto> \<lparr>t_next = cell NULL 0, t_data = item\<rparr>)\<rparr>, Next (PushRead n))
      else (s, Next (PushAlloc item)))"
| "push_body c s (PushRead n) = (s, Next (PushLink n (t_top s)))"
| "push_body c s (PushLink n top_old) = (case t_heap s n of
     None \<Rightarrow> (s, Fault (fault_at n))
   | Some nd \<Rightarrow> (s\<lparr>t_heap := (t_heap s)(n \<mapsto> nd\<lparr>t_next := (t_next nd)\<lparr>val := val top_old\<rparr>\<rparr>)\<rparr>,
       Next (PushCas n top_old)))"
| "push_body c s (PushCas n top_old) =
     (let (top', b) = cas (t_top s) top_old (cell n (aba top_old + 1))
      in (s\<lparr>t_top := top'\<rparr>, if b then Return (Pushed True) else Next (PushRead n)))"
| "push_body c s p = (s, Fault (Undefined ''push''))"

fun pop_body :: "'a treiber \<Rightarrow> 'a treiber_pc \<Rightarrow> 'a treiber_out" where
  "pop_body s PopRead =
     (s, if val (t_top s) = NULL then Return (Popped None) else Next (PopNext (t_top s)))"
| "pop_body s (PopNext top_old) = (s, case t_heap s (val top_old) of
     None \<Rightarrow> Fault (fault_at (val top_old)) | Some nd \<Rightarrow> Next (PopCas top_old (val (t_next nd))))"
| "pop_body s (PopCas top_old nx) =
     (let (top', b) = cas (t_top s) top_old (cell nx (aba top_old + 1))
      in (s\<lparr>t_top := top'\<rparr>, if b then Next (PopData top_old) else Next PopRead))"
| "pop_body s (PopData top_old) = (s, case t_heap s (val top_old) of
     None \<Rightarrow> Fault (fault_at (val top_old)) | Some nd \<Rightarrow> Return (Popped (Some (t_data nd))))"
| "pop_body s p = (s, Fault (Undefined ''pop''))"

fun get_body :: "'a treiber \<Rightarrow> 'a treiber_pc \<Rightarrow> 'a treiber_out" where
  "get_body s GetRead =
     (s, if val (t_top s) = NULL then Return (Got None (t_top s)) else Next (GetNext (t_top s)))"
| "get_body s (GetNext top_old) = (s, case t_heap s (val top_old) of
     None \<Rightarrow> Fault (fault_at (val top_old)) | Some nd \<Rightarrow> Next (GetCas top_old (val (t_next nd))))"
| "get_body s (GetCas top_old nx) =
     (let (top', b) = cas (t_top s) top_old (cell nx (aba top_old + 1))
      in (s\<lparr>t_top := top'\<rparr>, if b then Next (GetData top_old) else Next GetRead))"
| "get_body s (GetData top_old) = (s, case t_heap s (val top_old) of
     None \<Rightarrow> Fault (fault_at (val top_old)) | Some nd \<Rightarrow> Return (Got (Some (t_data nd)) top_old))"
| "get_body s p = (s, Fault (Undefined ''get_return_empty_state''))"

definition empty_state_body :: "'a treiber \<Rightarrow> 'a treiber_out" where
  "empty_state_body s = (s, Return (State (t_top s)))"

fun treiber_start :: "'a stack_op \<Rightarrow> 'a treiber_pc" where
  "treiber_start (Push x) = PushAlloc x"
| "treiber_start Pop = PopRead"
| "treiber_start GetState = GetRead"
| "treiber_start EmptyState = EmptyRead"

fun treiber_body :: "tid \<Rightarrow> nat \<Rightarrow> 'a treiber \<Rightarrow> 'a treiber_pc \<Rightarrow> 'a treiber_out" where
  "treiber_body t n s (PushAlloc x) = push_body n s (PushAlloc x)"
| "treiber_body t n s (PushRead m) = push_body n s (PushRead m)"
| "treiber_body t n s (PushLink m c) = push_body n s (PushLink m c)"
| "treiber_body t n s (PushCas m c) = push_body n s (PushCas m c)"
| "treiber_body t n s PopRead = pop_body s PopRead"
| "treiber_body t n s (PopNext c) = pop_body s (PopNext c)"
| "treiber_body t n s (PopCas c a) = pop_body s (PopCas c a)"
| "treiber_body t n s (PopData c) = pop_body s (PopData c)"
| "treiber_body t n s GetRead = get_body s GetRead"
| "treiber_body t n s (GetNext c) = get_body s (GetNext c)"
| "treiber_body t n s (GetCas c a) = get_body s (GetCas c a)"
| "treiber_body t n s (GetData c) = get_body s (GetData c)"
| "treiber_body t n s EmptyRead = empty_state_body s"

definition treiber_prog :: "('a treiber, 'a stack_op, 'a stack_res, 'a treiber_pc) prog" where
  "treiber_prog = \<lparr>start = treiber_start, body = treiber_body\<rparr>"

lemma treiber_prog_simps [simp]:
  "start treiber_prog = treiber_start" "body treiber_prog = treiber_body"
  by (simp_all add: treiber_prog_def)

section \<open>The sequential stack and the abstraction\<close>

text \<open>
  The abstract state is the list of items, the newest first, and the word of the top
  pointer that empty_state hands out; every change of the stack counts it up by one.
\<close>

fun stack_spec :: "'a list \<times> addr acell \<Rightarrow> 'a stack_op \<Rightarrow> 'a stack_res \<Rightarrow> 'a list \<times> addr acell \<Rightarrow> bool" where
  "stack_spec (xs, w) (Push x) r q' \<longleftrightarrow>
     r = Pushed True \<and> fst q' = x # xs \<and> val (snd q') \<noteq> NULL \<and> aba (snd q') = aba w + 1"
| "stack_spec (xs, w) Pop r q' \<longleftrightarrow> (case xs of
     [] \<Rightarrow> r = Popped None \<and> q' = (xs, w)
   | x # ys \<Rightarrow> r = Popped (Some x) \<and> fst q' = ys \<and> aba (snd q') = aba w + 1)"
| "stack_spec (xs, w) GetState r q' \<longleftrightarrow> (case xs of
     [] \<Rightarrow> r = Got None w \<and> q' = (xs, w)
   | x # ys \<Rightarrow> r = Got (Some x) w \<and> fst q' = ys \<and> aba (snd q') = aba w + 1)"
| "stack_spec (xs, w) EmptyState r q' \<longleftrightarrow> r = State w \<and> q' = (xs, w)"

definition t_nx :: "'a tnode \<Rightarrow> addr" where
  "t_nx nd = val (t_next nd)"

definition t_addrs :: "'a treiber \<Rightarrow> addr list" where
  "t_addrs s = the (chain t_nx (t_heap s) (val (t_top s)))"

definition t_item :: "'a tnode heap \<Rightarrow> addr \<Rightarrow> 'a" where
  "t_item h a = t_data (the (h a))"

definition treiber_abs :: "'a treiber \<Rightarrow> 'a list \<times> addr acell" where
  "treiber_abs s = (map (t_item (t_heap s)) (t_addrs s), t_top s)"

section \<open>Invariant and assertions\<close>

definition treiber_inv :: "'a treiber \<Rightarrow> bool" where
  "treiber_inv s \<longleftrightarrow> t_heap s NULL = None \<and> finite (dom (t_heap s)) \<and>
     (\<exists>as. path t_nx (t_heap s) (val (t_top s)) as NULL)"

lemma t_addrs_eq: "path t_nx (t_heap s) (val (t_top s)) as NULL \<Longrightarrow> t_heap s NULL = None \<Longrightarrow> t_addrs s = as"
  by (simp add: t_addrs_def path_chain)

lemma treiber_invD:
  assumes "treiber_inv s"
  shows "t_heap s NULL = None" "finite (dom (t_heap s))"
    "path t_nx (t_heap s) (val (t_top s)) (t_addrs s) NULL"
  using assms by (auto simp: treiber_inv_def t_addrs_eq)

lemma treiber_invI:
  "t_heap s NULL = None \<Longrightarrow> finite (dom (t_heap s)) \<Longrightarrow>
   path t_nx (t_heap s) (val (t_top s)) as NULL \<Longrightarrow> treiber_inv s \<and> t_addrs s = as"
  by (auto simp: treiber_inv_def t_addrs_eq)

fun treiber_pinv :: "'a treiber \<Rightarrow> tid \<Rightarrow> 'a stack_op \<Rightarrow> 'a treiber_pc \<Rightarrow> bool" where
  "treiber_pinv s t op (PushAlloc x) \<longleftrightarrow> op = Push x"
| "treiber_pinv s t op (PushRead n) \<longleftrightarrow> (\<exists>nd. t_heap s n = Some nd \<and> op = Push (t_data nd))"
| "treiber_pinv s t op (PushLink n c) \<longleftrightarrow> (\<exists>nd. t_heap s n = Some nd \<and> op = Push (t_data nd))"
| "treiber_pinv s t op (PushCas n c) \<longleftrightarrow>
     (\<exists>nd. t_heap s n = Some nd \<and> op = Push (t_data nd) \<and> t_nx nd = val c)"
| "treiber_pinv s t op PopRead \<longleftrightarrow> op = Pop"
| "treiber_pinv s t op (PopNext c) \<longleftrightarrow> op = Pop \<and> val c \<in> dom (t_heap s)"
| "treiber_pinv s t op (PopCas c a) \<longleftrightarrow> op = Pop \<and> (\<exists>nd. t_heap s (val c) = Some nd \<and> t_nx nd = a)"
| "treiber_pinv s t op (PopData c) \<longleftrightarrow> op = Pop \<and> val c \<in> dom (t_heap s)"
| "treiber_pinv s t op GetRead \<longleftrightarrow> op = GetState"
| "treiber_pinv s t op (GetNext c) \<longleftrightarrow> op = GetState \<and> val c \<in> dom (t_heap s)"
| "treiber_pinv s t op (GetCas c a) \<longleftrightarrow> op = GetState \<and> (\<exists>nd. t_heap s (val c) = Some nd \<and> t_nx nd = a)"
| "treiber_pinv s t op (GetData c) \<longleftrightarrow> op = GetState \<and> val c \<in> dom (t_heap s)"
| "treiber_pinv s t op EmptyRead \<longleftrightarrow> op = EmptyState"

fun treiber_own :: "'a treiber_pc \<Rightarrow> addr set" where
  "treiber_own (PushRead n) = {n}"
| "treiber_own (PushLink n c) = {n}"
| "treiber_own (PushCas n c) = {n}"
| "treiber_own p = {}"

fun treiber_seen :: "'a treiber_pc \<Rightarrow> addr set" where
  "treiber_seen (PopNext c) = {val c}"
| "treiber_seen (PopCas c a) = {val c}"
| "treiber_seen (PopData c) = {val c}"
| "treiber_seen (GetNext c) = {val c}"
| "treiber_seen (GetCas c a) = {val c}"
| "treiber_seen (GetData c) = {val c}"
| "treiber_seen p = {}"

fun treiber_mark :: "'a treiber \<Rightarrow> 'a treiber_pc \<Rightarrow> 'a stack_res mark" where
  "treiber_mark s (PopData c) = Fixed (Popped (Some (t_item (t_heap s) (val c))))"
| "treiber_mark s (GetData c) = Fixed (Got (Some (t_item (t_heap s) (val c))) c)"
| "treiber_mark s p = Pend"

definition treiber_rely :: "addr set \<Rightarrow> addr set \<Rightarrow> 'a treiber \<Rightarrow> 'a treiber \<Rightarrow> bool" where
  "treiber_rely A B s s' \<longleftrightarrow> (\<forall>a \<in> A \<union> B. t_heap s' a = t_heap s a)"

section \<open>How a step changes the list\<close>

lemma upd_private:
  assumes "treiber_inv s" "n \<noteq> NULL" "n \<notin> set (t_addrs s)"
  shows "treiber_inv (s\<lparr>t_heap := (t_heap s)(n \<mapsto> nd)\<rparr>)"
    and "t_addrs (s\<lparr>t_heap := (t_heap s)(n \<mapsto> nd)\<rparr>) = t_addrs s"
    and "treiber_abs (s\<lparr>t_heap := (t_heap s)(n \<mapsto> nd)\<rparr>) = treiber_abs s"
proof -
  let ?s = "s\<lparr>t_heap := (t_heap s)(n \<mapsto> nd)\<rparr>"
  note D = treiber_invD [OF assms(1)]
  have "treiber_inv ?s \<and> t_addrs ?s = t_addrs s"
    using D assms(2,3) by (intro treiber_invI) (simp_all add: heap_simps)
  then show "treiber_inv ?s" and a: "t_addrs ?s = t_addrs s" by simp_all
  show "treiber_abs ?s = treiber_abs s"
    using assms(3) by (auto simp: treiber_abs_def a t_item_def)
qed

lemma upd_push:
  assumes "treiber_inv s" "t_heap s n = Some nd" "t_nx nd = val (t_top s)"
  shows "treiber_inv (s\<lparr>t_top := cell n a\<rparr>)" and "t_addrs (s\<lparr>t_top := cell n a\<rparr>) = n # t_addrs s"
    and "treiber_abs (s\<lparr>t_top := cell n a\<rparr>) = (t_data nd # fst (treiber_abs s), cell n a)"
proof -
  note D = treiber_invD [OF assms(1)]
  have "treiber_inv (s\<lparr>t_top := cell n a\<rparr>) \<and> t_addrs (s\<lparr>t_top := cell n a\<rparr>) = n # t_addrs s"
    using D assms(2,3) by (intro treiber_invI) simp_all
  then show "treiber_inv (s\<lparr>t_top := cell n a\<rparr>)"
    and a: "t_addrs (s\<lparr>t_top := cell n a\<rparr>) = n # t_addrs s" by simp_all
  show "treiber_abs (s\<lparr>t_top := cell n a\<rparr>) = (t_data nd # fst (treiber_abs s), cell n a)"
    using assms(2) by (simp add: treiber_abs_def a t_item_def)
qed

lemma upd_pop:
  assumes "treiber_inv s" "t_heap s (val (t_top s)) = Some nd"
  shows "treiber_inv (s\<lparr>t_top := cell (t_nx nd) a\<rparr>)"
    and "t_addrs s = val (t_top s) # t_addrs (s\<lparr>t_top := cell (t_nx nd) a\<rparr>)"
    and "treiber_abs s = (t_data nd # fst (treiber_abs (s\<lparr>t_top := cell (t_nx nd) a\<rparr>)), t_top s)"
proof -
  let ?s = "s\<lparr>t_top := cell (t_nx nd) a\<rparr>"
  note D = treiber_invD [OF assms(1)]
  obtain x xs where as: "t_addrs s = x # xs"
    using D(1,3) assms(2) by (cases "t_addrs s") auto
  have "treiber_inv ?s \<and> t_addrs ?s = xs"
    using D assms(2) as by (intro treiber_invI) (auto split: option.splits)
  then show "treiber_inv ?s" and a: "t_addrs s = val (t_top s) # t_addrs ?s"
    using as D(3) by auto
  show "treiber_abs s = (t_data nd # fst (treiber_abs ?s), t_top s)"
    unfolding treiber_abs_def a using assms(2) by (simp add: t_item_def)
qed

lemma top_null_iff:
  assumes "treiber_inv s"
  shows "val (t_top s) = NULL \<longleftrightarrow> t_addrs s = []"
proof -
  note D = treiber_invD [OF assms]
  show ?thesis
    using D(1,3) by (cases "val (t_top s) = NULL"; cases "t_addrs s") (auto split: option.splits)
qed

lemma top_common:
  "treiber_inv s \<Longrightarrow> val (t_top s) \<noteq> NULL \<Longrightarrow> val (t_top s) \<in> set (t_addrs s) \<and> val (t_top s) \<in> dom (t_heap s)"
  using treiber_invD [of s] top_null_iff [of s]
  by (cases "t_addrs s") (auto split: option.splits)

lemma addrs_dom: "treiber_inv s \<Longrightarrow> set (t_addrs s) \<subseteq> dom (t_heap s)"
  using treiber_invD(3) [of s] path_dom by blast

lemma fresh_private: "treiber_inv s \<Longrightarrow> is_fresh (t_heap s) n \<Longrightarrow> n \<noteq> NULL \<and> n \<notin> set (t_addrs s)"
  using addrs_dom [of s] by (auto simp: is_fresh_def)

lemma node_not_NULL: "treiber_inv s \<Longrightarrow> t_heap s n = Some nd \<Longrightarrow> n \<noteq> NULL"
  using treiber_invD(1) [of s] by (cases "n = NULL") auto

lemmas treiber_upd = upd_private upd_push upd_pop

section \<open>The obligations of the interface\<close>

text \<open>One case analysis of a step, shared by all obligations.\<close>

lemma treiber_body_cases [consumes 4, case_names same alloc link push pop]:
  assumes "treiber_inv s" "treiber_pinv s t op p"
    and "treiber_own p \<inter> (set (t_addrs s) \<union> treiber_seen p) = {}"
    and "treiber_body t n s p = (s', out)"
  obtains
    (same) "s' = s" "out \<noteq> Return (Pushed True)" "\<And>c. out \<noteq> Next (PopData c)" "\<And>c. out \<noteq> Next (GetData c)"
      "\<And>x. p = PushAlloc x \<Longrightarrow> out = Next p" "\<And>m c. p \<noteq> PushLink m c"
  | (alloc) m x where "p = PushAlloc x" "out = Next (PushRead m)" "is_fresh (t_heap s) m"
      "s' = s\<lparr>t_heap := (t_heap s)(m \<mapsto> \<lparr>t_next = cell NULL 0, t_data = x\<rparr>)\<rparr>"
  | (link) m c nd where "p = PushLink m c" "out = Next (PushCas m c)" "t_heap s m = Some nd"
      "s' = s\<lparr>t_heap := (t_heap s)(m \<mapsto> nd\<lparr>t_next := (t_next nd)\<lparr>val := val c\<rparr>\<rparr>)\<rparr>"
      "m \<notin> set (t_addrs s)"
  | (push) m nd where "p = PushCas m (t_top s)" "out = Return (Pushed True)" "t_heap s m = Some nd"
      "t_nx nd = val (t_top s)" "op = Push (t_data nd)" "s' = s\<lparr>t_top := cell m (aba (t_top s) + 1)\<rparr>"
  | (pop) nd where "p = PopCas (t_top s) (t_nx nd) \<and> op = Pop \<and> out = Next (PopData (t_top s)) \<or>
        p = GetCas (t_top s) (t_nx nd) \<and> op = GetState \<and> out = Next (GetData (t_top s))"
      "t_heap s (val (t_top s)) = Some nd" "s' = s\<lparr>t_top := cell (t_nx nd) (aba (t_top s) + 1)\<rparr>"
proof -
  note b = assms(4)
  show thesis
  proof (cases p)
    case (PushAlloc x)
    show thesis
    proof (cases "is_fresh (t_heap s) n")
      case True
      show thesis by (rule alloc) (use b PushAlloc True in auto)
    next
      case False
      show thesis by (rule same) (use b PushAlloc False in auto)
    qed
  next
    case (PushLink m c)
    then obtain nd where nd: "t_heap s m = Some nd" using assms(2) by auto
    show thesis by (rule link [of m c nd]) (use b PushLink nd assms(3) in auto)
  next
    case (PushCas m c)
    then obtain nd where nd: "t_heap s m = Some nd" "op = Push (t_data nd)" "t_nx nd = val c"
      using assms(2) by auto
    show thesis
    proof (cases "t_top s = c")
      case True
      show thesis by (rule push [of m nd]) (use b PushCas nd True in \<open>auto simp: cas_simps\<close>)
    next
      case False
      show thesis by (rule same) (use b PushCas False in \<open>auto simp: cas_simps\<close>)
    qed
  next
    case (PopCas c a)
    then obtain nd where nd: "t_heap s (val c) = Some nd" "t_nx nd = a" "op = Pop"
      using assms(2) by auto
    show thesis
    proof (cases "t_top s = c")
      case True
      show thesis by (rule pop [of nd]) (use b PopCas nd True in \<open>auto simp: cas_simps\<close>)
    next
      case False
      show thesis by (rule same) (use b PopCas False in \<open>auto simp: cas_simps\<close>)
    qed
  next
    case (GetCas c a)
    then obtain nd where nd: "t_heap s (val c) = Some nd" "t_nx nd = a" "op = GetState"
      using assms(2) by auto
    show thesis
    proof (cases "t_top s = c")
      case True
      show thesis by (rule pop [of nd]) (use b GetCas nd True in \<open>auto simp: cas_simps\<close>)
    next
      case False
      show thesis by (rule same) (use b GetCas False in \<open>auto simp: cas_simps\<close>)
    qed
  next
    case PopRead
    show thesis by (rule same) (use b PopRead in \<open>auto split: if_splits\<close>)
  next
    case GetRead
    show thesis by (rule same) (use b GetRead in \<open>auto split: if_splits\<close>)
  next
    case (PopNext c)
    show thesis by (rule same) (use b PopNext in \<open>auto split: option.splits\<close>)
  next
    case (PopData c)
    show thesis by (rule same) (use b PopData in \<open>auto split: option.splits\<close>)
  next
    case (GetNext c)
    show thesis by (rule same) (use b GetNext in \<open>auto split: option.splits\<close>)
  next
    case (GetData c)
    show thesis by (rule same) (use b GetData in \<open>auto split: option.splits\<close>)
  next
    case (PushRead m)
    show thesis by (rule same) (use b PushRead in auto)
  next
    case EmptyRead
    show thesis by (rule same) (use b EmptyRead in \<open>auto simp: empty_state_body_def\<close>)
  qed
qed

lemma treiber_sinv:
  assumes "treiber_inv s" "treiber_pinv s t op p"
    and "treiber_own p \<inter> (set (t_addrs s) \<union> treiber_seen p) = {}"
    and "treiber_body t n s p = (s', out)"
  shows "treiber_inv s' \<and> set (t_addrs s') \<subseteq> set (t_addrs s) \<union> treiber_own p \<union> treiber_seen p \<union> - dom (t_heap s)"
  using assms
proof (cases rule: treiber_body_cases)
  case alloc
  then show ?thesis using fresh_private [OF assms(1)] upd_private [OF assms(1)] by auto
next
  case link
  then show ?thesis using node_not_NULL [OF assms(1)] upd_private [OF assms(1)] by auto
next
  case push
  then show ?thesis using upd_push [OF assms(1)] by auto
next
  case (pop nd)
  then have "t_addrs s = val (t_top s) # t_addrs s'" using upd_pop(2) [OF assms(1) pop(2)] by simp
  then show ?thesis using upd_pop(1) [OF assms(1) pop(2)] pop(3) by auto
qed (use assms(1) in auto)

lemma treiber_next:
  assumes "treiber_inv s" "treiber_pinv s t op p"
    and "treiber_own p \<inter> (set (t_addrs s) \<union> treiber_seen p) = {}"
    and "treiber_body t n s p = (s', Next p')"
  shows "treiber_pinv s' t op p' \<and> treiber_own p' \<subseteq> treiber_own p \<union> - dom (t_heap s) \<and>
    treiber_seen p' \<subseteq> treiber_seen p \<union> set (t_addrs s) \<union> set (t_addrs s') \<and>
    treiber_own p' \<inter> (set (t_addrs s') \<union> treiber_seen p') = {}"
  using assms
proof (cases rule: treiber_body_cases)
  case same
  show ?thesis
    using assms(2-4) same(2-6) top_common [OF assms(1)] unfolding same(1)
    by (cases p) (auto simp: t_nx_def empty_state_body_def cas_def Let_def split: if_splits option.splits)
next
  case (alloc m x)
  then show ?thesis using assms(2) fresh_private [OF assms(1), of m] upd_private [OF assms(1), of m]
    by (auto simp: is_fresh_def)
next
  case (link m c nd)
  then show ?thesis
    using assms(2) node_not_NULL [OF assms(1), of m] upd_private [OF assms(1), of m]
    by (auto simp: t_nx_def)
next
  case (pop nd)
  then have "t_addrs s = val (t_top s) # t_addrs s'" using upd_pop(2) [OF assms(1) pop(2)] by simp
  then show ?thesis using assms(2) pop by auto
qed auto

lemma treiber_safe:
  assumes "treiber_inv s" "treiber_pinv s t op p"
  shows "treiber_body t n s p \<noteq> (s', Fault e)"
  using assms by (cases p) (auto simp: cas_def empty_state_body_def split: if_splits option.splits)

lemma treiber_guarantee:
  assumes "treiber_inv s" "treiber_pinv s t op p"
    and "treiber_own p \<inter> (set (t_addrs s) \<union> treiber_seen p) = {}"
    and "treiber_body t n s p = (s', out)" "a \<in> dom (t_heap s) - treiber_own p"
  shows "t_heap s' a = t_heap s a"
  using assms(1-4)
  by (cases rule: treiber_body_cases) (use assms(5) in \<open>auto simp: is_fresh_def\<close>)

lemma treiber_stable:
  assumes "treiber_rely (treiber_own p) (treiber_seen p) s s'" "treiber_pinv s t op p"
  shows "treiber_pinv s' t op p \<and> treiber_mark s' p = treiber_mark s p"
  using assms by (cases p) (auto simp: treiber_rely_def t_item_def)

lemma treiber_lin:
  assumes "treiber_inv s" "treiber_pinv s t op p"
    and "treiber_own p \<inter> (set (t_addrs s) \<union> treiber_seen p) = {}"
    and "treiber_body t n s p = (s', out)"
  shows "lin_own stack_spec op (treiber_abs s) (treiber_mark s p) (treiber_abs s') (out_mark (treiber_mark s') out)"
  using assms
proof (cases rule: treiber_body_cases)
  case same
  have empty: "val (t_top s) = NULL \<Longrightarrow> treiber_abs s = ([], t_top s)"
    using top_null_iff [OF assms(1)] by (simp add: treiber_abs_def)
  have top: "snd (treiber_abs s) = t_top s" by (simp add: treiber_abs_def)
  show ?thesis
    using assms(2,4) same(2-4) empty top unfolding same(1)
    by (cases p; cases "treiber_abs s")
      (auto simp: lin_own_def cas_def empty_state_body_def Let_def t_item_def split: if_splits option.splits)
next
  case (alloc m x)
  then show ?thesis using fresh_private [OF assms(1), of m] upd_private [OF assms(1), of m] by auto
next
  case (link m c nd)
  then show ?thesis using node_not_NULL [OF assms(1)] upd_private [OF assms(1), of m] by auto
next
  case (push m nd)
  have "treiber_abs s' = (t_data nd # fst (treiber_abs s), cell m (aba (t_top s) + 1))"
    using upd_push(3) [OF assms(1) push(3,4)] push(6) by simp
  then show ?thesis
    using push node_not_NULL [OF assms(1) push(3)]
    by (cases "treiber_abs s") (auto intro!: lin_own_point simp: treiber_abs_def)
next
  case (pop nd)
  have "treiber_abs s = (t_data nd # fst (treiber_abs s'), t_top s)"
    using upd_pop(3) [OF assms(1) pop(2)] pop(3) by simp
  moreover have "t_item (t_heap s') (val (t_top s)) = t_data nd" "aba (snd (treiber_abs s')) = aba (t_top s) + 1"
    using pop(2,3) by (simp_all add: t_item_def treiber_abs_def)
  ultimately show ?thesis using pop(1)
    by (auto intro!: lin_own_point)
qed

interpretation treiber: lf_object treiber_prog treiber_init "\<lambda>_ _. True" treiber_inv treiber_pinv
    "\<lambda>s. dom (t_heap s)" "\<lambda>s. set (t_addrs s)" "\<lambda>_. {}" treiber_own treiber_seen treiber_rely "\<lambda>_ _. True"
    treiber_abs stack_spec treiber_mark
proof (unfold_locales, goal_cases)
  case 1 show ?case by (auto simp: treiber_inv_def treiber_init_def intro: exI [of _ "[]"])
next
  case (2 s t op) then show ?case by (cases op) simp_all
next
  case (3 op) then show ?case by (cases op) simp_all
next
  case (6 s t op p) then show ?case by (cases p) auto
next
  case (7 s) then show ?case by (rule addrs_dom)
next
  case (8 s t op p n s' out) then show ?case using treiber_sinv by simp
next
  case (9 s t op p n s' p') then show ?case using treiber_next by simp
next
  case (10 s t op p n s' e) then show ?case using treiber_safe by simp
next
  case (11 s t op p n s' out A u B)
  then have "\<forall>a \<in> A \<union> B. a \<in> dom (t_heap s) - treiber_own p" by blast
  then show ?case using treiber_guarantee [OF 11(1-3)] 11(4) by (simp add: treiber_rely_def)
next
  case 12 then show ?case using treiber_stable by (metis sup_bot_left)
next
  case (16 s op) then show ?case by (cases op) simp_all
next
  case (17 s t op p n s' out) then show ?case using treiber_lin by simp
next
  case 18 then show ?case using treiber_stable by (metis sup_bot_left)
qed simp_all

section \<open>The items\<close>

fun stack_put :: "'a stack_op \<Rightarrow> 'a option" where
  "stack_put (Push x) = Some x"
| "stack_put op = None"

fun stack_stored :: "'a stack_op \<Rightarrow> 'a stack_res \<Rightarrow> 'a option" where
  "stack_stored op (Pushed b) = (if b then stack_put op else None)"
| "stack_stored op r = None"

fun stack_got :: "'a stack_op \<Rightarrow> 'a stack_res \<Rightarrow> 'a option" where
  "stack_got Pop (Popped x) = x"
| "stack_got GetState (Got x w) = x"
| "stack_got op r = None"

lemma stack_bag_spec:
  assumes "stack_spec q op r q'"
  shows "mset (fst q') + one (stack_got op r) = mset (fst q) + one (stack_stored op r)"
  using assms by (cases q; cases op) (auto split: list.splits)

interpretation treiber_bag: bag_object treiber_prog "treiber_init :: 'a treiber" "\<lambda>_ _. True" treiber_inv treiber_pinv
    "\<lambda>s. dom (t_heap s)" "\<lambda>s. set (t_addrs s)" "\<lambda>_. {}" treiber_own treiber_seen treiber_rely "\<lambda>_ _. True"
    treiber_abs stack_spec treiber_mark "\<lambda>q. mset (fst q)" stack_put stack_stored stack_got
proof (unfold_locales, goal_cases)
  case 1 show ?case by (simp add: treiber_abs_def treiber_init_def t_addrs_def)
next
  case 2 then show ?case by (rule stack_bag_spec)
next
  case (3 op r x) then show ?case by (cases r) (auto split: if_splits)
next
  case (4 s t op p r) then show ?case by (cases p) auto
qed

section \<open>Progress\<close>

text \<open>
  The number of steps a thread needs when it runs alone: an operation that holds an
  outdated top word first fails its compare-and-swap and then starts over.
\<close>

fun treiber_rank :: "'a treiber \<Rightarrow> 'a treiber_pc \<Rightarrow> nat" where
  "treiber_rank s (PushAlloc x) = 4"
| "treiber_rank s (PushRead n) = 3"
| "treiber_rank s (PushLink n c) = (if c = t_top s then 2 else 5)"
| "treiber_rank s (PushCas n c) = (if c = t_top s then 1 else 4)"
| "treiber_rank s PopRead = 4"
| "treiber_rank s (PopNext c) = (if c = t_top s then 3 else 6)"
| "treiber_rank s (PopCas c a) = (if c = t_top s then 2 else 5)"
| "treiber_rank s (PopData c) = 1"
| "treiber_rank s GetRead = 4"
| "treiber_rank s (GetNext c) = (if c = t_top s then 3 else 6)"
| "treiber_rank s (GetCas c a) = (if c = t_top s then 2 else 5)"
| "treiber_rank s (GetData c) = 1"
| "treiber_rank s EmptyRead = 1"

lemma treiber_rank_bound: "treiber_rank s p \<le> 6"
  by (cases p) auto

lemma treiber_rank_dec:
  assumes "treiber_inv s" "treiber_pinv s t op p"
  shows "\<exists>n s' out. treiber_body t n s p = (s', out) \<and>
    (case out of Next p' \<Rightarrow> treiber_rank s' p' < treiber_rank s p | Return r \<Rightarrow> True | Fault e \<Rightarrow> False)"
proof (cases p)
  case (PushAlloc x)
  obtain n where "is_fresh (t_heap s) n" using fresh_exists treiber_invD(2) [OF assms(1)] by blast
  then show ?thesis using PushAlloc by (intro exI [of _ n]) auto
qed (use assms in \<open>auto simp: cas_def empty_state_body_def split: option.splits\<close>)

interpretation treiber_solo: solo_progress treiber_prog treiber_init "\<lambda>_ _. True" treiber_inv treiber_pinv
    "\<lambda>s. dom (t_heap s)" "\<lambda>s. set (t_addrs s)" "\<lambda>_. {}" treiber_own treiber_seen treiber_rely "\<lambda>_ _. True"
    treiber_rank
  by unfold_locales (simp only: treiber_prog_simps treiber_rank_dec)

section \<open>Properties\<close>

abbreviation treiber_run :: "'a stack_op sched \<Rightarrow> ('a treiber, 'a stack_op, 'a stack_res, 'a treiber_pc) config" where
  "treiber_run es \<equiv> exec treiber_prog es (init treiber_init)"

lemma treiber_init_abs [simp]: "treiber_abs treiber_init = ([], cell NULL 0)"
  using t_addrs_eq [of treiber_init "[]"] by (simp add: treiber_abs_def treiber_init_def)

text \<open>
  C2: every history of concurrent calls of push, pop, get_return_empty_state and
  empty_state of the Treiber stack is linearizable with respect to a sequential stack
  (pop takes the item pushed last, the word returned by the state methods is the top
  word, which every change counts up), and the linearization ends in the list of items
  that the heap holds.
\<close>

theorem treiber_linearizable:
  "linearizable_to stack_spec ([], cell NULL 0) (history treiber_prog es (init treiber_init))
     (treiber_abs (shared (treiber_run es)))"
  using treiber.linearizable_exec [of es] by simp

text \<open>
  C4: no thread of the Treiber stack ever follows NULL or an address that holds no
  node, whatever the schedule, the calls and the addresses the allocator returns.
\<close>

theorem treiber_memory_safe: "threads (treiber_run es) t \<noteq> Dead op e"
  by (rule treiber.og_no_fault) simp

text \<open>
  C6: obstruction freedom of the Treiber stack: a thread inside any of its methods
  returns within seven steps of its own when the other threads pause, wherever they
  were stopped.
\<close>

theorem treiber_obstruction_free:
  assumes "threads (treiber_run es) t = Run op p"
  shows "\<exists>ns r. length ns \<le> 7 \<and> threads (treiber_run (es @ alone t ns)) t = Resp op r"
proof -
  obtain ns r where "length ns \<le> Suc (treiber_rank (shared (treiber_run es)) p)"
    "threads (treiber_run (es @ alone t ns)) t = Resp op r"
    using treiber_solo.solo_returns [OF all_valid assms] by blast
  then show ?thesis using treiber_rank_bound [of "shared (treiber_run es)" p]
    by (intro exI [of _ ns] exI [of _ r]) simp
qed

definition treiber_stopped :: "nat stack_op sched" where
  "treiber_stopped = [(0, Call (Push 7)), (0, Go 1), (0, Go 0), (1, Call Pop)]"

lemma treiber_obstruction_free_witness:
  "\<exists>ns r. length ns \<le> 7 \<and> threads (treiber_run (treiber_stopped @ alone 0 ns)) 0 = Resp (Push 7) r"
  by (rule treiber_obstruction_free [of treiber_stopped 0 "Push 7" "PushLink 1 (cell NULL 0)"])
    (simp add: treiber_stopped_def step_def init_def is_fresh_def treiber_init_def)

end
