(* ===== verification/MS_Queue.thy ===== *)
theory MS_Queue
  imports Item_Pool
begin

text \<open>
  The queue of Michael and Scott, src/src/datastructures/ms_queue.h: a list of nodes with
  a dummy, a head and a tail word, and the methods enqueue, dequeue, dequeue_return_tail,
  try_enqueue, try_dequeue, approx_size and empty_state, one access to shared memory per
  step. The first node is the one the constructor allocates; the address the allocator
  gives it is 1.
\<close>

section \<open>State and methods\<close>

record 'a mnode =
  m_next :: "addr acell"
  m_value :: 'a

record 'a msq =
  m_head :: "addr acell"
  m_tail :: "addr acell"
  m_heap :: "'a mnode heap"

abbreviation FIRST :: addr where
  "FIRST \<equiv> 1"

definition node_new :: "'a \<Rightarrow> 'a mnode" where
  "node_new item = \<lparr>m_next = cell NULL 0, m_value = item\<rparr>"

definition ms_init :: "'a::zero msq" where
  "ms_init = \<lparr>m_head = cell FIRST 0, m_tail = cell FIRST 0, m_heap = [FIRST \<mapsto> node_new 0]\<rparr>"

text \<open>
  \<open>Deq\<close>, \<open>DeqTail\<close> and \<open>TryDeq\<close> share their code up to what they return, so a
  program counter of a dequeue carries the method it belongs to. try_enqueue and
  try_dequeue take a word their caller read with get_tail or get_head; that read is
  their first step here.
\<close>

datatype deq_kind = Plain | WithTail | Try

datatype 'a ms_op = Enq 'a | TryEnq 'a | Deq deq_kind | EmptyState | ApproxSize

datatype 'a ms_res =
    Enqueued bool
  | Dequeued "'a option"
  | DequeuedTail "'a option" "addr acell"
  | Tried nat "'a option" "u64 option"
  | TailState "addr acell"
  | Size u64

datatype 'a ms_pc =
    EnqAlloc 'a
  | EnqTail addr
  | EnqNext addr "addr acell"
  | EnqCheck addr "addr acell" "addr acell"
  | EnqLink addr "addr acell" "addr acell"
  | EnqHelp addr "addr acell" "addr acell"
  | EnqSwing addr "addr acell"
  | TryTail 'a
  | TryNext 'a "addr acell"
  | TryCheck 'a "addr acell" "addr acell"
  | TryAlloc 'a "addr acell" "addr acell"
  | TryLink addr "addr acell" "addr acell"
  | TryHelp "addr acell" "addr acell"
  | TrySwing addr "addr acell"
  | DeqHead deq_kind
  | DeqTail deq_kind "addr acell"
  | DeqNext deq_kind "addr acell" "addr acell"
  | DeqCheck deq_kind "addr acell" "addr acell" "addr acell"
  | DeqHelp deq_kind "addr acell" "addr acell"
  | DeqValue deq_kind "addr acell" "addr acell" "addr acell"
  | DeqCas deq_kind "addr acell" "addr acell" "addr acell" 'a
  | EmptyTail
  | SizeTail
  | SizeHead "addr acell"

type_synonym 'a ms_out = "'a msq \<times> ('a ms_pc, 'a ms_res) outcome"

definition next_of :: "'a msq \<Rightarrow> addr \<Rightarrow> (addr acell \<Rightarrow> ('a ms_pc, 'a ms_res) outcome) \<Rightarrow> 'a ms_out" where
  "next_of s a k = (s, case m_heap s a of None \<Rightarrow> Fault (fault_at a) | Some nd \<Rightarrow> k (m_next nd))"

definition tail_cas :: "'a msq \<Rightarrow> addr acell \<Rightarrow> addr \<Rightarrow> 'a msq" where
  "tail_cas s tail_old n = s\<lparr>m_tail := fst (cas (m_tail s) tail_old (cell n (aba tail_old + 1)))\<rparr>"

text \<open>The link step of both enqueues: the compare-and-swap on the next pointer of the old tail.\<close>

definition link_cas :: "'a msq \<Rightarrow> addr \<Rightarrow> addr acell \<Rightarrow> addr acell
    \<Rightarrow> ('a ms_pc, 'a ms_res) outcome \<Rightarrow> ('a ms_pc, 'a ms_res) outcome \<Rightarrow> 'a ms_out" where
  "link_cas s n tail_old nx linked failed = (case m_heap s (val tail_old) of
     None \<Rightarrow> (s, Fault (fault_at (val tail_old)))
   | Some nd \<Rightarrow> (let (nx', b) = cas (m_next nd) nx (cell n (aba nx + 1))
       in (s\<lparr>m_heap := (m_heap s)(val tail_old \<mapsto> nd\<lparr>m_next := nx'\<rparr>)\<rparr>, if b then linked else failed)))"

fun enqueue_body :: "nat \<Rightarrow> 'a msq \<Rightarrow> 'a ms_pc \<Rightarrow> 'a ms_out" where
  "enqueue_body a s (EnqAlloc item) =
     (if is_fresh (m_heap s) a
      then (s\<lparr>m_heap := (m_heap s)(a \<mapsto> node_new item)\<rparr>, Next (EnqTail a))
      else (s, Next (EnqAlloc item)))"
| "enqueue_body a s (EnqTail n) = (s, Next (EnqNext n (m_tail s)))"
| "enqueue_body a s (EnqNext n tail_old) = next_of s (val tail_old) (\<lambda>nx. Next (EnqCheck n tail_old nx))"
| "enqueue_body a s (EnqCheck n tail_old nx) =
     (s, Next (if tail_old = m_tail s
       then (if val nx = NULL then EnqLink n tail_old nx else EnqHelp n tail_old nx)
       else EnqTail n))"
| "enqueue_body a s (EnqLink n tail_old nx) =
     link_cas s n tail_old nx (Next (EnqSwing n tail_old)) (Next (EnqTail n))"
| "enqueue_body a s (EnqHelp n tail_old nx) = (tail_cas s tail_old (val nx), Next (EnqTail n))"
| "enqueue_body a s (EnqSwing n tail_old) = (tail_cas s tail_old n, Return (Enqueued True))"
| "enqueue_body a s p = (s, Fault (Undefined ''enqueue''))"

fun try_enqueue_body :: "nat \<Rightarrow> 'a msq \<Rightarrow> 'a ms_pc \<Rightarrow> 'a ms_out" where
  "try_enqueue_body a s (TryTail item) = (s, Next (TryNext item (m_tail s)))"
| "try_enqueue_body a s (TryNext item tail_old) =
     next_of s (val tail_old) (\<lambda>nx. Next (TryCheck item tail_old nx))"
| "try_enqueue_body a s (TryCheck item tail_old nx) =
     (s, if m_tail s = tail_old
       then Next (if val nx = NULL then TryAlloc item tail_old nx else TryHelp tail_old nx)
       else Return (Enqueued False))"
| "try_enqueue_body a s (TryAlloc item tail_old nx) =
     (if is_fresh (m_heap s) a
      then (s\<lparr>m_heap := (m_heap s)(a \<mapsto> node_new item)\<rparr>, Next (TryLink a tail_old nx))
      else (s, Next (TryAlloc item tail_old nx)))"
| "try_enqueue_body a s (TryLink n tail_old nx) =
     link_cas s n tail_old nx (Next (TrySwing n tail_old)) (Return (Enqueued False))"
| "try_enqueue_body a s (TryHelp tail_old nx) = (tail_cas s tail_old (val nx), Return (Enqueued False))"
| "try_enqueue_body a s (TrySwing n tail_old) = (tail_cas s tail_old n, Return (Enqueued True))"
| "try_enqueue_body a s p = (s, Fault (Undefined ''try_enqueue''))"

text \<open>What the three dequeues return: found empty, took an item, or lost a race.\<close>

fun deq_empty :: "deq_kind \<Rightarrow> addr acell \<Rightarrow> 'a ms_res" where
  "deq_empty Plain tail_old = Dequeued None"
| "deq_empty WithTail tail_old = DequeuedTail None tail_old"
| "deq_empty Try tail_old = Tried 1 None (Some (aba tail_old))"

fun deq_ok :: "deq_kind \<Rightarrow> addr acell \<Rightarrow> 'a \<Rightarrow> 'a ms_res" where
  "deq_ok Plain tail_old x = Dequeued (Some x)"
| "deq_ok WithTail tail_old x = DequeuedTail (Some x) tail_old"
| "deq_ok Try tail_old x = Tried 0 (Some x) (Some (aba tail_old))"

fun deq_again :: "deq_kind \<Rightarrow> 'a option \<Rightarrow> u64 option \<Rightarrow> ('a ms_pc, 'a ms_res) outcome" where
  "deq_again Try x w = Return (Tried 2 x w)"
| "deq_again k x w = Next (DeqHead k)"

fun dequeue_body :: "deq_kind \<Rightarrow> 'a msq \<Rightarrow> 'a ms_pc \<Rightarrow> 'a ms_out" where
  "dequeue_body k s (DeqHead _) = (s, Next (DeqTail k (m_head s)))"
| "dequeue_body k s (DeqTail _ head_old) = (s, Next (DeqNext k head_old (m_tail s)))"
| "dequeue_body k s (DeqNext _ head_old tail_old) =
     next_of s (val head_old) (\<lambda>nx. Next (DeqCheck k head_old tail_old nx))"
| "dequeue_body k s (DeqCheck _ head_old tail_old nx) =
     (s, if m_head s = head_old
       then (if val head_old = val tail_old
             then (if val nx = NULL then Return (deq_empty k tail_old) else Next (DeqHelp k tail_old nx))
             else Next (DeqValue k head_old tail_old nx))
       else deq_again k None None)"
| "dequeue_body k s (DeqHelp _ tail_old nx) =
     (tail_cas s tail_old (val nx), deq_again k None (Some (aba tail_old + 1)))"
| "dequeue_body k s (DeqValue _ head_old tail_old nx) = (s, case m_heap s (val nx) of
     None \<Rightarrow> Fault (fault_at (val nx))
   | Some nd \<Rightarrow> Next (DeqCas k head_old tail_old nx (m_value nd)))"
| "dequeue_body k s (DeqCas _ head_old tail_old nx x) =
     (let (head', b) = cas (m_head s) head_old (cell (val nx) (aba head_old + 1))
      in (s\<lparr>m_head := head'\<rparr>,
          if b then Return (deq_ok k tail_old x) else deq_again k (Some x) (Some (aba tail_old))))"
| "dequeue_body k s p = (s, Fault (Undefined ''dequeue''))"

definition dequeue_return_tail_body :: "'a msq \<Rightarrow> 'a ms_pc \<Rightarrow> 'a ms_out" where
  "dequeue_return_tail_body = dequeue_body WithTail"

definition try_dequeue_body :: "'a msq \<Rightarrow> 'a ms_pc \<Rightarrow> 'a ms_out" where
  "try_dequeue_body = dequeue_body Try"

fun deq_body :: "deq_kind \<Rightarrow> 'a msq \<Rightarrow> 'a ms_pc \<Rightarrow> 'a ms_out" where
  "deq_body Plain s p = dequeue_body Plain s p"
| "deq_body WithTail s p = dequeue_return_tail_body s p"
| "deq_body Try s p = try_dequeue_body s p"

definition tail_state_body :: "'a msq \<Rightarrow> 'a ms_out" where
  "tail_state_body s = (s, Return (TailState (m_tail s)))"

fun approx_size_body :: "'a msq \<Rightarrow> 'a ms_pc \<Rightarrow> 'a ms_out" where
  "approx_size_body s SizeTail = (s, Next (SizeHead (m_tail s)))"
| "approx_size_body s (SizeHead tail_old) = (s, Return (Size (aba tail_old - aba (m_head s))))"
| "approx_size_body s p = (s, Fault (Undefined ''approx_size''))"

fun ms_start :: "'a ms_op \<Rightarrow> 'a ms_pc" where
  "ms_start (Enq x) = EnqAlloc x"
| "ms_start (TryEnq x) = TryTail x"
| "ms_start (Deq k) = DeqHead k"
| "ms_start EmptyState = EmptyTail"
| "ms_start ApproxSize = SizeTail"

fun ms_body :: "tid \<Rightarrow> nat \<Rightarrow> 'a msq \<Rightarrow> 'a ms_pc \<Rightarrow> 'a ms_out" where
  "ms_body t a s (TryTail x) = try_enqueue_body a s (TryTail x)"
| "ms_body t a s (TryNext x to) = try_enqueue_body a s (TryNext x to)"
| "ms_body t a s (TryCheck x to nx) = try_enqueue_body a s (TryCheck x to nx)"
| "ms_body t a s (TryAlloc x to nx) = try_enqueue_body a s (TryAlloc x to nx)"
| "ms_body t a s (TryLink n to nx) = try_enqueue_body a s (TryLink n to nx)"
| "ms_body t a s (TryHelp to nx) = try_enqueue_body a s (TryHelp to nx)"
| "ms_body t a s (TrySwing n to) = try_enqueue_body a s (TrySwing n to)"
| "ms_body t a s (DeqHead k) = deq_body k s (DeqHead k)"
| "ms_body t a s (DeqTail k ho) = deq_body k s (DeqTail k ho)"
| "ms_body t a s (DeqNext k ho to) = deq_body k s (DeqNext k ho to)"
| "ms_body t a s (DeqCheck k ho to nx) = deq_body k s (DeqCheck k ho to nx)"
| "ms_body t a s (DeqHelp k to nx) = deq_body k s (DeqHelp k to nx)"
| "ms_body t a s (DeqValue k ho to nx) = deq_body k s (DeqValue k ho to nx)"
| "ms_body t a s (DeqCas k ho to nx x) = deq_body k s (DeqCas k ho to nx x)"
| "ms_body t a s EmptyTail = tail_state_body s"
| "ms_body t a s SizeTail = approx_size_body s SizeTail"
| "ms_body t a s (SizeHead to) = approx_size_body s (SizeHead to)"
| "ms_body t a s p = enqueue_body a s p"

definition ms_prog :: "('a msq, 'a ms_op, 'a ms_res, 'a ms_pc) prog" where
  "ms_prog = \<lparr>start = ms_start, body = ms_body\<rparr>"

lemma ms_prog_simps [simp]: "start ms_prog = ms_start" "body ms_prog = ms_body"
  by (simp_all add: ms_prog_def)

lemma deq_body_simp [simp]: "deq_body k = dequeue_body k"
  by (cases k) (simp_all add: dequeue_return_tail_body_def try_dequeue_body_def fun_eq_iff)

section \<open>The sequential queue\<close>

text \<open>
  The abstract state is the list of items, the oldest first, and the number of enqueues
  so far; the counter of the tail word is that number or one less (an item was linked
  and the tail has not moved yet), and it is exact when a dequeue finds the queue empty.
\<close>

definition took :: "'a list \<Rightarrow> nat \<Rightarrow> 'a \<Rightarrow> 'a list \<times> nat \<Rightarrow> bool" where
  "took xs e x q' \<longleftrightarrow> xs = x # fst q' \<and> snd q' = e"

definition found_empty :: "'a list \<Rightarrow> nat \<Rightarrow> u64 \<Rightarrow> 'a list \<times> nat \<Rightarrow> bool" where
  "found_empty xs e w q' \<longleftrightarrow> xs = [] \<and> q' = (xs, e) \<and> w = of_nat e"

fun queue_spec :: "'a list \<times> nat \<Rightarrow> 'a ms_op \<Rightarrow> 'a ms_res \<Rightarrow> 'a list \<times> nat \<Rightarrow> bool" where
  "queue_spec (xs, e) (Enq x) r q' \<longleftrightarrow> r = Enqueued True \<and> q' = (xs @ [x], Suc e)"
| "queue_spec (xs, e) (TryEnq x) r q' \<longleftrightarrow>
     r = Enqueued True \<and> q' = (xs @ [x], Suc e) \<or> r = Enqueued False \<and> q' = (xs, e)"
| "queue_spec (xs, e) (Deq Plain) r q' \<longleftrightarrow>
     r = Dequeued None \<and> found_empty xs e (of_nat e) q' \<or> (\<exists>x. r = Dequeued (Some x) \<and> took xs e x q')"
| "queue_spec (xs, e) (Deq WithTail) r q' \<longleftrightarrow>
     (\<exists>w. r = DequeuedTail None w \<and> found_empty xs e (aba w) q') \<or>
     (\<exists>x w. r = DequeuedTail (Some x) w \<and> took xs e x q')"
| "queue_spec (xs, e) (Deq Try) r q' \<longleftrightarrow>
     (\<exists>w. r = Tried 1 None (Some w) \<and> found_empty xs e w q') \<or>
     (\<exists>x w. r = Tried 0 (Some x) w \<and> took xs e x q') \<or>
     (\<exists>x w. r = Tried 2 x w \<and> q' = (xs, e))"
| "queue_spec (xs, e) EmptyState r q' \<longleftrightarrow> q' = (xs, e) \<and>
     (\<exists>w n. r = TailState w \<and> aba w = of_nat n \<and> n \<le> e \<and> e \<le> Suc n)"
| "queue_spec (xs, e) ApproxSize r q' \<longleftrightarrow> q' = (xs, e) \<and> (\<exists>n. r = Size n)"

section \<open>The layout of the heap\<close>

text \<open>
  No node is ever freed, so the nodes enqueued so far form one list from the first
  dummy on; head and tail are positions in it, and their words are determined by the
  positions.
\<close>

definition m_nx :: "'a mnode \<Rightarrow> addr" where
  "m_nx nd = val (m_next nd)"

definition nodes :: "'a msq \<Rightarrow> addr list" where
  "nodes s = the (chain m_nx (m_heap s) FIRST)"

definition hpos :: "'a msq \<Rightarrow> nat" where
  "hpos s = pos (nodes s) (val (m_head s))"

definition tpos :: "'a msq \<Rightarrow> nat" where
  "tpos s = pos (nodes s) (val (m_tail s))"

definition m_item :: "'a msq \<Rightarrow> addr \<Rightarrow> 'a" where
  "m_item s a = m_value (the (m_heap s a))"

definition ms_abs :: "'a msq \<Rightarrow> 'a list \<times> nat" where
  "ms_abs s = (map (m_item s) (drop (Suc (hpos s)) (nodes s)), length (nodes s) - 1)"

definition mword :: "addr list \<Rightarrow> nat \<Rightarrow> addr acell" where
  "mword ns i = cell (ns ! i) (of_nat i)"

definition next_ok :: "'a mnode \<Rightarrow> bool" where
  "next_ok nd \<longleftrightarrow> m_next nd = cell (m_nx nd) (if m_nx nd = NULL then 0 else 1)"

definition layout :: "'a msq \<Rightarrow> addr list \<Rightarrow> nat \<Rightarrow> nat \<Rightarrow> bool" where
  "layout s ns h t \<longleftrightarrow> m_heap s NULL = None \<and> finite (dom (m_heap s)) \<and>
     path m_nx (m_heap s) FIRST ns NULL \<and> h \<le> t \<and> t < length ns \<and> length ns \<le> t + 2 \<and>
     m_head s = mword ns h \<and> m_tail s = mword ns t \<and> (\<forall>a \<in> set ns. next_ok (the (m_heap s a)))"

definition ms_inv :: "'a msq \<Rightarrow> bool" where
  "ms_inv s \<longleftrightarrow> (\<exists>ns h t. layout s ns h t)"

lemma layoutD:
  assumes "layout s ns h t"
  shows "m_heap s NULL = None" "finite (dom (m_heap s))" "path m_nx (m_heap s) FIRST ns NULL"
    "h \<le> t" "t < length ns" "length ns \<le> t + 2" "m_head s = mword ns h" "m_tail s = mword ns t"
    "distinct ns" "nodes s = ns" "hpos s = h" "tpos s = t" "NULL \<notin> set ns"
proof -
  show *: "m_heap s NULL = None" "finite (dom (m_heap s))" "path m_nx (m_heap s) FIRST ns NULL"
    "h \<le> t" "t < length ns" "length ns \<le> t + 2" "m_head s = mword ns h" "m_tail s = mword ns t"
    using assms by (simp_all add: layout_def)
  show d: "distinct ns" using path_distinct [OF *(3,1)] .
  show n: "nodes s = ns" using path_chain [OF *(3,1)] by (simp add: nodes_def)
  show "hpos s = h" "tpos s = t" using * d n by (simp_all add: hpos_def tpos_def mword_def)
  show "NULL \<notin> set ns" using path_dom [OF *(3)] *(1) by auto
qed

lemma ms_invD: "ms_inv s \<Longrightarrow> layout s (nodes s) (hpos s) (tpos s)"
  unfolding ms_inv_def using layoutD(10-12) by metis

lemma layout_inv: "layout s ns h t \<Longrightarrow> ms_inv s"
  by (auto simp: ms_inv_def)

lemma layout_node:
  assumes "layout s ns h t" "i < length ns"
  obtains nd where "m_heap s (ns ! i) = Some nd"
    "m_next nd = (if Suc i < length ns then cell (ns ! Suc i) 1 else cell NULL 0)"
proof -
  note D = layoutD [OF assms(1)]
  obtain nd where nd: "m_heap s (ns ! i) = Some nd" "m_nx nd = (if Suc i < length ns then ns ! Suc i else NULL)"
    using path_nth [OF D(3) assms(2)] by blast
  have "next_ok (the (m_heap s (ns ! i)))" using assms by (simp add: layout_def)
  then have "next_ok nd" using nd(1) by simp
  moreover have "Suc i < length ns \<Longrightarrow> ns ! Suc i \<noteq> NULL" using D(13) nth_mem by metis
  ultimately show thesis using that [OF nd(1)] nd(2) by (auto simp: next_ok_def)
qed

lemma layout_dom: "layout s ns h t \<Longrightarrow> set ns \<subseteq> dom (m_heap s)"
  using path_dom layoutD(3) by metis

lemma mword_eq: "distinct ns \<Longrightarrow> i < length ns \<Longrightarrow> j < length ns \<Longrightarrow> mword ns i = mword ns j \<longleftrightarrow> i = j"
  by (auto simp: mword_def nth_eq_iff_index_eq)

section \<open>The changes of the state\<close>

lemma layout_private:
  assumes "layout s ns h t" "n \<notin> set ns" "n \<noteq> NULL"
  shows "layout (s\<lparr>m_heap := (m_heap s)(n \<mapsto> nd)\<rparr>) ns h t"
proof -
  have "the (((m_heap s)(n \<mapsto> nd)) a) = the (m_heap s a)" if "a \<in> set ns" for a
    using assms(2) that by auto
  then show ?thesis
    using assms layoutD [OF assms(1)] unfolding layout_def
    by (auto simp: path_upd)
qed

lemma layout_link:
  assumes "layout s ns h t" "m_heap s n = Some (node_new x)" "n \<notin> set ns" "Suc t = length ns"
    and "m_heap s (ns ! t) = Some nd"
  shows "layout (s\<lparr>m_heap := (m_heap s)(ns ! t \<mapsto> nd\<lparr>m_next := cell n 1\<rparr>)\<rparr>) (ns @ [n]) h t"
proof -
  note D = layoutD [OF assms(1)]
  let ?h = "(m_heap s)(ns ! t \<mapsto> nd\<lparr>m_next := cell n 1\<rparr>)"
  obtain ms where ns: "ns = ms @ [ns ! t]" using assms(4)
    by (metis D(5) append_butlast_last_id diff_Suc_1 last_conv_nth length_greater_0_conv less_nat_zero_code list.size(3))
  have n0: "n \<noteq> NULL" using assms(2) D(1) by (cases "n = NULL") auto
  have ne: "n \<noteq> ns ! t" using assms(3) D(5) by auto
  have nt: "ns ! t \<notin> set ms" using D(9) ns by (metis distinct_append disjoint_iff list.set_intros(1))
  have "path m_nx (m_heap s) FIRST (ms @ [ns ! t]) NULL" using D(3) ns by simp
  then have p: "path m_nx (m_heap s) FIRST ms (ns ! t)" by (auto simp: path_append split: option.splits)
  have "path m_nx ?h FIRST ms (ns ! t)" using p nt by (simp add: path_upd)
  then have "path m_nx ?h FIRST (ms @ [ns ! t]) n" using nt by (intro path_snoc) (auto simp: m_nx_def)
  then have "path m_nx ?h FIRST (ns @ [n]) NULL"
    using assms(2,3) ns ne by (intro path_snoc) (auto simp: node_new_def m_nx_def)
  moreover have "next_ok (the (?h a))" if "a \<in> set (ns @ [n])" for a
    using that assms(1,2) n0 unfolding layout_def by (auto simp: next_ok_def m_nx_def node_new_def)
  moreover have "ns ! t \<noteq> NULL" using D(13) D(5) by (metis nth_mem)
  ultimately show ?thesis
    using D assms(1,4) by (auto simp: layout_def mword_def nth_append)
qed

lemma layout_tail:
  "layout s ns h t \<Longrightarrow> Suc t < length ns \<Longrightarrow> layout (s\<lparr>m_tail := mword ns (Suc t)\<rparr>) ns h (Suc t)"
  by (auto simp: layout_def)

lemma layout_head:
  "layout s ns h t \<Longrightarrow> h < t \<Longrightarrow> layout (s\<lparr>m_head := mword ns (Suc h)\<rparr>) ns (Suc h) t"
  by (auto simp: layout_def)

section \<open>Assertions\<close>

definition was_tail :: "'a msq \<Rightarrow> addr acell \<Rightarrow> nat \<Rightarrow> bool" where
  "was_tail s w j \<longleftrightarrow> j \<le> tpos s \<and> w = mword (nodes s) j"

definition was_head :: "'a msq \<Rightarrow> addr acell \<Rightarrow> nat \<Rightarrow> bool" where
  "was_head s w i \<longleftrightarrow> i \<le> hpos s \<and> w = mword (nodes s) i"

definition linked :: "'a msq \<Rightarrow> nat \<Rightarrow> addr acell \<Rightarrow> bool" where
  "linked s j nx \<longleftrightarrow> Suc j < length (nodes s) \<and> nx = cell (nodes s ! Suc j) 1"

definition unlinked :: "'a msq \<Rightarrow> addr \<Rightarrow> 'a \<Rightarrow> bool" where
  "unlinked s n x \<longleftrightarrow> m_heap s n = Some (node_new x)"

fun ms_pinv :: "'a msq \<Rightarrow> tid \<Rightarrow> 'a ms_op \<Rightarrow> 'a ms_pc \<Rightarrow> bool" where
  "ms_pinv s t op (EnqAlloc x) \<longleftrightarrow> op = Enq x"
| "ms_pinv s t op (EnqTail n) \<longleftrightarrow> (\<exists>x. op = Enq x \<and> unlinked s n x)"
| "ms_pinv s t op (EnqNext n to) \<longleftrightarrow> (\<exists>x. op = Enq x \<and> unlinked s n x) \<and> (\<exists>j. was_tail s to j)"
| "ms_pinv s t op (EnqCheck n to nx) \<longleftrightarrow> (\<exists>x. op = Enq x \<and> unlinked s n x) \<and>
     (\<exists>j. was_tail s to j \<and> (nx = cell NULL 0 \<or> linked s j nx))"
| "ms_pinv s t op (EnqLink n to nx) \<longleftrightarrow> (\<exists>x. op = Enq x \<and> unlinked s n x) \<and>
     (\<exists>j. was_tail s to j) \<and> nx = cell NULL 0"
| "ms_pinv s t op (EnqHelp n to nx) \<longleftrightarrow> (\<exists>x. op = Enq x \<and> unlinked s n x) \<and>
     (\<exists>j. was_tail s to j \<and> linked s j nx)"
| "ms_pinv s t op (EnqSwing n to) \<longleftrightarrow> (\<exists>x. op = Enq x) \<and> (\<exists>j. was_tail s to j \<and> linked s j (cell n 1))"
| "ms_pinv s t op (TryTail x) \<longleftrightarrow> op = TryEnq x"
| "ms_pinv s t op (TryNext x to) \<longleftrightarrow> op = TryEnq x \<and> (\<exists>j. was_tail s to j)"
| "ms_pinv s t op (TryCheck x to nx) \<longleftrightarrow> op = TryEnq x \<and>
     (\<exists>j. was_tail s to j \<and> (nx = cell NULL 0 \<or> linked s j nx))"
| "ms_pinv s t op (TryAlloc x to nx) \<longleftrightarrow> op = TryEnq x \<and> (\<exists>j. was_tail s to j) \<and> nx = cell NULL 0"
| "ms_pinv s t op (TryLink n to nx) \<longleftrightarrow> (\<exists>x. op = TryEnq x \<and> unlinked s n x) \<and>
     (\<exists>j. was_tail s to j) \<and> nx = cell NULL 0"
| "ms_pinv s t op (TryHelp to nx) \<longleftrightarrow> (\<exists>x. op = TryEnq x) \<and> (\<exists>j. was_tail s to j \<and> linked s j nx)"
| "ms_pinv s t op (TrySwing n to) \<longleftrightarrow> (\<exists>x. op = TryEnq x) \<and> (\<exists>j. was_tail s to j \<and> linked s j (cell n 1))"
| "ms_pinv s t op (DeqHead k) \<longleftrightarrow> op = Deq k"
| "ms_pinv s t op (DeqTail k ho) \<longleftrightarrow> op = Deq k \<and> (\<exists>i. was_head s ho i)"
| "ms_pinv s t op (DeqNext k ho to) \<longleftrightarrow> op = Deq k \<and> (\<exists>i j. was_head s ho i \<and> was_tail s to j \<and> i \<le> j)"
| "ms_pinv s t op (DeqCheck k ho to nx) \<longleftrightarrow> op = Deq k \<and>
     (\<exists>i j. was_head s ho i \<and> was_tail s to j \<and> i \<le> j \<and> (nx = cell NULL 0 \<and> i = j \<or> linked s i nx))"
| "ms_pinv s t op (DeqHelp k to nx) \<longleftrightarrow> op = Deq k \<and> (\<exists>j. was_tail s to j \<and> linked s j nx)"
| "ms_pinv s t op (DeqValue k ho to nx) \<longleftrightarrow> op = Deq k \<and>
     (\<exists>i j. was_head s ho i \<and> was_tail s to j \<and> i < j \<and> linked s i nx)"
| "ms_pinv s t op (DeqCas k ho to nx x) \<longleftrightarrow> op = Deq k \<and> x = m_item s (val nx) \<and>
     (\<exists>i j. was_head s ho i \<and> was_tail s to j \<and> i < j \<and> linked s i nx)"
| "ms_pinv s t op EmptyTail \<longleftrightarrow> op = EmptyState"
| "ms_pinv s t op SizeTail \<longleftrightarrow> op = ApproxSize"
| "ms_pinv s t op (SizeHead to) \<longleftrightarrow> op = ApproxSize"

fun ms_own :: "'a ms_pc \<Rightarrow> addr set" where
  "ms_own (EnqTail n) = {n}"
| "ms_own (EnqNext n to) = {n}"
| "ms_own (EnqCheck n to nx) = {n}"
| "ms_own (EnqLink n to nx) = {n}"
| "ms_own (EnqHelp n to nx) = {n}"
| "ms_own (TryLink n to nx) = {n}"
| "ms_own p = {}"

text \<open>A dequeue that read NULL behind the node that is both head and tail has seen the queue empty.\<close>

fun ms_mark :: "'a ms_pc \<Rightarrow> 'a ms_res mark" where
  "ms_mark (EnqSwing n to) = Fixed (Enqueued True)"
| "ms_mark (TrySwing n to) = Fixed (Enqueued True)"
| "ms_mark (DeqCheck k ho to nx) =
     (if val ho = val to \<and> nx = cell NULL 0 then Seen (deq_empty k to) else Pend)"
| "ms_mark p = Pend"

definition ms_rely :: "addr set \<Rightarrow> addr set \<Rightarrow> 'a msq \<Rightarrow> 'a msq \<Rightarrow> bool" where
  "ms_rely A B s s' \<longleftrightarrow> (\<forall>a \<in> A. m_heap s' a = m_heap s a) \<and> (\<exists>ys. nodes s' = nodes s @ ys) \<and>
     hpos s \<le> hpos s' \<and> tpos s \<le> tpos s' \<and> (\<forall>a \<in> set (nodes s). m_item s' a = m_item s a)"

lemma tail_was [simp]: "ms_inv s \<Longrightarrow> was_tail s (m_tail s) (tpos s)"
  using layoutD(8) [OF ms_invD] by (simp add: was_tail_def)

lemma head_was [simp]: "ms_inv s \<Longrightarrow> was_head s (m_head s) (hpos s)"
  using layoutD(7) [OF ms_invD] by (simp add: was_head_def)

lemma rely_was:
  assumes "ms_inv s" "ms_rely A B s s'"
  shows "was_tail s w j \<Longrightarrow> was_tail s' w j" "was_head s w j \<Longrightarrow> was_head s' w j"
    "linked s j nx \<Longrightarrow> linked s' j nx" "linked s j nx \<Longrightarrow> m_item s' (val nx) = m_item s (val nx)"
    "n \<in> A \<Longrightarrow> unlinked s n x \<Longrightarrow> unlinked s' n x"
proof -
  note D = layoutD [OF ms_invD [OF assms(1)]]
  have "mword (nodes s') j = mword (nodes s) j" if "j < length (nodes s)" for j
    using assms(2) that by (auto simp: ms_rely_def mword_def nth_append)
  then show "was_tail s w j \<Longrightarrow> was_tail s' w j" "was_head s w j \<Longrightarrow> was_head s' w j"
    using assms(2) D(4,5) by (auto simp: was_tail_def was_head_def ms_rely_def)
  show "linked s j nx \<Longrightarrow> linked s' j nx" "linked s j nx \<Longrightarrow> m_item s' (val nx) = m_item s (val nx)"
    "n \<in> A \<Longrightarrow> unlinked s n x \<Longrightarrow> unlinked s' n x"
    using assms(2) by (auto simp: linked_def ms_rely_def nth_append unlinked_def)
qed

lemma ms_stable:
  assumes "ms_inv s" "ms_rely (ms_own p) B s s'" "ms_pinv s t op p"
  shows "ms_pinv s' t op p"
proof -
  note R = rely_was [OF assms(1,2)]
  have own: "n \<in> ms_own p \<Longrightarrow> unlinked s n x \<Longrightarrow> unlinked s' n x" for n x using R(5) by blast
  show ?thesis
    using assms(3) own by (cases p; simp) (use R(1-4) in metis)+
qed

section \<open>Steps\<close>

lemma was_positions:
  assumes "ms_inv s"
  shows "was_tail s (m_tail s) j \<longleftrightarrow> j = tpos s" "was_head s (m_head s) i \<longleftrightarrow> i = hpos s"
    "was_tail s w j \<Longrightarrow> j < length (nodes s) \<and> val w = nodes s ! j \<and> aba w = of_nat j"
    "was_head s w i \<Longrightarrow> i < length (nodes s) \<and> val w = nodes s ! i \<and> aba w = of_nat i"
proof -
  note D = layoutD [OF ms_invD [OF assms]]
  show "was_tail s (m_tail s) j \<longleftrightarrow> j = tpos s" "was_head s (m_head s) i \<longleftrightarrow> i = hpos s"
    using D(4-9) mword_eq [OF D(9)] by (auto simp: was_tail_def was_head_def)
  show "was_tail s w j \<Longrightarrow> j < length (nodes s) \<and> val w = nodes s ! j \<and> aba w = of_nat j"
    "was_head s w i \<Longrightarrow> i < length (nodes s) \<and> val w = nodes s ! i \<and> aba w = of_nat i"
    using D(4,5) by (auto simp: was_tail_def was_head_def mword_def)
qed

lemma tail_cas_eq:
  assumes "ms_inv s" "was_tail s to j" "linked s j (cell n w)"
  shows "tail_cas s to n =
    (if to = m_tail s then s\<lparr>m_tail := mword (nodes s) (Suc (tpos s))\<rparr> else s) \<and>
    (to = m_tail s \<longrightarrow> Suc (tpos s) < length (nodes s))"
  using was_positions [OF assms(1)] assms(2,3)
  by (auto simp: tail_cas_def cas_def linked_def mword_def add.commute)

lemma next_of_eq:
  assumes "ms_inv s" "j < length (nodes s)"
  shows "next_of s (nodes s ! j) k =
    (s, k (if Suc j < length (nodes s) then cell (nodes s ! Suc j) 1 else cell NULL 0))"
  by (rule layout_node [OF ms_invD [OF assms(1)] assms(2)]) (simp add: next_of_def)

text \<open>
  The case analysis of a step: it is quiet (the state stays or only the tail moves on
  to the last node, and the thread does nothing but learn), or it allocates a node,
  links one, or moves the head.
\<close>

definition quiet :: "'a msq \<Rightarrow> tid \<Rightarrow> 'a ms_op \<Rightarrow> 'a ms_pc \<Rightarrow> ('a ms_pc, 'a ms_res) outcome \<Rightarrow> bool" where
  "quiet s t op p out \<longleftrightarrow> lin_own queue_spec op (ms_abs s) (ms_mark p) (ms_abs s) (out_mark ms_mark out) \<and>
     (case out of Next p' \<Rightarrow> ms_pinv s t op p' \<and> ms_own p' \<subseteq> ms_own p | Return r \<Rightarrow> True | Fault e \<Rightarrow> False)"

definition tail_moved :: "'a msq \<Rightarrow> 'a msq \<Rightarrow> bool" where
  "tail_moved s s' \<longleftrightarrow> s' = s \<or>
     Suc (tpos s) < length (nodes s) \<and> s' = s\<lparr>m_tail := mword (nodes s) (Suc (tpos s))\<rparr>"

lemma quiet_next:
  assumes "ms_pinv s t op p'" "ms_own p' \<subseteq> ms_own p" "evolves (ms_mark p) (ms_mark p')"
  shows "quiet s t op p (Next p')"
  using assms by (simp add: quiet_def lin_own_def)

lemma quiet_seen:
  assumes "ms_pinv s t op p'" "ms_own p' \<subseteq> ms_own p" "open_mark (ms_mark p)" "ms_mark p' = Seen r"
    and "queue_spec (ms_abs s) op r (ms_abs s)"
  shows "quiet s t op p (Next p')"
  using assms by (auto simp: quiet_def intro: lin_own_seen)

lemma quiet_return:
  assumes "open_mark (ms_mark p) \<and> queue_spec (ms_abs s) op r (ms_abs s) \<or> evolves (ms_mark p) (Fixed r)"
  shows "quiet s t op p (Return r)"
  using assms by (auto simp: quiet_def lin_own_def)

lemma tail_cas_moved:
  assumes "ms_inv s" "was_tail s to j" "linked s j (cell n w)"
  shows "tail_moved s (tail_cas s to n)"
  using tail_cas_eq [OF assms] by (auto simp: tail_moved_def)

lemma ms_abs_eq:
  assumes "ms_inv s"
  shows "fst (ms_abs s) = [] \<longleftrightarrow> Suc (hpos s) = length (nodes s)" "Suc (snd (ms_abs s)) = length (nodes s)"
  using layoutD(4,5) [OF ms_invD [OF assms]] by (auto simp: ms_abs_def)

lemma empty_spec:
  assumes "ms_inv s" "was_head s ho i" "was_tail s to i" "Suc i = length (nodes s)"
  shows "queue_spec (ms_abs s) (Deq k) (deq_empty k to) (ms_abs s)"
proof -
  note L = layoutD [OF ms_invD [OF assms(1)]]
  have "hpos s = i" using assms L(4,5) by (simp add: was_head_def)
  then have e: "ms_abs s = ([], i)" using assms(4) by (simp add: ms_abs_def)
  have "aba to = of_nat i" using was_positions(3) [OF assms(1,3)] by simp
  then show ?thesis by (cases k) (auto simp: e found_empty_def)
qed

lemma link_cas_cases:
  assumes "ms_inv s" "was_tail s to j" "unlinked s n x"
    and "link_cas s n to (cell NULL 0) linked' failed = (s', out)"
  obtains "s' = s" "out = failed"
  | nd where "out = linked'" "Suc (tpos s) = length (nodes s)" "m_heap s (nodes s ! tpos s) = Some nd"
      "s' = s\<lparr>m_heap := (m_heap s)(nodes s ! tpos s \<mapsto> nd\<lparr>m_next := cell n 1\<rparr>)\<rparr>" "to = m_tail s"
proof -
  note L = layoutD [OF ms_invD [OF assms(1)]]
  have j: "j < length (nodes s)" "val to = nodes s ! j" using was_positions(3) [OF assms(1,2)] by simp_all
  obtain nd where nd: "m_heap s (nodes s ! j) = Some nd"
    "m_next nd = (if Suc j < length (nodes s) then cell (nodes s ! Suc j) 1 else cell NULL 0)"
    by (rule layout_node [OF ms_invD [OF assms(1)] j(1)])
  show thesis
  proof (cases "Suc j < length (nodes s)")
    case True
    then have "nd\<lparr>m_next := cell (nodes s ! Suc j) 1\<rparr> = nd" using nd(2) by simp
    then have "(m_heap s)(nodes s ! j \<mapsto> nd\<lparr>m_next := cell (nodes s ! Suc j) 1\<rparr>) = m_heap s"
      using nd(1) by (simp add: map_upd_triv)
    then have "s' = s \<and> out = failed"
      using True assms(4) nd j(2) by (auto simp: link_cas_def cas_def)
    then show thesis using that(1) by blast
  next
    case False
    then have "tpos s = j" using j(1) L(5) assms(2) by (simp add: was_tail_def)
    moreover from this have "to = m_tail s" using assms(2) L(8) by (simp add: was_tail_def)
    ultimately show thesis
      using that(2) [of nd] False assms(4) nd j by (simp add: link_cas_def cas_def)
  qed
qed

lemma ms_deq_cases:
  assumes "ms_inv s" "ms_pinv s t op p" "dequeue_body k s p = (s', out)"
    and "p = DeqHead k \<or> p = DeqTail k ho \<or> p = DeqNext k ho to \<or> p = DeqCheck k ho to nx \<or>
      p = DeqHelp k to nx \<or> p = DeqValue k ho to nx"
  shows "tail_moved s s' \<and> quiet s t op p out"
proof -
  note L = layoutD [OF ms_invD [OF assms(1)]]
  note W = was_positions [OF assms(1)]
  have again: "quiet s t (Deq k) p' (deq_again k x w)" if "open_mark (ms_mark p')" "ms_own p' = {}"
      "evolves (ms_mark p') Pend" for p' x w
    using that by (cases k) (auto intro!: quiet_return quiet_next simp: surj_pair intro: prod.exhaust [of "ms_abs s"])
  show ?thesis
    using assms(4)
  proof (elim disjE)
    assume p: "p = DeqHead k"
    then show ?thesis using assms by (auto simp: tail_moved_def intro!: quiet_next exI [of _ "hpos s"])
  next
    assume p: "p = DeqTail k ho"
    then obtain i where i: "was_head s ho i" "op = Deq k" using assms(2) by auto
    have "i \<le> tpos s" using i(1) L(4) by (simp add: was_head_def)
    then have "ms_pinv s t op (DeqNext k ho (m_tail s))" using i tail_was [OF assms(1)] by auto
    then show ?thesis using assms(3) p
      by (auto simp: tail_moved_def simp del: ms_pinv.simps intro!: quiet_next)
  next
    assume p: "p = DeqNext k ho to"
    then obtain i j where ij: "was_head s ho i" "was_tail s to j" "i \<le> j" "op = Deq k" using assms(2) by auto
    have i: "i < length (nodes s)" "val ho = nodes s ! i" using W(4) [OF ij(1)] by simp_all
    define nx where "nx = (if Suc i < length (nodes s) then cell (nodes s ! Suc i) 1 else cell NULL 0)"
    have out: "s' = s" "out = Next (DeqCheck k ho to nx)"
      using assms(3) p i next_of_eq [OF assms(1) i(1)] unfolding nx_def by auto
    have jn: "j < length (nodes s)" "val to = nodes s ! j" using W(3) [OF ij(2)] by simp_all
    have "nx = cell NULL 0 \<and> i = j \<or> linked s i nx"
      using ij(3) jn(1) by (auto simp: nx_def linked_def)
    then have pin: "ms_pinv s t op (DeqCheck k ho to nx)" using ij by auto
    show ?thesis
    proof (cases "val ho = val to \<and> nx = cell NULL 0")
      case True
      then have "i = j" using i jn L(9) nth_eq_iff_index_eq by metis
      moreover have "Suc i = length (nodes s)"
        using True i L(13) by (cases "Suc i < length (nodes s)") (auto simp: nx_def)
      ultimately have "queue_spec (ms_abs s) (Deq k) (deq_empty k to) (ms_abs s)"
        using empty_spec [OF assms(1) ij(1)] ij(2) by blast
      then show ?thesis
        using out p pin True ij(4)
        by (auto simp: tail_moved_def simp del: ms_pinv.simps intro!: quiet_seen [where r = "deq_empty k to"])
    next
      case False
      then show ?thesis using out p pin
        by (auto simp: tail_moved_def simp del: ms_pinv.simps intro!: quiet_next)
    qed
  next
    assume p: "p = DeqCheck k ho to nx"
    then obtain i j where ij: "was_head s ho i" "was_tail s to j" "i \<le> j" "op = Deq k"
        "nx = cell NULL 0 \<and> i = j \<or> linked s i nx" using assms(2) by auto
    have nxn: "val nx = NULL \<longleftrightarrow> nx = cell NULL 0"
      using ij(5) L(13) by (auto simp: linked_def) (metis nth_mem)
    have eq: "val ho = val to \<longleftrightarrow> i = j"
      using W(3) [OF ij(2)] W(4) [OF ij(1)] L(9) nth_eq_iff_index_eq by metis
    have s': "s' = s" using assms(3) p by simp
    consider "m_head s \<noteq> ho" | "m_head s = ho" "i = j" "val nx = NULL" | "m_head s = ho" "i = j" "val nx \<noteq> NULL"
      | "m_head s = ho" "i < j" using ij(3) by linarith
    then show ?thesis
    proof cases
      case 1
      then show ?thesis using s' assms(3) p ij(4) again by (auto simp: tail_moved_def)
    next
      case 2
      then show ?thesis using s' assms(3) p eq nxn
        by (auto simp: tail_moved_def intro!: quiet_return)
    next
      case 3
      then have "ms_pinv s t op (DeqHelp k to nx)" using ij nxn by auto
      then show ?thesis using 3 s' assms(3) p eq nxn
        by (auto simp: tail_moved_def simp del: ms_pinv.simps intro!: quiet_next)
    next
      case 4
      then have "ms_pinv s t op (DeqValue k ho to nx)" using ij by auto
      then show ?thesis using 4 s' assms(3) p eq
        by (auto simp: tail_moved_def simp del: ms_pinv.simps intro!: quiet_next)
    qed
  next
    assume p: "p = DeqHelp k to nx"
    then obtain j where j: "was_tail s to j" "linked s j nx" "op = Deq k" using assms(2) by auto
    have "linked s j (cell (val nx) 1)" using j(2) by (simp add: linked_def)
    then show ?thesis using tail_cas_moved [OF assms(1) j(1)] assms(3) p j(3) again by auto
  next
    assume p: "p = DeqValue k ho to nx"
    then obtain i j where ij: "was_head s ho i" "was_tail s to j" "i < j" "linked s i nx" "op = Deq k"
      using assms(2) by auto
    obtain nd where "m_heap s (val nx) = Some nd"
      using ij(4) layout_node [OF ms_invD [OF assms(1)], of "Suc i"] by (auto simp: linked_def)
    moreover from this have "ms_pinv s t op (DeqCas k ho to nx (m_value nd))"
      using ij by (auto simp: m_item_def)
    ultimately show ?thesis using assms(3) p
      by (auto simp: tail_moved_def simp del: ms_pinv.simps intro!: quiet_next)
  qed
qed

text \<open>The parts of the two enqueues that are the same: reading, checking and swinging the tail.\<close>

lemma ms_tail_read:
  assumes "ms_inv s" "was_tail s to j"
  shows "\<exists>nx. next_of s (val to) f = (s, f nx) \<and> (nx = cell NULL 0 \<or> linked s j nx)"
  using was_positions(3) [OF assms] next_of_eq [OF assms(1), of j f] by (auto simp: linked_def)

lemma ms_next_null:
  assumes "ms_inv s" "nx = cell NULL 0 \<or> linked s j nx"
  shows "val nx = NULL \<longleftrightarrow> nx = cell NULL 0"
  using assms(2) layoutD(13) [OF ms_invD [OF assms(1)]]
  by (auto simp: linked_def) (metis nth_mem)

lemma ms_enq_cases:
  assumes "ms_inv s" "ms_pinv s t op p" "ms_body t a s p = (s', out)"
    and "p = EnqTail n \<or> p = EnqNext n to \<or> p = EnqCheck n to nx \<or> p = EnqHelp n to nx \<or> p = EnqSwing n to"
  shows "tail_moved s s' \<and> quiet s t op p out"
  using assms(4)
proof (elim disjE)
  assume p: "p = EnqTail n"
  have "ms_pinv s t op (EnqNext n (m_tail s))" using assms(2) tail_was [OF assms(1)] p by auto
  then show ?thesis using assms(3) p
    by (auto simp: tail_moved_def simp del: ms_pinv.simps intro!: quiet_next)
next
  assume p: "p = EnqNext n to"
  then obtain j where "was_tail s to j" using assms(2) by auto
  from ms_tail_read [OF assms(1) this, of "\<lambda>nx. Next (EnqCheck n to nx)"] obtain nx where
    "s' = s" "out = Next (EnqCheck n to nx)" "nx = cell NULL 0 \<or> linked s j nx"
    using assms(3) p by auto
  moreover from this have "ms_pinv s t op (EnqCheck n to nx)"
    using assms(2) p \<open>was_tail s to j\<close> by auto
  ultimately show ?thesis using p
    by (auto simp: tail_moved_def simp del: ms_pinv.simps intro!: quiet_next)
next
  assume p: "p = EnqCheck n to nx"
  then obtain j where "nx = cell NULL 0 \<or> linked s j nx" "was_tail s to j" using assms(2) by auto
  note nxn = ms_next_null [OF assms(1) this(1)]
  have "ms_pinv s t op (EnqLink n to nx)" if "nx = cell NULL 0" using assms(2) p that by auto
  moreover have "ms_pinv s t op (EnqHelp n to nx)" if "nx \<noteq> cell NULL 0" using assms(2) p that by auto
  moreover have "ms_pinv s t op (EnqTail n)" using assms(2) p by auto
  ultimately show ?thesis using assms(3) p nxn
    by (auto simp: tail_moved_def simp del: ms_pinv.simps intro!: quiet_next split: if_splits)
next
  assume p: "p = EnqHelp n to nx"
  then obtain j where j: "was_tail s to j" "linked s j (cell (val nx) 1)"
    using assms(2) by (auto simp: linked_def)
  have "ms_pinv s t op (EnqTail n)" using assms(2) p by auto
  then show ?thesis using tail_cas_moved [OF assms(1) j] assms(3) p
    by (auto simp del: ms_pinv.simps intro!: quiet_next)
next
  assume p: "p = EnqSwing n to"
  then obtain j where j: "was_tail s to j" "linked s j (cell n 1)" using assms(2) by auto
  then show ?thesis using tail_cas_moved [OF assms(1) j] assms(3) p by (auto intro!: quiet_return)
qed

lemma ms_try_cases:
  assumes "ms_inv s" "ms_pinv s t op p" "ms_body t a s p = (s', out)"
    and "p = TryTail x \<or> p = TryNext x to \<or> p = TryCheck x to nx \<or> p = TryHelp to nx \<or> p = TrySwing n to"
  shows "tail_moved s s' \<and> quiet s t op p out"
proof -
  have failed: "quiet s t (TryEnq y) q (Return (Enqueued False))" if "ms_mark q = Pend" for y q
    by (cases "ms_abs s") (use that in \<open>auto intro!: quiet_return\<close>)
  show ?thesis
    using assms(4)
  proof (elim disjE)
    assume p: "p = TryTail x"
    have "ms_pinv s t op (TryNext x (m_tail s))" using assms(2) tail_was [OF assms(1)] p by auto
    then show ?thesis using assms(3) p
      by (auto simp: tail_moved_def simp del: ms_pinv.simps intro!: quiet_next)
  next
    assume p: "p = TryNext x to"
    then obtain j where "was_tail s to j" using assms(2) by auto
    from ms_tail_read [OF assms(1) this, of "\<lambda>nx. Next (TryCheck x to nx)"] obtain nx where
      "s' = s" "out = Next (TryCheck x to nx)" "nx = cell NULL 0 \<or> linked s j nx"
      using assms(3) p by auto
    moreover from this have "ms_pinv s t op (TryCheck x to nx)"
      using assms(2) p \<open>was_tail s to j\<close> by auto
    ultimately show ?thesis using p
      by (auto simp: tail_moved_def simp del: ms_pinv.simps intro!: quiet_next)
  next
    assume p: "p = TryCheck x to nx"
    then obtain j where "nx = cell NULL 0 \<or> linked s j nx" "was_tail s to j" using assms(2) by auto
    note nxn = ms_next_null [OF assms(1) this(1)]
    have "ms_pinv s t op (TryAlloc x to nx)" if "nx = cell NULL 0" using assms(2) p that by auto
    moreover have "ms_pinv s t op (TryHelp to nx)" if "nx \<noteq> cell NULL 0" using assms(2) p that by auto
    moreover have "op = TryEnq x" using assms(2) p by simp
    ultimately show ?thesis using assms(3) p nxn failed
      by (auto simp: tail_moved_def simp del: ms_pinv.simps intro!: quiet_next split: if_splits)
  next
    assume p: "p = TryHelp to nx"
    then obtain j y where j: "was_tail s to j" "linked s j (cell (val nx) 1)" and "op = TryEnq y"
      using assms(2) by (auto simp: linked_def)
    then show ?thesis using tail_cas_moved [OF assms(1) j] assms(3) p failed by auto
  next
    assume p: "p = TrySwing n to"
    then obtain j where j: "was_tail s to j" "linked s j (cell n 1)" using assms(2) by auto
    then show ?thesis using tail_cas_moved [OF assms(1) j] assms(3) p by (auto intro!: quiet_return)
  qed
qed

lemma ms_read_cases:
  assumes "ms_inv s" "ms_pinv s t op p" "ms_body t a s p = (s', out)"
    and "p = EmptyTail \<or> p = SizeTail \<or> p = SizeHead to"
  shows "tail_moved s s' \<and> quiet s t op p out"
proof -
  note L = layoutD [OF ms_invD [OF assms(1)]]
  have "aba (m_tail s) = of_nat (tpos s)" using L(8) by (simp add: mword_def)
  moreover have "tpos s \<le> length (nodes s) - 1" "length (nodes s) - 1 \<le> Suc (tpos s)" using L(5,6) by simp_all
  ultimately show ?thesis
    using assms(2-4)
    by (auto simp: tail_moved_def tail_state_body_def ms_abs_def intro!: quiet_return quiet_next exI [of _ "tpos s"])
qed

lemma ms_body_cases [consumes 4, case_names quiet alloc link head]:
  assumes "ms_inv s" "ms_pinv s t op p" "ms_own p \<inter> set (nodes s) = {}" "ms_body t a s p = (s', out)"
  obtains
    (quiet) "tail_moved s s'" "quiet s t op p out"
  | (alloc) x to nx where "is_fresh (m_heap s) a" "s' = s\<lparr>m_heap := (m_heap s)(a \<mapsto> node_new x)\<rparr>"
      "p = EnqAlloc x \<and> out = Next (EnqTail a) \<or> p = TryAlloc x to nx \<and> out = Next (TryLink a to nx)"
  | (link) n x nd where "unlinked s n x" "n \<notin> set (nodes s)" "Suc (tpos s) = length (nodes s)"
      "m_heap s (nodes s ! tpos s) = Some nd"
      "s' = s\<lparr>m_heap := (m_heap s)(nodes s ! tpos s \<mapsto> nd\<lparr>m_next := cell n 1\<rparr>)\<rparr>"
      "p = EnqLink n (m_tail s) (cell NULL 0) \<and> op = Enq x \<and> out = Next (EnqSwing n (m_tail s)) \<or>
       p = TryLink n (m_tail s) (cell NULL 0) \<and> op = TryEnq x \<and> out = Next (TrySwing n (m_tail s))"
  | (head) k to nx where "hpos s < tpos s" "s' = s\<lparr>m_head := mword (nodes s) (Suc (hpos s))\<rparr>" "op = Deq k"
      "p = DeqCas k (m_head s) to nx (m_item s (nodes s ! Suc (hpos s)))"
      "out = Return (deq_ok k to (m_item s (nodes s ! Suc (hpos s))))"
proof -
  note b = assms(4)
  have q: thesis if "tail_moved s s' \<and> quiet s t op p out" using that quiet by blast
  have refl: "tail_moved s s" by (simp add: tail_moved_def)
  have self: "quiet s t op p (Next p)" by (rule quiet_next) (simp_all add: assms(2))
  show thesis
  proof (cases p)
    case (EnqAlloc x)
    show thesis
    proof (cases "is_fresh (m_heap s) a")
      case True
      show thesis by (rule alloc) (use True EnqAlloc b in auto)
    next
      case False
      then have "s' = s" "out = Next p" using b EnqAlloc by auto
      then show thesis using q self refl by simp
    qed
  next
    case (TryAlloc x to nx)
    show thesis
    proof (cases "is_fresh (m_heap s) a")
      case True
      show thesis by (rule alloc) (use True TryAlloc b in auto)
    next
      case False
      then have "s' = s" "out = Next p" using b TryAlloc by auto
      then show thesis using q self refl by simp
    qed
  next
    case (EnqLink n to nx)
    then obtain j x where jx: "was_tail s to j" "unlinked s n x" "op = Enq x" "nx = cell NULL 0"
      using assms(2) by auto
    have lk: "link_cas s n to (cell NULL 0) (Next (EnqSwing n to)) (Next (EnqTail n)) = (s', out)"
      using b EnqLink jx(4) by simp
    show thesis
    proof (rule link_cas_cases [OF assms(1) jx(1,2) lk])
      assume f: "s' = s" "out = Next (EnqTail n)"
      have "quiet s t op p out" unfolding f
        by (cases "ms_abs s") (use jx EnqLink in \<open>auto intro!: quiet_next quiet_return\<close>)
      then show thesis using q refl f by simp
    next
      fix nd
      assume l: "out = Next (EnqSwing n to)" "Suc (tpos s) = length (nodes s)"
        "m_heap s (nodes s ! tpos s) = Some nd"
        "s' = s\<lparr>m_heap := (m_heap s)(nodes s ! tpos s \<mapsto> nd\<lparr>m_next := cell n 1\<rparr>)\<rparr>" "to = m_tail s"
      show thesis by (rule link [OF jx(2) _ l(2-4)]) (use l jx EnqLink assms(3) in auto)
    qed
  next
    case (TryLink n to nx)
    then obtain j x where jx: "was_tail s to j" "unlinked s n x" "op = TryEnq x" "nx = cell NULL 0"
      using assms(2) by auto
    have lk: "link_cas s n to (cell NULL 0) (Next (TrySwing n to)) (Return (Enqueued False)) = (s', out)"
      using b TryLink jx(4) by simp
    show thesis
    proof (rule link_cas_cases [OF assms(1) jx(1,2) lk])
      assume f: "s' = s" "out = Return (Enqueued False)"
      have "quiet s t op p out" unfolding f
        by (cases "ms_abs s") (use jx TryLink in \<open>auto intro!: quiet_next quiet_return\<close>)
      then show thesis using q refl f by simp
    next
      fix nd
      assume l: "out = Next (TrySwing n to)" "Suc (tpos s) = length (nodes s)"
        "m_heap s (nodes s ! tpos s) = Some nd"
        "s' = s\<lparr>m_heap := (m_heap s)(nodes s ! tpos s \<mapsto> nd\<lparr>m_next := cell n 1\<rparr>)\<rparr>" "to = m_tail s"
      show thesis by (rule link [OF jx(2) _ l(2-4)]) (use l jx TryLink assms(3) in auto)
    qed
  next
    case (DeqCas k ho to nx x)
    then obtain i j where ij: "was_head s ho i" "was_tail s to j" "i < j" "linked s i nx" "op = Deq k"
      "x = m_item s (val nx)" using assms(2) by auto
    show thesis
    proof (cases "m_head s = ho")
      case True
      then have "i = hpos s" using was_positions(2) [OF assms(1)] ij(1) by auto
      moreover have "aba ho = of_nat i" using was_positions(4) [OF assms(1) ij(1)] by simp
      moreover have "j \<le> tpos s" using ij(2) by (simp add: was_tail_def)
      ultimately show thesis using True b DeqCas ij
        by (intro head [of k to nx])
          (auto simp: cas_def linked_def mword_def add.commute)
    next
      case False
      then have "s' = s" "out = deq_again k (Some x) (Some (aba to))" using b DeqCas by (simp_all add: cas_def)
      moreover have "quiet s t (Deq k) p (deq_again k (Some x) (Some (aba to)))"
        using DeqCas by (cases k; cases "ms_abs s") (auto intro!: quiet_return quiet_next)
      ultimately show thesis using q refl ij by simp
    qed
  next
    case (DeqHead k)
    then have "dequeue_body k s p = (s', out)" using b by (simp only: ms_body.simps deq_body_simp)
    then show thesis using q ms_deq_cases [OF assms(1,2)] DeqHead by blast
  next
    case (DeqTail k)
    then have "dequeue_body k s p = (s', out)" using b by (simp only: ms_body.simps deq_body_simp)
    then show thesis using q ms_deq_cases [OF assms(1,2)] DeqTail by blast
  next
    case (DeqNext k)
    then have "dequeue_body k s p = (s', out)" using b by (simp only: ms_body.simps deq_body_simp)
    then show thesis using q ms_deq_cases [OF assms(1,2)] DeqNext by blast
  next
    case (DeqCheck k)
    then have "dequeue_body k s p = (s', out)" using b by (simp only: ms_body.simps deq_body_simp)
    then show thesis using q ms_deq_cases [OF assms(1,2)] DeqCheck by blast
  next
    case (DeqHelp k)
    then have "dequeue_body k s p = (s', out)" using b by (simp only: ms_body.simps deq_body_simp)
    then show thesis using q ms_deq_cases [OF assms(1,2)] DeqHelp by blast
  next
    case (DeqValue k)
    then have "dequeue_body k s p = (s', out)" using b by (simp only: ms_body.simps deq_body_simp)
    then show thesis using q ms_deq_cases [OF assms(1,2)] DeqValue by blast
  qed (use q ms_enq_cases [OF assms(1,2,4)] ms_try_cases [OF assms(1,2,4)] ms_read_cases [OF assms(1,2,4)]
      in blast)+
qed

section \<open>The obligations of the interface\<close>

lemma ms_move_tail:
  assumes "ms_inv s" "tail_moved s s'"
  shows "ms_inv s'" "nodes s' = nodes s" "hpos s' = hpos s" "tpos s \<le> tpos s'" "m_heap s' = m_heap s"
    "ms_abs s' = ms_abs s"
proof -
  note l = ms_invD [OF assms(1)]
  have "ms_inv s' \<and> nodes s' = nodes s \<and> hpos s' = hpos s \<and> tpos s \<le> tpos s' \<and> m_heap s' = m_heap s"
    using assms(2) unfolding tail_moved_def
  proof
    assume "Suc (tpos s) < length (nodes s) \<and> s' = s\<lparr>m_tail := mword (nodes s) (Suc (tpos s))\<rparr>"
    then show ?thesis using layout_tail [OF l] layoutD(10-12) layout_inv by fastforce
  qed (use assms(1) in simp)
  then show "ms_inv s'" "nodes s' = nodes s" "hpos s' = hpos s" "tpos s \<le> tpos s'" "m_heap s' = m_heap s"
    by blast+
  then show "ms_abs s' = ms_abs s" by (simp add: ms_abs_def m_item_def fun_eq_iff)
qed

lemma ms_move_alloc:
  assumes "ms_inv s" "is_fresh (m_heap s) n" "s' = s\<lparr>m_heap := (m_heap s)(n \<mapsto> node_new x)\<rparr>"
  shows "ms_inv s'" "nodes s' = nodes s" "hpos s' = hpos s" "tpos s' = tpos s" "ms_abs s' = ms_abs s"
    "n \<notin> set (nodes s)"
proof -
  note l = ms_invD [OF assms(1)]
  show n: "n \<notin> set (nodes s)" using layout_dom [OF l] assms(2) by (auto simp: is_fresh_def)
  have "n \<noteq> NULL" using assms(2) by (auto simp: is_fresh_def)
  note l' = layout_private [OF l n this, of "node_new x"]
  show "ms_inv s'" "nodes s' = nodes s" "hpos s' = hpos s" "tpos s' = tpos s"
    using layoutD(10-12) [OF l'] layout_inv [OF l'] assms(3) by simp_all
  then show "ms_abs s' = ms_abs s"
    using n assms(3) in_set_dropD [of _ "Suc (hpos s)" "nodes s"]
    by (auto simp: ms_abs_def m_item_def)
qed

lemma ms_move_link:
  assumes "ms_inv s" "unlinked s n x" "n \<notin> set (nodes s)" "Suc (tpos s) = length (nodes s)"
    and "m_heap s (nodes s ! tpos s) = Some nd"
    and "s' = s\<lparr>m_heap := (m_heap s)(nodes s ! tpos s \<mapsto> nd\<lparr>m_next := cell n 1\<rparr>)\<rparr>"
  shows "ms_inv s'" "nodes s' = nodes s @ [n]" "hpos s' = hpos s" "tpos s' = tpos s"
    "m_item s' a = m_item s a" "ms_abs s' = (fst (ms_abs s) @ [x], Suc (snd (ms_abs s)))"
proof -
  note l = ms_invD [OF assms(1)]
  note l' = layout_link [OF l _ assms(3,4,5)]
  have un: "m_heap s n = Some (node_new x)" using assms(2) by (simp add: unlinked_def)
  show *: "ms_inv s'" "nodes s' = nodes s @ [n]" "hpos s' = hpos s" "tpos s' = tpos s"
    using layoutD(10-12) [OF l' [OF un]] layout_inv [OF l' [OF un]] assms(6) by simp_all
  show i: "m_item s' a = m_item s a" for a using assms(5,6) by (auto simp: m_item_def)
  have "m_item s n = x" using un by (simp add: m_item_def node_new_def)
  moreover have "Suc (hpos s) \<le> length (nodes s)" using layoutD(4,5) [OF l] by simp
  ultimately show "ms_abs s' = (fst (ms_abs s) @ [x], Suc (snd (ms_abs s)))"
    using assms(4) * i by (simp add: ms_abs_def fun_eq_iff)
qed

lemma ms_move_head:
  assumes "ms_inv s" "hpos s < tpos s" "s' = s\<lparr>m_head := mword (nodes s) (Suc (hpos s))\<rparr>"
  shows "ms_inv s'" "nodes s' = nodes s" "hpos s' = Suc (hpos s)" "tpos s' = tpos s" "m_heap s' = m_heap s"
    "ms_abs s = (m_item s (nodes s ! Suc (hpos s)) # fst (ms_abs s'), snd (ms_abs s'))"
proof -
  note l = ms_invD [OF assms(1)]
  note l' = layout_head [OF l assms(2)]
  show *: "ms_inv s'" "nodes s' = nodes s" "hpos s' = Suc (hpos s)" "tpos s' = tpos s" "m_heap s' = m_heap s"
    using layoutD(10-12) [OF l'] layout_inv [OF l'] assms(3) by simp_all
  have "drop (Suc (hpos s)) (nodes s) = nodes s ! Suc (hpos s) # drop (Suc (Suc (hpos s))) (nodes s)"
    using layoutD(5) [OF l] assms(2) by (simp add: Cons_nth_drop_Suc)
  then show "ms_abs s = (m_item s (nodes s ! Suc (hpos s)) # fst (ms_abs s'), snd (ms_abs s'))"
    using * by (simp add: ms_abs_def m_item_def fun_eq_iff)
qed

lemma ms_guarantee:
  assumes "ms_inv s" "ms_pinv s t op p" "ms_own p \<inter> set (nodes s) = {}" "ms_body t n s p = (s', out)"
    and "A \<subseteq> dom (m_heap s) - ms_own p" "A \<inter> set (nodes s) = {}"
  shows "ms_rely A B s s'"
  using assms(1-4)
proof (cases rule: ms_body_cases)
  case quiet
  then show ?thesis using ms_move_tail [OF assms(1)] by (simp add: ms_rely_def m_item_def)
next
  case (alloc x to nx)
  then show ?thesis using ms_move_alloc [OF assms(1) alloc(1,2)] assms(5)
    by (auto simp: ms_rely_def m_item_def is_fresh_def)
next
  case (link m x nd)
  have "nodes s ! tpos s \<in> set (nodes s)" using link(3) by simp
  then show ?thesis using ms_move_link [OF assms(1) link(1-5)] assms(6) link(5) by (auto simp: ms_rely_def)
next
  case (head k to nx)
  then show ?thesis using ms_move_head [OF assms(1) head(1,2)] by (simp add: ms_rely_def m_item_def)
qed

lemma ms_sinv:
  assumes "ms_inv s" "ms_pinv s t op p" "ms_own p \<inter> set (nodes s) = {}" "ms_body t n s p = (s', out)"
  shows "ms_inv s' \<and> set (nodes s') \<subseteq> set (nodes s) \<union> ms_own p \<union> - dom (m_heap s)"
  using assms
proof (cases rule: ms_body_cases)
  case quiet
  then show ?thesis using ms_move_tail(1,2) [OF assms(1) quiet(1)] by auto
next
  case (alloc x to nx)
  then show ?thesis using ms_move_alloc [OF assms(1) alloc(1,2)] by auto
next
  case (link m x nd)
  then show ?thesis using ms_move_link [OF assms(1) link(1-5)] by auto
next
  case (head k to nx)
  then show ?thesis using ms_move_head [OF assms(1) head(1,2)] by auto
qed

lemma was_moved:
  assumes "nodes s' = nodes s @ ys" "hpos s \<le> hpos s'" "tpos s \<le> tpos s'" "ms_inv s"
  shows "was_tail s w j \<Longrightarrow> was_tail s' w j"
  using assms layoutD(4,5) [OF ms_invD [OF assms(4)]]
  by (auto simp: was_tail_def mword_def nth_append)

lemma ms_next:
  assumes "ms_inv s" "ms_pinv s t op p" "ms_own p \<inter> set (nodes s) = {}" "ms_body t n s p = (s', Next p')"
  shows "ms_pinv s' t op p' \<and> ms_own p' \<subseteq> ms_own p \<union> - dom (m_heap s) \<and> ms_own p' \<inter> set (nodes s') = {}"
  using assms
proof (cases rule: ms_body_cases)
  case quiet
  note M = ms_move_tail [OF assms(1) quiet(1)]
  have q: "ms_pinv s t op p'" "ms_own p' \<subseteq> ms_own p" using quiet(2) by (simp_all add: quiet_def)
  have "ms_rely (ms_own p') {} s s'" using M by (simp add: ms_rely_def m_item_def)
  then show ?thesis using ms_stable [OF assms(1) _ q(1)] q(2) M(2) assms(3) by auto
next
  case (alloc x to nx)
  note M = ms_move_alloc [OF assms(1) alloc(1,2)]
  have "unlinked s' n x" using alloc(2) by (simp add: unlinked_def)
  moreover have "Ex (was_tail s w) \<Longrightarrow> Ex (was_tail s' w)" for w
    using was_moved [of s' s "[]" w] M assms(1) by auto
  ultimately show ?thesis using alloc M assms(2) by (auto simp: is_fresh_def)
next
  case (link m x nd)
  note M = ms_move_link [OF assms(1) link(1-5)]
  have "was_tail s' (m_tail s) (tpos s)"
    using was_moved [OF M(2)] M tail_was [OF assms(1)] assms(1) by simp
  moreover have "linked s' (tpos s) (cell m 1)" using M(2) link(3) by (simp add: linked_def nth_append)
  ultimately show ?thesis using link(6) by auto
qed simp

lemma ms_safe:
  assumes "ms_inv s" "ms_pinv s t op p" "ms_own p \<inter> set (nodes s) = {}"
  shows "ms_body t n s p \<noteq> (s', Fault e)"
proof
  assume "ms_body t n s p = (s', Fault e)"
  with assms show False by (cases rule: ms_body_cases) (auto simp: quiet_def)
qed

lemma ms_lin:
  assumes "ms_inv s" "ms_pinv s t op p" "ms_own p \<inter> set (nodes s) = {}" "ms_body t n s p = (s', out)"
  shows "lin_own queue_spec op (ms_abs s) (ms_mark p) (ms_abs s') (out_mark ms_mark out)"
  using assms
proof (cases rule: ms_body_cases)
  case quiet
  then show ?thesis using ms_move_tail(6) [OF assms(1)] by (simp add: quiet_def)
next
  case (alloc x to nx)
  then show ?thesis using ms_move_alloc(5) [OF assms(1) alloc(1,2)] by auto
next
  case (link m x nd)
  then show ?thesis using ms_move_link(6) [OF assms(1) link(1-5)]
    by (cases "ms_abs s") (auto intro!: lin_own_point)
next
  case (head k to nx)
  then show ?thesis using ms_move_head(6) [OF assms(1) head(1,2)]
    by (cases k; cases "ms_abs s'") (auto simp: took_def intro!: lin_own_point)
qed

lemma ms_init_layout: "layout ms_init [FIRST] 0 0"
  by (simp add: layout_def ms_init_def node_new_def mword_def next_ok_def m_nx_def)

interpretation ms: lf_object ms_prog "ms_init :: 'a::zero msq" "\<lambda>_ _. True" ms_inv ms_pinv
    "\<lambda>s. dom (m_heap s)" "\<lambda>s. set (nodes s)" "\<lambda>_. {}" ms_own "\<lambda>_. {}" ms_rely "\<lambda>_ _. True"
    ms_abs queue_spec "\<lambda>_. ms_mark"
proof (unfold_locales, goal_cases)
  case 1 show ?case using layout_inv ms_init_layout by blast
next
  case (2 s t op) then show ?case by (cases op) simp_all
next
  case (3 op) then show ?case by (cases op) simp_all
next
  case (6 s t op p) then show ?case by (cases p) (auto simp: unlinked_def)
next
  case (7 s) then show ?case using layout_dom ms_invD by blast
next
  case (8 s t op p n s' out) then show ?case using ms_sinv [of s t op p n s' out] by simp
next
  case (9 s t op p n s' p') then show ?case using ms_next [of s t op p n s' p'] by simp
next
  case (10 s t op p n s' e) then show ?case using ms_safe by simp
next
  case (11 s t op p n s' out A u B) then show ?case using ms_guarantee [of s t op p n s' out A B] by simp
next
  case 12 then show ?case using ms_stable [OF 12(1) _ 12(4)] by simp
next
  case (16 s op) then show ?case by (cases op) simp_all
next
  case (17 s t op p n s' out) then show ?case using ms_lin [OF 17(1,2) _ 17(4) [simplified]] by simp
qed simp_all

section \<open>The items\<close>

fun ms_put :: "'a ms_op \<Rightarrow> 'a option" where
  "ms_put (Enq x) = Some x"
| "ms_put (TryEnq x) = Some x"
| "ms_put op = None"

fun ms_stored :: "'a ms_op \<Rightarrow> 'a ms_res \<Rightarrow> 'a option" where
  "ms_stored op (Enqueued b) = (if b then ms_put op else None)"
| "ms_stored op r = None"

fun ms_got :: "'a ms_op \<Rightarrow> 'a ms_res \<Rightarrow> 'a option" where
  "ms_got (Deq Plain) (Dequeued x) = x"
| "ms_got (Deq WithTail) (DequeuedTail x w) = x"
| "ms_got (Deq Try) (Tried n x w) = (if n = 0 then x else None)"
| "ms_got op r = None"

lemma ms_bag_spec:
  assumes "queue_spec q op r q'"
  shows "mset (fst q') + one (ms_got op r) = mset (fst q) + one (ms_stored op r)"
proof (cases q)
  case (Pair xs e)
  show ?thesis
  proof (cases op)
    case (Deq k)
    then show ?thesis using assms Pair by (cases k) (auto simp: took_def found_empty_def)
  qed (use assms Pair in auto)
qed

interpretation ms_bag: bag_object ms_prog "ms_init :: 'a::zero msq" "\<lambda>_ _. True" ms_inv ms_pinv
    "\<lambda>s. dom (m_heap s)" "\<lambda>s. set (nodes s)" "\<lambda>_. {}" ms_own "\<lambda>_. {}" ms_rely "\<lambda>_ _. True"
    ms_abs queue_spec "\<lambda>_. ms_mark" "\<lambda>q. mset (fst q)" ms_put ms_stored ms_got
proof (unfold_locales, goal_cases)
  case 1
  show ?case by (simp add: ms_abs_def layoutD(10,11) [OF ms_init_layout])
next
  case 2 then show ?case by (rule ms_bag_spec)
next
  case (3 op r x) then show ?case by (cases r) (auto split: if_splits)
next
  case (4 s t op p r)
  then obtain k ho to nx where "p = DeqCheck k ho to nx" by (cases p) auto
  then show ?case using 4 by (cases k) (auto split: if_splits)
qed

section \<open>Progress\<close>

text \<open>
  The number of steps a thread needs when it runs alone. \<open>lag\<close>: a node is linked and
  the tail has not moved yet, so that the thread has to help once.
\<close>

definition lag :: "'a msq \<Rightarrow> bool" where
  "lag s \<longleftrightarrow> Suc (tpos s) < length (nodes s)"

definition blocked :: "'a msq \<Rightarrow> bool" where
  "blocked s \<longleftrightarrow> hpos s = tpos s \<and> lag s"

fun ms_rank :: "'a msq \<Rightarrow> 'a ms_pc \<Rightarrow> nat" where
  "ms_rank s (EnqAlloc x) = 10"
| "ms_rank s (EnqTail n) = (if lag s then 9 else 5)"
| "ms_rank s (EnqNext n to) = (if to \<noteq> m_tail s then 11 else if lag s then 8 else 4)"
| "ms_rank s (EnqCheck n to nx) = (if to \<noteq> m_tail s then 10 else if nx \<noteq> cell NULL 0 then 7
     else if lag s then 11 else 3)"
| "ms_rank s (EnqLink n to nx) = (if to \<noteq> m_tail s \<or> lag s then 10 else 2)"
| "ms_rank s (EnqHelp n to nx) = (if to \<noteq> m_tail s then 10 else 6)"
| "ms_rank s (EnqSwing n to) = 1"
| "ms_rank s (TryTail x) = 6"
| "ms_rank s (TryNext x to) = 5"
| "ms_rank s (TryCheck x to nx) = 4"
| "ms_rank s (TryAlloc x to nx) = 3"
| "ms_rank s (TryLink n to nx) = 2"
| "ms_rank s (TryHelp to nx) = 1"
| "ms_rank s (TrySwing n to) = 1"
| "ms_rank s (DeqHead k) = (if blocked s then 11 else 6)"
| "ms_rank s (DeqTail k ho) = (if ho \<noteq> m_head s then 14 else if blocked s then 10 else 5)"
| "ms_rank s (DeqNext k ho to) = (if ho \<noteq> m_head s then 13 else if val ho \<noteq> val to then 4
     else if to \<noteq> m_tail s then 14 else if lag s then 9 else 4)"
| "ms_rank s (DeqCheck k ho to nx) = (if ho \<noteq> m_head s then 12
     else if val ho \<noteq> val to \<or> nx = cell NULL 0 then 3 else if to \<noteq> m_tail s then 13 else 8)"
| "ms_rank s (DeqHelp k to nx) = (if to \<noteq> m_tail s then 12 else 7)"
| "ms_rank s (DeqValue k ho to nx) = (if ho \<noteq> m_head s then 13 else 2)"
| "ms_rank s (DeqCas k ho to nx x) = (if ho \<noteq> m_head s then 12 else 1)"
| "ms_rank s EmptyTail = 1"
| "ms_rank s SizeTail = 2"
| "ms_rank s (SizeHead to) = 1"

lemma ms_rank_bound: "ms_rank s p \<le> 14"
  by (cases p) auto

definition closer :: "'a msq \<times> ('a ms_pc, 'a ms_res) outcome \<Rightarrow> nat \<Rightarrow> bool" where
  "closer so n \<longleftrightarrow> (case snd so of Next p' \<Rightarrow> ms_rank (fst so) p' < n | Return r \<Rightarrow> True | Fault e \<Rightarrow> False)"

lemma closer_simps [simp]:
  "closer (s, Next p) n \<longleftrightarrow> ms_rank s p < n" "closer (s, Return r) n"
  by (simp_all add: closer_def)

lemma closer_if: "closer (s, if b then x else y) n \<longleftrightarrow> (if b then closer (s, x) n else closer (s, y) n)"
  by simp

lemma closer_again: "ms_rank s (DeqHead k) < n \<Longrightarrow> closer (s, deq_again k x w) n"
  by (cases k) simp_all

lemma help_unlags:
  assumes "ms_inv s" "was_tail s to j" "linked s j (cell n w)" "to = m_tail s"
  shows "\<not> lag (tail_cas s to n)" "\<not> blocked (tail_cas s to n)"
proof -
  note l = ms_invD [OF assms(1)]
  have t: "tail_cas s to n = s\<lparr>m_tail := mword (nodes s) (Suc (tpos s))\<rparr>" "Suc (tpos s) < length (nodes s)"
    using tail_cas_eq [OF assms(1-3)] assms(4) by simp_all
  show "\<not> lag (tail_cas s to n)"
    using layoutD(10,12) [OF layout_tail [OF l t(2)]] layoutD(6) [OF l] by (simp add: lag_def t(1))
  then show "\<not> blocked (tail_cas s to n)" by (simp add: blocked_def)
qed

lemma help_stale: "ms_inv s \<Longrightarrow> to \<noteq> m_tail s \<Longrightarrow> tail_cas s to n = s"
  by (simp add: tail_cas_def cas_def)

lemma ms_help_closer:
  assumes "ms_inv s" "was_tail s to j" "linked s j nx"
  shows "closer (tail_cas s to (val nx), Next (EnqTail n)) (ms_rank s (EnqHelp n to nx))"
    "closer (tail_cas s to (val nx), deq_again k x w) (ms_rank s (DeqHelp k to nx))"
proof -
  have l: "linked s j (cell (val nx) 1)" using assms(3) by (simp add: linked_def)
  show "closer (tail_cas s to (val nx), Next (EnqTail n)) (ms_rank s (EnqHelp n to nx))"
    "closer (tail_cas s to (val nx), deq_again k x w) (ms_rank s (DeqHelp k to nx))"
    using help_unlags [OF assms(1,2) l] help_stale [OF assms(1), of to]
    by (cases "to = m_tail s"; auto intro!: closer_again)+
qed

lemma was_tail_next:
  assumes "ms_inv s" "was_tail s to j"
  shows "next_of s (val to) f = (s, f (if Suc j < length (nodes s) then cell (nodes s ! Suc j) 1 else cell NULL 0))"
  using was_positions(3) [OF assms] next_of_eq [OF assms(1), of j f] by simp

lemma link_closer:
  assumes "ms_inv s" "was_tail s to j" "to = m_tail s" "\<not> lag s"
  shows "\<exists>s'. link_cas s n to (cell NULL 0) a b = (s', a)"
proof -
  have j: "j = tpos s" using was_positions(1) [OF assms(1)] assms(2,3) by simp
  obtain nd where "m_heap s (nodes s ! j) = Some nd"
    "m_next nd = (if Suc j < length (nodes s) then cell (nodes s ! Suc j) 1 else cell NULL 0)"
    using layout_node [OF ms_invD [OF assms(1)]] was_positions(3) [OF assms(1,2)] by blast
  then show ?thesis
    using assms(4) was_positions(3) [OF assms(1,2)] j by (simp add: link_cas_def lag_def cas_def)
qed

lemma ms_rank_enq:
  assumes "ms_inv s" "ms_pinv s t op p"
    and "p = EnqTail n \<or> p = EnqNext n to \<or> p = EnqCheck n to nx \<or> p = EnqLink n to nx \<or> p = EnqHelp n to nx
      \<or> p = EnqSwing n to"
  shows "closer (ms_body t a s p) (ms_rank s p)"
  using assms(3)
proof (elim disjE)
  assume p: "p = EnqNext n to"
  then obtain j where j: "was_tail s to j" using assms(2) by auto
  have "to = m_tail s \<Longrightarrow> j = tpos s" using was_positions(1) [OF assms(1)] j by simp
  then show ?thesis using p was_tail_next [OF assms(1) j] by (auto simp: lag_def)
next
  assume p: "p = EnqCheck n to nx"
  then obtain j where "nx = cell NULL 0 \<or> linked s j nx" using assms(2) by auto
  note nxn = ms_next_null [OF assms(1) this]
  show ?thesis using p nxn by auto
next
  assume p: "p = EnqLink n to nx"
  then obtain j x where j: "was_tail s to j" "nx = cell NULL 0" "unlinked s n x" using assms(2) by auto
  show ?thesis
  proof (cases "to \<noteq> m_tail s \<or> lag s")
    case True
    obtain s' out where l: "link_cas s n to (cell NULL 0) (Next (EnqSwing n to)) (Next (EnqTail n)) = (s', out)"
      by fastforce
    show ?thesis
      by (rule link_cas_cases [OF assms(1) j(1,3) l]) (use True p j l in \<open>auto simp: lag_def\<close>)
  next
    case False
    then obtain s' where "link_cas s n to (cell NULL 0) (Next (EnqSwing n to)) (Next (EnqTail n)) = (s', Next (EnqSwing n to))"
      using link_closer [OF assms(1) j(1)] by blast
    then show ?thesis using p False j by simp
  qed
next
  assume p: "p = EnqHelp n to nx"
  then obtain j where "was_tail s to j" "linked s j nx" using assms(2) by auto
  from ms_help_closer(1) [OF assms(1) this] show ?thesis using p by simp
qed auto

lemma ms_rank_deq:
  assumes "ms_inv s" "ms_pinv s t op p"
    and "p = DeqHead k \<or> p = DeqTail k ho \<or> p = DeqNext k ho to \<or> p = DeqCheck k ho to nx
      \<or> p = DeqHelp k to nx \<or> p = DeqValue k ho to nx \<or> p = DeqCas k ho to nx x"
  shows "closer (dequeue_body k s p) (ms_rank s p)"
  using assms(3)
proof (elim disjE)
  assume p: "p = DeqTail k ho"
  have eq: "val (m_head s) = val (m_tail s) \<longleftrightarrow> hpos s = tpos s"
    using layoutD(4,5,7,8,9) [OF ms_invD [OF assms(1)]] by (auto simp: mword_def nth_eq_iff_index_eq)
  show ?thesis using p eq by (auto simp: blocked_def)
next
  assume p: "p = DeqNext k ho to"
  then obtain i j where ij: "was_head s ho i" "was_tail s to j" "i \<le> j" using assms(2) by auto
  have eq: "val ho = val to \<Longrightarrow> i = j"
    using was_positions(3) [OF assms(1) ij(2)] was_positions(4) [OF assms(1) ij(1)]
      layoutD(9) [OF ms_invD [OF assms(1)]] nth_eq_iff_index_eq by metis
  have "to = m_tail s \<Longrightarrow> j = tpos s" using was_positions(1) [OF assms(1)] ij(2) by simp
  then show ?thesis
    using p eq next_of_eq [OF assms(1), of i] was_positions(4) [OF assms(1) ij(1)]
    by (auto simp: lag_def)
next
  assume p: "p = DeqCheck k ho to nx"
  then obtain i where "nx = cell NULL 0 \<or> linked s i nx" using assms(2) by auto
  note nxn = ms_next_null [OF assms(1) this]
  show ?thesis using p nxn by (auto intro!: closer_again)
next
  assume p: "p = DeqHelp k to nx"
  then obtain j where "was_tail s to j" "linked s j nx" using assms(2) by auto
  from ms_help_closer(2) [OF assms(1) this] show ?thesis using p by simp
next
  assume p: "p = DeqValue k ho to nx"
  then obtain i where "linked s i nx" using assms(2) by auto
  then obtain nd where "m_heap s (val nx) = Some nd"
    using layout_node [OF ms_invD [OF assms(1)], of "Suc i"] by (auto simp: linked_def)
  then show ?thesis using p by simp
next
  assume p: "p = DeqCas k ho to nx x"
  then show ?thesis by (auto simp: cas_def intro!: closer_again)
qed auto

lemma ms_rank_dec:
  assumes "ms_inv s" "ms_pinv s t op p"
  shows "\<exists>a. closer (ms_body t a s p) (ms_rank s p)"
proof -
  obtain a where a: "is_fresh (m_heap s) a"
    using fresh_exists layoutD(2) [OF ms_invD [OF assms(1)]] by blast
  note e = ms_rank_enq [OF assms, of _ _ _ a]
  note d = ms_rank_deq [OF assms]
  show ?thesis
  proof (cases p)
    case (TryNext x to)
    then obtain j where "was_tail s to j" using assms(2) by auto
    then show ?thesis using was_tail_next [OF assms(1)] TryNext by simp
  next
    case (TryLink n to nx)
    then obtain j where "was_tail s to j" using assms(2) by auto
    then obtain nd where "m_heap s (val to) = Some nd"
      using layout_node [OF ms_invD [OF assms(1)]] was_positions(3) [OF assms(1)] by metis
    then show ?thesis using TryLink by (simp add: link_cas_def cas_def)
  next
    case (DeqHead k) then show ?thesis using d [of k] by simp
  next
    case (DeqTail k) then show ?thesis using d [of k] by simp
  next
    case (DeqNext k) then show ?thesis using d [of k] by simp
  next
    case (DeqCheck k) then show ?thesis using d [of k] by simp
  next
    case (DeqHelp k) then show ?thesis using d [of k] by simp
  next
    case (DeqValue k) then show ?thesis using d [of k] by simp
  next
    case (DeqCas k) then show ?thesis using d [of k] by simp
  qed (use a e in \<open>force simp: tail_state_body_def\<close>)+
qed

lemma ms_rank_step:
  assumes "ms_inv s" "ms_pinv s t op p"
  shows "\<exists>n s' out. ms_body t n s p = (s', out) \<and>
    (case out of Next p' \<Rightarrow> ms_rank s' p' < ms_rank s p | Return r \<Rightarrow> True | Fault e \<Rightarrow> False)"
  using ms_rank_dec [OF assms] unfolding closer_def by (metis prod.collapse)

interpretation ms_solo: solo_progress ms_prog "ms_init :: 'a::zero msq" "\<lambda>_ _. True" ms_inv ms_pinv
    "\<lambda>s. dom (m_heap s)" "\<lambda>s. set (nodes s)" "\<lambda>_. {}" ms_own "\<lambda>_. {}" ms_rely "\<lambda>_ _. True" ms_rank
  by unfold_locales (simp only: ms_prog_simps ms_rank_step)

section \<open>Properties\<close>

abbreviation ms_run :: "'a::zero ms_op sched \<Rightarrow> ('a msq, 'a ms_op, 'a ms_res, 'a ms_pc) config" where
  "ms_run es \<equiv> exec ms_prog es (init ms_init)"

lemma ms_init_abs [simp]: "ms_abs ms_init = ([], 0)"
  by (simp add: ms_abs_def layoutD(10,11) [OF ms_init_layout])

text \<open>
  C1: every history of concurrent calls of the methods of MSQueue is linearizable with
  respect to a sequential queue (dequeue takes the oldest item; it reports empty only
  when the queue is empty at its linearization point, and then the tail word returned
  carries the exact number of enqueues so far), and the linearization ends in the items
  that the list in the heap holds.
\<close>

theorem ms_queue_linearizable:
  "linearizable_to queue_spec ([], 0) (history ms_prog es (init ms_init)) (ms_abs (shared (ms_run es)))"
  using ms.linearizable_exec [of es] by simp

text \<open>
  C3: no thread of MSQueue ever follows NULL or an address that holds no node,
  whatever the schedule: in particular the value read through next when head and tail
  differ, which the code does not test.
\<close>

theorem ms_queue_memory_safe: "threads (ms_run es) t \<noteq> Dead op e"
  by (rule ms.og_no_fault) simp

text \<open>
  C5: obstruction freedom of MSQueue: a thread inside any of its methods returns within
  fifteen steps of its own when the other threads pause, wherever they were stopped (it
  finishes a half done enqueue of another thread itself).
\<close>

theorem ms_queue_obstruction_free:
  assumes "threads (ms_run es) t = Run op p"
  shows "\<exists>ns r. length ns \<le> 15 \<and> threads (ms_run (es @ alone t ns)) t = Resp op r"
proof -
  obtain ns r where "length ns \<le> Suc (ms_rank (shared (ms_run es)) p)"
    "threads (ms_run (es @ alone t ns)) t = Resp op r"
    using ms_solo.solo_returns [OF all_valid assms] by blast
  then show ?thesis using ms_rank_bound [of "shared (ms_run es)" p]
    by (intro exI [of _ ns] exI [of _ r]) simp
qed

text \<open>Thread 0 has linked its node and not swung the tail; thread 1 starts a dequeue.\<close>

definition half_enqueued :: "nat ms_op sched" where
  "half_enqueued = [(0, Call (Enq 7)), (0, Go 2), (0, Go 0), (0, Go 0), (0, Go 0), (0, Go 0)]"

lemmas ms_eval = half_enqueued_def step_def init_def is_fresh_def ms_init_def node_new_def
  next_of_def link_cas_def tail_cas_def cas_def tail_state_body_def

lemma ms_queue_obstruction_free_witness:
  "\<exists>ns r. length ns \<le> 15 \<and>
     threads (ms_run (half_enqueued @ [(1, Call (Deq Plain))] @ alone 1 ns)) 1 = Resp (Deq Plain) r"
  using ms_queue_obstruction_free [of "half_enqueued @ [(1, Call (Deq Plain))]" 1 "Deq Plain" "DeqHead Plain"]
  by (simp add: ms_eval)

text \<open>
  Approx_size without interference: read in a reachable state, the result is the
  number of items modulo the word size, or one less while an enqueue is half done.
\<close>

theorem approx_size_quiescent:
  "case approx_size_body (shared (ms_run es)) SizeTail of (s, Next p) \<Rightarrow>
       (\<exists>n. approx_size_body s p = (s, Return (Size n)) \<and>
         (n = of_nat (length (fst (ms_abs s))) \<or>
          lag s \<and> n = of_nat (length (fst (ms_abs s)) - 1) \<and> fst (ms_abs s) \<noteq> []))
     | _ \<Rightarrow> False"
proof -
  let ?s = "shared (ms_run es)"
  have l: "layout ?s (nodes ?s) (hpos ?s) (tpos ?s)" by (rule ms_invD) (rule ms.og_reach_sinv, simp)
  note D = layoutD(4-8) [OF l]
  have n: "aba (m_tail ?s) - aba (m_head ?s) = of_nat (tpos ?s - hpos ?s)"
    using D by (simp add: mword_def of_nat_diff)
  have "length (fst (ms_abs ?s)) = length (nodes ?s) - Suc (hpos ?s)" by (simp add: ms_abs_def)
  moreover have "length (nodes ?s) = (if lag ?s then tpos ?s + 2 else tpos ?s + 1)"
    using D by (simp add: lag_def)
  moreover have "fst (ms_abs ?s) \<noteq> [] \<longleftrightarrow> length (fst (ms_abs ?s)) \<noteq> 0" by simp
  ultimately show ?thesis using n D by (cases "lag ?s") (simp_all add: Suc_diff_le)
qed

text \<open>
  Approx_size under interference wraps around: it reads the tail before the head, so
  an enqueue and a dequeue in between make it return the largest word for a queue that
  never held more than one item.
\<close>

definition size_race :: "nat ms_op sched" where
  "size_race = [(1, Call ApproxSize), (1, Go 0)] @ half_enqueued @ [(0, Go 0), (0, Leave), (0, Call (Deq Plain)),
     (0, Go 0), (0, Go 0), (0, Go 0), (0, Go 0), (0, Go 0), (0, Go 0), (1, Go 0)]"

theorem approx_size_wraps:
  "threads (ms_run size_race) 1 = Resp ApproxSize (Size (- 1)) \<and>
   threads (ms_run size_race) 0 = Resp (Deq Plain) (Dequeued (Some 7))"
  by (simp add: size_race_def ms_eval)

text \<open>
  Empty_state of MSQueue does not change at the moment an item is put: after the
  item was linked (it is in the queue and a dequeue finds it) the tail word is still the
  one that described the empty queue.
\<close>

definition state_race :: "nat ms_op sched" where
  "state_race = [(1, Call EmptyState), (1, Go 0)]"

theorem empty_state_lags:
  "threads (ms_run state_race) 1 = Resp EmptyState (TailState (cell FIRST 0)) \<and>
   fst (ms_abs (shared (ms_run half_enqueued))) = [7] \<and>
   threads (ms_run (half_enqueued @ state_race)) 1 = Resp EmptyState (TailState (cell FIRST 0))"
  by (simp add: state_race_def ms_eval ms_abs_def nodes_def hpos_def chain_node m_nx_def pos_def m_item_def)

end
