(* ===== verification/Utilities.thy ===== *)
theory Utilities
  imports Prelude
begin

text \<open>
  Small utilities of src/src/util that keep state: the pseudo random generator of
  random.cc (Schrage's method on 32 bit integers), the thread contexts of
  threadlocals.cc, and the 256 bit map of bitmap.h with its four 64 bit banks.
\<close>

unbundle bit_operations_syntax

section \<open>The pseudo random generator\<close>

definition kA :: u32 where "kA = 16807"
definition kM :: u32 where "kM = 2147483647"
definition kQ :: u32 where "kQ = 127773"
definition kR :: u32 where "kR = 2836"

text \<open>The seed of the thread is an int32; the divisions convert it to an unsigned word.\<close>

definition pseudorand :: "u32 \<Rightarrow> u64 \<times> u32" where
  "pseudorand seed0 = (let hi = seed0 div kQ; lo = seed0 mod kQ; seed1 = kA * lo - kR * hi;
     seed2 = (if sint seed1 < 0 then seed1 + kM else seed1)
   in (scast seed2, seed2))"

definition new_random_seed :: "u64 \<Rightarrow> u64 \<Rightarrow> u32" where
  "new_random_seed hw thread_id = ucast (ucast (ucast hw :: u32) + (thread_id + 1 * 100))"

definition hwrand :: "u64 \<Rightarrow> u64" where
  "hwrand tsc = drop_bit 6 tsc"

definition rdtsc :: "u32 \<Rightarrow> u32 \<Rightarrow> u64" where
  "rdtsc hi lo = ucast lo OR push_bit 32 (ucast hi)"

text \<open>The n-th number drawn from a seed.\<close>

fun draws :: "nat \<Rightarrow> u32 \<Rightarrow> u64 list" where
  "draws 0 seed = []"
| "draws (Suc n) seed = (let (x, seed') = pseudorand seed in x # draws n seed')"

lemma schrage_arith:
  fixes n :: nat
  assumes "n < 2 ^ 32"
  defines "d \<equiv> int (16807 * (n mod 127773)) - int (2836 * (n div 127773))"
  shows "- 2147483647 < d" "d < 2147483647" "d mod 2147483647 = int (16807 * n) mod 2147483647"
proof -
  have m: "n mod 127773 \<le> 127772" by (simp add: less_Suc_eq_le [symmetric])
  have "n div 127773 \<le> 2 ^ 32 div 127773" using assms(1) by (intro div_le_mono) simp
  then have q: "n div 127773 \<le> 33614" by simp
  show "- 2147483647 < d" "d < 2147483647" using m q by (simp_all add: d_def)
  have "int n = 127773 * int (n div 127773) + int (n mod 127773)" by (simp add: of_nat_div of_nat_mod)
  then have "int (16807 * n) = d + 2147483647 * int (n div 127773)" by (simp add: d_def)
  then show "d mod 2147483647 = int (16807 * n) mod 2147483647" by simp
qed

lemma pseudorand_eq:
  "pseudorand seed = (of_nat (16807 * unat seed mod 2147483647), of_nat (16807 * unat seed mod 2147483647))"
proof -
  let ?n = "unat seed"
  have n: "?n < 2 ^ 32" using unsigned_less [of seed] by simp
  define d where "d = int (16807 * (?n mod 127773)) - int (2836 * (?n div 127773))"
  note A = schrage_arith [OF n, folded d_def]
  have hi: "seed div kQ = of_nat (?n div 127773)" and lo: "seed mod kQ = of_nat (?n mod 127773)"
    by (simp_all add: kQ_def word_arith_nat_div word_arith_nat_mod)
  have s1: "kA * (seed mod kQ) - kR * (seed div kQ) = of_int d"
    unfolding hi lo d_def kA_def kR_def by simp
  have sd: "sint (of_int d :: u32) = d"
    using A(1,2) by (simp add: signed_of_int signed_take_bit_int_eq_self_iff)
  let ?r = "16807 * ?n mod 2147483647"
  have r: "(if d < 0 then d + 2147483647 else d) = int ?r"
  proof -
    have "(d + 2147483647) mod 2147483647 = d mod 2147483647" by simp
    moreover have "d < 0 \<Longrightarrow> (d + 2147483647) mod 2147483647 = d + 2147483647"
      using A(1) by (intro mod_pos_pos_trivial) simp_all
    moreover have "\<not> d < 0 \<Longrightarrow> d mod 2147483647 = d" using A(2) by (intro mod_pos_pos_trivial) simp_all
    ultimately have "(if d < 0 then d + 2147483647 else d) = d mod 2147483647" by (cases "d < 0") simp_all
    then show ?thesis using A(3) by (simp add: zmod_int)
  qed
  have w: "(if sint (of_int d :: u32) < 0 then of_int d + kM else of_int d) = (of_nat ?r :: u32)"
  proof (cases "d < 0")
    case True
    then have "of_int (d + 2147483647) = (of_nat ?r :: u32)" using r by simp
    then show ?thesis using True sd by (simp add: kM_def)
  next
    case False
    then have "of_int d = (of_nat ?r :: u32)" using r by simp
    then show ?thesis using False sd by simp
  qed
  have c: "(scast (of_nat ?r :: u32) :: u64) = of_nat ?r"
  proof -
    have "(scast (of_int k :: u32) :: u64) = of_int k" if "0 \<le> k" "k < 2147483647" for k
      using that by (simp add: signed_of_int signed_take_bit_int_eq_self)
    from this [of "int ?r"] show ?thesis by simp
  qed
  show ?thesis unfolding pseudorand_def Let_def s1 w c by simp
qed

lemma draws_eq:
  "draws n seed = map (\<lambda>i. of_nat (16807 ^ Suc i * unat seed mod 2147483647)) [0..<n]"
proof (induction n arbitrary: seed)
  case (Suc n)
  let ?r = "16807 * unat seed mod 2147483647"
  have u: "unat (of_nat ?r :: u32) = ?r"
    by (simp add: unsigned_of_nat take_bit_nat_eq_self)
  have m: "16807 ^ Suc i * ?r mod 2147483647 = 16807 ^ Suc (Suc i) * unat seed mod 2147483647" for i
  proof -
    have "16807 ^ Suc i * ?r mod 2147483647 = 16807 ^ Suc i * (16807 * unat seed) mod 2147483647"
      by (rule mod_mult_right_eq)
    also have "16807 ^ Suc i * (16807 * unat seed) = 16807 ^ Suc (Suc i) * unat seed"
      by (simp only: power_Suc ac_simps)
    finally show ?thesis .
  qed
  have "[0..<Suc n] = 0 # map Suc [0..<n]" by (simp add: map_Suc_upt upt_conv_Cons del: upt_Suc)
  then show ?case by (simp add: pseudorand_eq Suc.IH u m del: upt_Suc power_Suc)
qed simp

section \<open>The bitmap\<close>

record bitmap =
  map1 :: u64
  map2 :: u64
  map3 :: u64
  map4 :: u64

definition bm_reset :: bitmap where
  "bm_reset = \<lparr>map1 = 0, map2 = 0, map3 = 0, map4 = 0\<rparr>"

text \<open>The shift of an unsigned int is undefined from its width on.\<close>

definition shl1u :: "nat \<Rightarrow> fault + u64" where
  "shl1u n = (if n < 32 then Inr (ucast (push_bit n 1 :: u32)) else Inl (Undefined ''shift''))"

definition shl1ul :: "nat \<Rightarrow> u64" where
  "shl1ul n = push_bit n 1"

definition bm_set :: "u8 \<Rightarrow> bitmap \<Rightarrow> fault + bitmap" where
  "bm_set index b = (let i = unat index in
     if i < 64 then map_sum id (\<lambda>m. b\<lparr>map1 := map1 b OR m\<rparr>) (shl1u i)
     else if i < 128 then map_sum id (\<lambda>m. b\<lparr>map2 := map2 b OR m\<rparr>) (shl1u (i - 64))
     else if i < 192 then map_sum id (\<lambda>m. b\<lparr>map3 := map3 b OR m\<rparr>) (shl1u (i - 128))
     else map_sum id (\<lambda>m. b\<lparr>map4 := map4 b OR m\<rparr>) (shl1u (i - 192)))"

definition bm_someset :: "bitmap \<Rightarrow> bool" where
  "bm_someset b \<longleftrightarrow> map1 b > 0 \<or> map2 b > 0 \<or> map3 b > 0 \<or> map4 b > 0"

definition bm_isset :: "u8 \<Rightarrow> bitmap \<Rightarrow> fault + bool" where
  "bm_isset index b = (let i = unat index in
     if i < 64 then Inr (map1 b AND shl1ul i \<noteq> 0)
     else if i < 128 then map_sum id (\<lambda>m. map2 b AND m \<noteq> 0) (shl1u (i - 64))
     else if i < 192 then map_sum id (\<lambda>m. map3 b AND m \<noteq> 0) (shl1u (i - 128))
     else map_sum id (\<lambda>m. map4 b AND m \<noteq> 0) (shl1u (i - 192)))"

lemma bit_shl1ul: "bit (shl1ul n) k \<longleftrightarrow> k = n \<and> n < 64"
  by (auto simp: shl1ul_def bit_exp_iff)

lemma shl1u_eq: "shl1u n = (if n < 32 then Inr (shl1ul n) else Inl (Undefined ''shift''))"
proof -
  have "(ucast (push_bit n 1 :: u32) :: u64) = shl1ul n" if "n < 32"
    by (rule bit_word_eqI) (use that in \<open>auto simp: bit_shl1ul bit_ucast_iff bit_exp_iff\<close>)
  then show ?thesis by (simp add: shl1u_def)
qed

lemma and_shl1ul: "m AND shl1ul n = 0 \<longleftrightarrow> \<not> bit m n"
proof
  assume "m AND shl1ul n = 0"
  moreover have "bit m n \<Longrightarrow> bit (m AND shl1ul n) n" by (auto simp: bit_and_iff bit_shl1ul dest: bit_imp_le_length)
  ultimately show "\<not> bit m n" by auto
qed (auto intro!: bit_word_eqI simp: bit_and_iff bit_shl1ul)

lemma bit_or_shl1ul: "n < 64 \<Longrightarrow> bit (m OR shl1ul n) k \<longleftrightarrow> k = n \<or> bit m k"
  by (auto simp: bit_or_iff bit_shl1ul)

lemma or_shl1ul_pos: "n < 64 \<Longrightarrow> 0 < m OR shl1ul n"
  using bit_or_shl1ul [of n m n] by (auto simp: word_gt_0)

lemma shl1ul_nonzero: "n < 64 \<Longrightarrow> shl1ul n \<noteq> 0"
  using bit_shl1ul [of n n] by auto

lemma unat_u8: "unat (i :: u8) < 256"
  using unsigned_less [of i] by simp

section \<open>Thread contexts\<close>

text \<open>
  prepare fills the array contexts, which has kMaxThreads entries, with one context per thread;
  a context is its thread_id_. ThreadContext::get gives a thread that has no context the next
  one; the counter is advanced by an atomic fetch-and-add. A thread beyond the prepared ones
  gets the null pointer, which get dereferences, and one beyond the end of the array whatever
  lies there: indexing outside of the array is a fault.
\<close>

definition kMaxThreads :: u64 where
  "kMaxThreads = 1024"

record tctx =
  tc_cnt :: u64
  tc_contexts :: "u64 option list"
  tc_key :: "tid \<Rightarrow> u64 option"

definition tc_init :: tctx where
  "tc_init = \<lparr>tc_cnt = 0, tc_contexts = replicate (unat kMaxThreads) None, tc_key = Map.empty\<rparr>"

fun tc_prepare_loop :: "nat \<Rightarrow> u64 \<Rightarrow> u64 option list \<Rightarrow> fault + u64 option list" where
  "tc_prepare_loop 0 i contexts = Inr contexts"
| "tc_prepare_loop (Suc k) i contexts = (if length contexts \<le> unat i then Inl Wild_Deref
     else tc_prepare_loop k (i + 1) (contexts[unat i := Some i]))"

definition tc_prepare :: "u64 \<Rightarrow> tctx \<Rightarrow> fault + tctx" where
  "tc_prepare num_threads s = map_sum id (\<lambda>contexts. s\<lparr>tc_contexts := contexts, tc_key := Map.empty\<rparr>)
     (tc_prepare_loop (unat num_threads) 0 (tc_contexts s))"

definition assign_context :: "tid \<Rightarrow> tctx \<Rightarrow> fault + tctx" where
  "assign_context t s = (let thread_id = tc_cnt s in
     if length (tc_contexts s) \<le> unat thread_id then Inl Wild_Deref
     else Inr (s\<lparr>tc_cnt := thread_id + 1, tc_key := (tc_key s)(t := tc_contexts s ! unat thread_id)\<rparr>))"

definition tc_get :: "tid \<Rightarrow> tctx \<Rightarrow> fault + u64 \<times> tctx" where
  "tc_get t s = (case (if tc_key s t = None then assign_context t s else Inr s) of
     Inl e \<Rightarrow> Inl e
   | Inr s' \<Rightarrow> (case tc_key s' t of None \<Rightarrow> Inl Null_Deref | Some i \<Rightarrow> Inr (i, s')))"

fun tc_gets :: "tid list \<Rightarrow> tctx \<Rightarrow> fault + u64 list" where
  "tc_gets [] s = Inr []"
| "tc_gets (t # ts) s = (case tc_get t s of
     Inl e \<Rightarrow> Inl e
   | Inr (i, s') \<Rightarrow> map_sum id ((#) i) (tc_gets ts s'))"

text \<open>prepare, and then the calls of get by the threads ts.\<close>

definition tc_run :: "u64 \<Rightarrow> tid list \<Rightarrow> fault + u64 list" where
  "tc_run num_threads ts = (case tc_prepare num_threads tc_init of Inl e \<Rightarrow> Inl e | Inr s \<Rightarrow> tc_gets ts s)"

text \<open>The threads in the order of their first call.\<close>

definition arrivals :: "nat list \<Rightarrow> nat list \<Rightarrow> nat list" where
  "arrivals ord ts = fold (\<lambda>t ord. if t \<in> set ord then ord else ord @ [t]) ts ord"

lemma arrivals_simps [simp]:
  "arrivals ord [] = ord"
  "arrivals ord (t # ts) = arrivals (if t \<in> set ord then ord else ord @ [t]) ts"
  by (simp_all add: arrivals_def)

lemma arrivals_prefix: "\<exists>xs. arrivals ord ts = ord @ xs"
proof (induction ts arbitrary: ord)
  case (Cons t ts)
  then show ?case using Cons [of ord] Cons [of "ord @ [t]"] by (cases "t \<in> set ord") auto
qed simp

lemma arrivals_distinct: "distinct ord \<Longrightarrow> distinct (arrivals ord ts) \<and> set (arrivals ord ts) = set ord \<union> set ts"
  by (induction ts arbitrary: ord) auto

lemma pos_append: "x \<in> set xs \<Longrightarrow> pos (xs @ ys) x = pos xs x"
  by (induction xs) (auto simp: pos_def)

definition prepared :: "nat \<Rightarrow> u64 option list" where
  "prepared n = map (\<lambda>i. if i < n then Some (of_nat i) else None) [0..<1024]"

lemma prepare_loop:
  assumes "k + unat i < 2 ^ 64"
  shows "tc_prepare_loop k i (prepared (unat i)) = (if k + unat i \<le> 1024 then Inr (prepared (k + unat i)) else
    if k = 0 then Inr (prepared (unat i)) else Inl Wild_Deref)"
  using assms
proof (induction k arbitrary: i)
  case (Suc k)
  show ?case
  proof (cases "1024 \<le> unat i")
    case False
    have i: "unat (i + 1) = Suc (unat i)" using Suc.prems by (subst unat_add_no_overflow) simp_all
    have "(prepared (unat i))[unat i := Some i] = prepared (Suc (unat i))"
      using False by (intro nth_equalityI) (auto simp: prepared_def nth_list_update less_Suc_eq)
    then show ?thesis using Suc.IH [of "i + 1"] Suc.prems False i by (auto simp: prepared_def)
  qed (simp add: prepared_def)
qed simp

lemma prepare_eq:
  "tc_prepare n tc_init = (if n \<le> kMaxThreads then Inr (tc_init\<lparr>tc_contexts := prepared (unat n)\<rparr>) else Inl Wild_Deref)"
proof -
  have e: "replicate 1024 None = prepared 0" by (simp add: prepared_def map_replicate_const)
  have "n \<le> kMaxThreads \<longleftrightarrow> unat n \<le> 1024" by (simp add: kMaxThreads_def word_le_nat_alt)
  then show ?thesis
    using prepare_loop [of "unat n" 0] unsigned_less [of n, where ?'a = nat]
    by (auto simp: tc_prepare_def tc_init_def kMaxThreads_def e)
qed

definition tc_rel :: "nat \<Rightarrow> tid list \<Rightarrow> tctx \<Rightarrow> bool" where
  "tc_rel n ord s \<longleftrightarrow> distinct ord \<and> length ord \<le> n \<and> n \<le> 1024 \<and> tc_cnt s = of_nat (length ord) \<and> tc_contexts s = prepared n \<and>
     tc_key s = (\<lambda>t. if t \<in> set ord then Some (of_nat (pos ord t)) else None)"

text \<open>What a thread without a context runs into when n contexts were prepared and taken.\<close>

definition tc_beyond :: "nat \<Rightarrow> fault" where
  "tc_beyond n = (if n < 1024 then Null_Deref else Wild_Deref)"

lemma tc_get_step:
  assumes "tc_rel n ord s"
  shows "t \<in> set ord \<Longrightarrow> tc_get t s = Inr (of_nat (pos ord t), s)"
    and "t \<notin> set ord \<Longrightarrow> length ord = n \<Longrightarrow> tc_get t s = Inl (tc_beyond n)"
    and "t \<notin> set ord \<Longrightarrow> length ord < n \<Longrightarrow>
      \<exists>s'. tc_get t s = Inr (of_nat (length ord), s') \<and> tc_rel n (ord @ [t]) s'"
proof -
  note R = assms[unfolded tc_rel_def]
  have c: "unat (tc_cnt s) = length ord" using R by (simp add: unat_of_nat)
  have len: "length (tc_contexts s) = 1024" using R by (simp add: prepared_def)
  show "t \<in> set ord \<Longrightarrow> tc_get t s = Inr (of_nat (pos ord t), s)" using R by (simp add: tc_get_def)
  show "tc_get t s = Inl (tc_beyond n)" if "t \<notin> set ord" "length ord = n"
    using R that c len by (auto simp: tc_get_def assign_context_def Let_def tc_beyond_def prepared_def)
  show "\<exists>s'. tc_get t s = Inr (of_nat (length ord), s') \<and> tc_rel n (ord @ [t]) s'" if t: "t \<notin> set ord" "length ord < n"
  proof -
    let ?s = "s\<lparr>tc_cnt := tc_cnt s + 1, tc_key := (tc_key s)(t := Some (of_nat (length ord)))\<rparr>"
    have new: "pos (ord @ [t]) t = length ord" using t(1) by (induction ord) (auto simp: pos_def)
    have x: "tc_contexts s ! length ord = Some (of_nat (length ord))" using R t(2) by (simp add: prepared_def)
    have "length ord < 1024" using R t(2) by simp
    then have "tc_get t s = Inr (of_nat (length ord), ?s)"
      using R t(1) c len x by (simp add: tc_get_def assign_context_def Let_def)
    moreover have "tc_key ?s = (\<lambda>u. if u \<in> set (ord @ [t]) then Some (of_nat (pos (ord @ [t]) u)) else None)"
      using R new by (auto simp: fun_eq_iff pos_append)
    then have "tc_rel n (ord @ [t]) ?s" using R t by (simp add: tc_rel_def)
    ultimately show ?thesis by blast
  qed
qed

lemma tc_gets_eq:
  assumes "tc_rel n ord s"
  shows "tc_gets ts s = (if length (arrivals ord ts) \<le> n then Inr (map (\<lambda>t. of_nat (pos (arrivals ord ts) t)) ts)
    else Inl (tc_beyond n))"
  using assms
proof (induction ts arbitrary: ord s)
  case (Cons t ts)
  note st = tc_get_step [OF Cons.prems, of t]
  obtain xs where xs: "arrivals (ord @ [t]) ts = (ord @ [t]) @ xs" using arrivals_prefix by blast
  obtain ys where ys: "arrivals ord ts = ord @ ys" using arrivals_prefix by blast
  have le: "length ord \<le> n" using Cons.prems by (simp add: tc_rel_def)
  consider "t \<in> set ord" | "t \<notin> set ord" "length ord = n" | "t \<notin> set ord" "length ord < n"
    using le by linarith
  then show ?case
  proof cases
    case 1
    then show ?thesis using st(1) Cons.IH [OF Cons.prems] by (simp add: ys pos_append)
  next
    case 2
    then show ?thesis using st(2) xs by simp
  next
    case 3
    have new: "pos (ord @ [t]) t = length ord" using 3(1) by (induction ord) (auto simp: pos_def)
    have "pos (arrivals (ord @ [t]) ts) t = length ord" unfolding xs by (subst pos_append) (simp_all add: new)
    then show ?thesis using 3 st(3) Cons.IH [of "ord @ [t]"] by auto
  qed
qed (simp add: tc_rel_def)

section \<open>Properties\<close>

text \<open>
  C11: the numbers pseudorand draws are those of the minimal standard generator: whatever
  32 bit seed a thread starts with, the i-th number is 16807 to the power i times the
  seed, modulo 2147483647, although the code computes in 32 bit words (Schrage); in
  particular they stay below 2147483647, and a seed that is a multiple of it draws 0
  forever.
\<close>

theorem pseudorand_lehmer:
  "draws n seed = map (\<lambda>i. of_nat (16807 ^ Suc i * unat seed mod 2147483647)) [0..<n] \<and>
   list_all (\<lambda>x. x < 2147483647) (draws n seed) \<and>
   (let (x, seed') = pseudorand seed in x = ucast seed')"
proof -
  have "of_nat (k mod 2147483647) < (2147483647 :: u64)" for k :: nat
    by (simp add: word_less_nat_alt unsigned_of_nat take_bit_nat_eq_self)
  moreover have "(of_nat (k mod 2147483647) :: u64) = ucast (of_nat (k mod 2147483647) :: u32)" for k :: nat
    by (simp add: unsigned_of_nat take_bit_nat_eq_self)
  ultimately show ?thesis by (simp add: draws_eq list_all_iff pseudorand_eq del: power_Suc)
qed

text \<open>
  Bitmap256: setting a bit whose number modulo 64 is below 32 sets that bit and no
  other (isset agrees for every index it is defined for) and makes the map non-empty;
  for the upper half of each bank the code shifts an unsigned int beyond its width, so
  that 128 of the 256 bits cannot be set.
\<close>

theorem bitmap_set:
  "case bm_set i b of
     Inl e \<Rightarrow> 32 \<le> unat i mod 64 \<and> e = Undefined ''shift''
   | Inr b' \<Rightarrow> unat i mod 64 < 32 \<and> bm_someset b' \<and>
       bm_isset j b' = (if j = i then Inr True else bm_isset j b)"
proof -
  note simps = bm_set_def bm_isset_def bm_someset_def Let_def shl1u_eq and_shl1ul bit_or_shl1ul shl1ul_nonzero or_shl1ul_pos
  have ne: "unat j = unat i \<longleftrightarrow> j = i" by (simp add: word_unat_eq_iff)
  consider "unat i < 64" | "64 \<le> unat i" "unat i < 128" | "128 \<le> unat i" "unat i < 192" | "192 \<le> unat i" "unat i < 256"
    using unat_u8 [of i] by linarith
  then show ?thesis
  proof cases
    case 1
    then show ?thesis using ne by (auto simp: simps)
  next
    case 2
    then have "unat i mod 64 = unat i - 64" by (simp add: mod_if)
    then show ?thesis using 2 ne by (auto simp: simps)
  next
    case 3
    then have "unat i mod 64 = unat i - 128" by (simp add: mod_if)
    then show ?thesis using 3 ne by (auto simp: simps)
  next
    case 4
    then have "unat i mod 64 = unat i - 192" by (simp add: mod_if)
    then show ?thesis using 4 ne by (auto simp: simps)
  qed
qed

text \<open>
  C12: thread ids: when up to 1024 contexts are prepared, then in every sequence of calls of
  ThreadContext::get each thread gets the number of its first call among the first calls of all
  threads, at every call, so that different threads have different ids. When more threads call
  than contexts were prepared, get dereferences NULL, or, if all 1024 were prepared, reads past
  the end of the array; and prepare writes past its end when asked for more than 1024.
\<close>

theorem thread_ids:
  "tc_run n ts = (if kMaxThreads < n then Inl Wild_Deref
     else if card (set ts) \<le> unat n then Inr (map (\<lambda>t. of_nat (pos (arrivals [] ts) t)) ts)
     else if n < kMaxThreads then Inl Null_Deref else Inl Wild_Deref) \<and>
   distinct (arrivals [] ts) \<and> set (arrivals [] ts) = set ts"
proof -
  have d: "distinct (arrivals [] ts) \<and> set (arrivals [] ts) = set ts" using arrivals_distinct [of "[]" ts] by simp
  then have c: "length (arrivals [] ts) = card (set ts)" using distinct_card by metis
  show ?thesis
  proof (cases "kMaxThreads < n")
    case True
    then have "\<not> n \<le> kMaxThreads" by simp
    then show ?thesis using d True by (simp add: tc_run_def prepare_eq)
  next
    case False
    have n: "n \<le> kMaxThreads \<longleftrightarrow> unat n \<le> 1024" "n < kMaxThreads \<longleftrightarrow> unat n < 1024" "\<not> kMaxThreads < n \<longleftrightarrow> unat n \<le> 1024"
      by (simp_all add: kMaxThreads_def word_le_nat_alt word_less_nat_alt not_less)
    have "tc_rel (unat n) [] (tc_init\<lparr>tc_contexts := prepared (unat n)\<rparr>)"
      using False n by (simp add: tc_rel_def tc_init_def)
    from tc_gets_eq [OF this, of ts] show ?thesis using d c False n
      by (simp add: tc_run_def prepare_eq tc_beyond_def)
  qed
qed

end
