(* ===== verification/Thread_Allocator.thy ===== *)
theory Thread_Allocator
  imports Prelude
begin

text \<open>
  The allocator of src/src/util/malloc.cc: size rounding, human readable sizes and the
  thread local bump allocator. Pointers and sizes are 64 bit words, NULL is 0. The C
  library's malloc and posix_memalign are parameters: the address they return is an
  argument. The model returns, beside the object, the number of bytes that belong to it
  (what was requested from the C library, or the bump of the buffer pointer), so that a
  memset of the code can be compared with it.
\<close>

section \<open>Rounding\<close>

definition align_size :: "u64 \<Rightarrow> u64 \<Rightarrow> u64" where
  "align_size sz alignment =
     (if alignment = 0 \<or> sz mod alignment = 0 then sz else (sz div alignment + 1) * alignment)"

definition kPageSize :: u64 where
  "kPageSize = 4096"

definition kTLABSize :: u64 where
  "kTLABSize = kPageSize"

definition kWordSize :: u64 where
  "kWordSize = 8"

section \<open>Human readable sizes\<close>

definition multiplier :: "char \<Rightarrow> u64" where
  "multiplier c = (if c = CHR ''k'' \<or> c = CHR ''K'' then 1024
     else if c = CHR ''m'' \<or> c = CHR ''M'' then 1024 * 1024
     else if c = CHR ''g'' \<or> c = CHR ''G'' then 1024 * 1024 * 1024 else 1)"

text \<open>
  hsize is the C string up to its terminator and len its length; the copy that is parsed
  has len - 1 characters. An empty string makes the code read before its start.
\<close>

definition human_size_to_pages :: "string \<Rightarrow> fault + u64" where
  "human_size_to_pages hsize = (case hsize of
     [] \<Rightarrow> Inl (Undefined ''hsize[len-1]'')
   | _ \<Rightarrow> let newstr = butlast hsize; v = (of_int (strtol newstr) :: u64)
       in if v = 0 then Inl (Abort ''human_size_to_pages'')
          else let bytes = v * multiplier (last hsize)
            in Inr (if bytes mod 4096 = 0 then bytes div 4096 else bytes div 4096 + 1))"

section \<open>The thread local buffer\<close>

record mem_buffer =
  memory :: u64
  mem_size :: u64
  pointer :: u64
  start_ptr :: u64
  wrap_around_cnt :: u64
  last_size :: u64

record alloc_flags =
  reuse_memory :: bool
  disable_tl_allocator :: bool

text \<open>
  The state of a thread: its buffer, once tl_buffer_get has created it. raw is what the
  freshly obtained memory of the buffer structure holds: the code sets only three of
  the six fields.
\<close>

definition tl_buffer_get :: "mem_buffer \<Rightarrow> mem_buffer option \<Rightarrow> mem_buffer" where
  "tl_buffer_get raw b = (case b of
     None \<Rightarrow> raw\<lparr>memory := 0, pointer := 0, last_size := 0\<rparr> | Some b \<Rightarrow> b)"

definition tlalloc_init :: "alloc_flags \<Rightarrow> mem_buffer \<Rightarrow> u64 \<Rightarrow> u64 \<Rightarrow> mem_buffer option \<Rightarrow> mem_buffer option" where
  "tlalloc_init fl raw mem num_tlabs b = (if disable_tl_allocator fl then b
     else Some ((tl_buffer_get raw b)\<lparr>mem_size := kTLABSize * num_tlabs, memory := mem,
       start_ptr := mem, wrap_around_cnt := 0, pointer := mem\<rparr>))"

record alloc_result =
  object :: u64
  extent :: u64

definition refill :: "alloc_flags \<Rightarrow> u64 \<Rightarrow> mem_buffer \<Rightarrow> mem_buffer" where
  "refill fl mem b = (if reuse_memory fl then b\<lparr>memory := start_ptr b, pointer := start_ptr b\<rparr>
     else b\<lparr>mem_size := kTLABSize, memory := mem, pointer := mem\<rparr>)"

text \<open>mem is the address the C library would return in this call.\<close>

definition tlmalloc :: "alloc_flags \<Rightarrow> mem_buffer \<Rightarrow> u64 \<Rightarrow> u64 \<Rightarrow> mem_buffer option
    \<Rightarrow> alloc_result \<times> mem_buffer option" where
  "tlmalloc fl raw mem sz0 b0 =
    (if disable_tl_allocator fl then (\<lparr>object = mem, extent = sz0\<rparr>, b0)
     else let sz = align_size sz0 (2 * kWordSize)
       in if sz > kPageSize then (\<lparr>object = mem, extent = sz\<rparr>, b0)
       else let b1 = tl_buffer_get raw b0;
              b2 = (if memory b1 = 0 \<or> pointer b1 + sz > memory b1 + mem_size b1 then refill fl mem b1 else b1)
         in (\<lparr>object = pointer b2, extent = sz\<rparr>,
             Some (b2\<lparr>pointer := pointer b2 + sz, last_size := sz\<rparr>)))"

definition tlmalloc_aligned :: "alloc_flags \<Rightarrow> mem_buffer \<Rightarrow> u64 \<Rightarrow> u64 \<Rightarrow> u64 \<Rightarrow> mem_buffer option
    \<Rightarrow> alloc_result \<times> mem_buffer option" where
  "tlmalloc_aligned fl raw mem sz0 alignment0 b0 =
    (if disable_tl_allocator fl then (\<lparr>object = mem, extent = sz0\<rparr>, b0)
     else let b1 = tl_buffer_get raw b0
       in if alignment0 = 0 then tlmalloc fl raw mem sz0 (Some b1)
       else let alignment = (if alignment0 > 4096 then 4096 else alignment0);
              sz = align_size sz0 alignment;
              b2 = (if memory b1 = 0 \<or> align_size (pointer b1) alignment + sz > memory b1 + mem_size b1
                then (if reuse_memory fl
                      then (refill fl mem b1)\<lparr>wrap_around_cnt := wrap_around_cnt b1 + 1\<rparr>
                      else refill fl mem b1)
                else b1);
              new_pointer = align_size (pointer b2) alignment
         in (\<lparr>object = new_pointer, extent = sz\<rparr>,
             Some (b2\<lparr>pointer := new_pointer + sz, last_size := sz\<rparr>)))"

text \<open>The zeroing variants: the object and the number of bytes their memset clears.\<close>

definition tlcalloc :: "alloc_flags \<Rightarrow> mem_buffer \<Rightarrow> u64 \<Rightarrow> u64 \<Rightarrow> u64 \<Rightarrow> mem_buffer option
    \<Rightarrow> alloc_result \<times> u64 \<times> mem_buffer option" where
  "tlcalloc fl raw mem num sz0 b0 = (let sz = sz0 * num; (r, b) = tlmalloc fl raw mem sz b0
     in (r, align_size sz (2 * kWordSize), b))"

definition tlcalloc_aligned :: "alloc_flags \<Rightarrow> mem_buffer \<Rightarrow> u64 \<Rightarrow> u64 \<Rightarrow> u64 \<Rightarrow> u64 \<Rightarrow> mem_buffer option
    \<Rightarrow> alloc_result \<times> u64 \<times> mem_buffer option" where
  "tlcalloc_aligned fl raw mem num sz0 alignment b0 =
    (let sz = sz0 * num; (r, b) = tlmalloc_aligned fl raw mem sz alignment b0
     in (r, align_size sz alignment, b))"

datatype memalign_result = Memalign_Ok u64 | EINVAL | ENOMEM

definition malloc_aligned :: "memalign_result \<Rightarrow> u64 \<Rightarrow> u64 \<Rightarrow> fault + alloc_result" where
  "malloc_aligned res sz alignment = (case res of
     EINVAL \<Rightarrow> Inl (Abort ''posix_memalign: EINVAL'')
   | ENOMEM \<Rightarrow> Inl (Abort ''posix_memalign: ENOMEM'')
   | Memalign_Ok mem \<Rightarrow> Inr \<lparr>object = mem, extent = sz\<rparr>)"

definition calloc_aligned :: "memalign_result \<Rightarrow> u64 \<Rightarrow> u64 \<Rightarrow> u64 \<Rightarrow> fault + alloc_result \<times> u64" where
  "calloc_aligned res num sz alignment =
     map_sum id (\<lambda>r. (r, align_size (num * sz) alignment)) (malloc_aligned res (num * sz) alignment)"

definition get_aligned :: "memalign_result \<Rightarrow> u64 \<Rightarrow> u64 \<Rightarrow> fault + alloc_result \<times> u64" where
  "get_aligned res sz alignment = (if alignment = 0
     then (case res of Memalign_Ok mem \<Rightarrow> Inr (\<lparr>object = mem, extent = sz\<rparr>, sz) | _ \<Rightarrow> Inr (\<lparr>object = 0, extent = 0\<rparr>, 0))
     else map_sum id (\<lambda>r. (r, sz)) (malloc_aligned res sz alignment))"

definition tlget_aligned :: "alloc_flags \<Rightarrow> mem_buffer \<Rightarrow> u64 \<Rightarrow> u64 \<Rightarrow> u64 \<Rightarrow> mem_buffer option
    \<Rightarrow> alloc_result \<times> u64 \<times> mem_buffer option" where
  "tlget_aligned fl raw mem sz alignment b =
     (if alignment = 0 then tlcalloc fl raw mem 1 sz b else tlcalloc_aligned fl raw mem 1 sz alignment b)"

definition tl_free_last :: "mem_buffer \<Rightarrow> mem_buffer option \<Rightarrow> fault + mem_buffer" where
  "tl_free_last raw b0 = (let b = tl_buffer_get raw b0
     in if last_size b = 0 then Inl (Abort ''tl_free_last: last malloc already freed'')
        else Inr (b\<lparr>pointer := pointer b - last_size b, last_size := 0\<rparr>))"

section \<open>Rounding, in natural numbers\<close>

definition round_up :: "nat \<Rightarrow> nat \<Rightarrow> nat" where
  "round_up n a = (if a = 0 \<or> n mod a = 0 then n else (n div a + 1) * a)"

lemma round_up_props:
  assumes "0 < a"
  shows "n \<le> round_up n a" "round_up n a < n + a" "round_up n a mod a = 0"
proof -
  define q r where "q = n div a * a" and "r = n mod a"
  have "n = q + r" "r < a" using assms by (simp_all add: q_def r_def)
  moreover have "round_up n a = (if r = 0 then n else q + a)" using assms by (simp add: round_up_def q_def r_def)
  ultimately show "n \<le> round_up n a" "round_up n a < n + a" using assms by simp_all
  show "round_up n a mod a = 0" using assms by (simp add: round_up_def)
qed

lemma round_up_le: "0 < a \<Longrightarrow> m mod a = 0 \<Longrightarrow> n \<le> m \<Longrightarrow> round_up n a \<le> m"
proof -
  assume a: "0 < a" "m mod a = 0" "n \<le> m"
  show ?thesis
  proof (rule ccontr)
    assume "\<not> round_up n a \<le> m"
    then have lt: "m < round_up n a" by simp
    obtain k where k: "m = k * a" using a(2) by (metis mod_0_imp_dvd dvd_div_mult_self)
    obtain j where j: "round_up n a = j * a" using round_up_props(3) [OF a(1)] by (metis mod_0_imp_dvd dvd_div_mult_self)
    have "k < j" using lt k j a(1) by simp
    then have "(k + 1) * a \<le> j * a" by (intro mult_le_mono1) simp
    then have "m + a \<le> round_up n a" using k j by simp
    then show False using round_up_props(2) [OF a(1), of n] a(3) by simp
  qed
qed

lemma align_size_unat:
  assumes "unat sz + unat alignment < 2 ^ 64"
  shows "unat (align_size sz alignment) = round_up (unat sz) (unat alignment)"
proof (cases "alignment = 0 \<or> sz mod alignment = 0")
  case True
  then have "unat alignment = 0 \<or> unat sz mod unat alignment = 0" by (metis unat_mod unat_0)
  then show ?thesis using True by (simp add: align_size_def round_up_def)
next
  case False
  let ?n = "unat sz" and ?a = "unat alignment"
  have "unat (sz mod alignment) \<noteq> 0" "?a \<noteq> 0" using False by (simp_all add: unat_eq_0 del: unat_mod)
  then have a: "0 < ?a" "?n mod ?a \<noteq> 0" unfolding unat_mod by simp_all
  have r: "round_up ?n ?a = (?n div ?a + 1) * ?a" using a by (simp add: round_up_def)
  then have b: "(?n div ?a + 1) * ?a < 2 ^ 64" using round_up_props(2) [OF a(1), of ?n] assms by simp
  have "(?n div ?a + 1) * 1 \<le> (?n div ?a + 1) * ?a" using a(1) by (intro mult_le_mono2) simp
  then have "?n div ?a + 1 \<le> (?n div ?a + 1) * ?a" by (simp only: mult_1_right)
  then have "?n div ?a + 1 < 2 ^ 64" using b by (rule le_less_trans)
  then have "unat (sz div alignment + 1) = ?n div ?a + 1" by (simp add: unat_word_ariths unat_div)
  then have "unat ((sz div alignment + 1) * alignment) = (?n div ?a + 1) * ?a"
    using b by (simp add: unat_word_ariths)
  then show ?thesis using False r by (simp add: align_size_def)
qed

section \<open>Runs of allocations\<close>

text \<open>
  A request is a size, an alignment (0 is a call of tlmalloc) and the address that the C
  library would return if the call obtained memory from it.
\<close>

type_synonym request = "u64 \<times> u64 \<times> u64"

fun alloc_run :: "alloc_flags \<Rightarrow> mem_buffer \<Rightarrow> request list \<Rightarrow> mem_buffer option \<Rightarrow> alloc_result list" where
  "alloc_run fl raw [] b = []"
| "alloc_run fl raw ((sz, al, mem) # rs) b =
     (let (r, b') = tlmalloc_aligned fl raw mem sz al b in r # alloc_run fl raw rs b')"

definition clamp :: "u64 \<Rightarrow> nat" where
  "clamp al = (if al = 0 then 16 else if al > 4096 then 4096 else unat al)"

text \<open>The bytes of an object, those a buffer has left, and those that a call may obtain.\<close>

definition span :: "alloc_result \<Rightarrow> nat set" where
  "span r = {unat (object r) ..< unat (object r) + unat (extent r)}"

definition unused :: "mem_buffer \<Rightarrow> nat set" where
  "unused b = (if memory b = 0 then {} else {unat (pointer b) ..< unat (memory b) + unat (mem_size b)})"

definition direct :: "u64 \<Rightarrow> u64 \<Rightarrow> bool" where
  "direct sz al \<longleftrightarrow> al = 0 \<and> 4096 < round_up (unat sz) 16"

definition region :: "request \<Rightarrow> nat set" where
  "region q = (case q of (sz, al, mem) \<Rightarrow> {unat mem ..< unat mem + (if direct sz al then round_up (unat sz) 16 else 4096)})"

definition buf_ok :: "mem_buffer \<Rightarrow> bool" where
  "buf_ok b \<longleftrightarrow> memory b \<noteq> 0 \<and> unat (memory b) + unat (mem_size b) + 4096 < 2 ^ 64 \<and>
     unat (memory b) \<le> unat (pointer b) \<and> unat (pointer b) \<le> unat (memory b) + unat (mem_size b)"

text \<open>A buffer a call may start with: none yet, or one that does not reach the end of the address space.\<close>

definition ready :: "mem_buffer \<Rightarrow> bool" where
  "ready b \<longleftrightarrow> memory b = 0 \<or> buf_ok b \<and> unat (memory b) + unat (mem_size b) + 8192 < 2 ^ 64"

text \<open>
  A request that a page can serve: the alignment divides the page, and the rounded size is at
  most a page unless tlmalloc passes the request on. What posix_memalign returns is on a page
  boundary.
\<close>

definition request_ok :: "request \<Rightarrow> bool" where
  "request_ok q = (case q of (sz, al, mem) \<Rightarrow>
     unat sz + 16 < 2 ^ 64 \<and> (al \<noteq> 0 \<longrightarrow> 4096 mod clamp al = 0 \<and> round_up (unat sz) (clamp al) \<le> 4096) \<and>
     (direct sz al \<or> mem \<noteq> 0 \<and> unat mem mod 4096 = 0 \<and> unat mem + 3 * 4096 < 2 ^ 64))"

lemma clamp_bounds [simp]: "0 < clamp al" "clamp al \<le> 4096"
  by (auto simp: clamp_def word_less_nat_alt word_le_nat_alt unat_gt_0)

lemma clamp_word: "al \<noteq> 0 \<Longrightarrow> unat (if al > 4096 then 4096 else al) = clamp al"
  by (simp add: clamp_def)

lemma round_up_id: "n mod a = 0 \<Longrightarrow> round_up n a = n"
  by (simp add: round_up_def)

lemma sum_unat: "unat x + unat y < 2 ^ 64 \<Longrightarrow> unat (x + y) = unat x + unat (y :: u64)"
  by (rule unat_add_no_overflow) simp

text \<open>
  The last lines of both functions: the object is taken behind p, which is the pointer rounded
  up, from a buffer that has the room.
\<close>

lemma bump:
  assumes "ready b" "memory b \<noteq> 0" "unat (pointer b) \<le> unat p" "unat p + unat n \<le> unat (memory b) + unat (mem_size b)"
  defines "b' \<equiv> b\<lparr>pointer := p + n, last_size := n\<rparr>"
  shows "ready b'" "span \<lparr>object = p, extent = n\<rparr> \<subseteq> unused b" "unused b' \<subseteq> unused b"
    "span \<lparr>object = p, extent = n\<rparr> \<inter> unused b' = {}"
proof -
  have "unat (p + n) = unat p + unat n" by (rule sum_unat) (use assms(1,2,4) in \<open>simp add: ready_def\<close>)
  then show "ready b'" "span \<lparr>object = p, extent = n\<rparr> \<subseteq> unused b" "unused b' \<subseteq> unused b"
    "span \<lparr>object = p, extent = n\<rparr> \<inter> unused b' = {}"
    using assms(1-4) by (auto simp: b'_def ready_def buf_ok_def span_def unused_def)
qed

lemma page_ready:
  assumes "memory b2 = mem" "pointer b2 = mem" "mem_size b2 = 4096" "mem \<noteq> 0" "unat mem + 3 * 4096 < 2 ^ 64"
  shows "ready b2" "unused b2 = {unat mem ..< unat mem + 4096}"
  using assms by (simp_all add: ready_def buf_ok_def unused_def)

lemma guard_unat:
  assumes "ready b" "memory b \<noteq> 0" "unat p + unat n < 2 ^ 64"
  shows "p + n > memory b + mem_size b \<longleftrightarrow> unat (memory b) + unat (mem_size b) < unat p + unat n"
proof -
  have "unat (memory b + mem_size b) = unat (memory b) + unat (mem_size b)"
    by (rule sum_unat) (use assms(1,2) in \<open>simp add: ready_def\<close>)
  moreover have "unat (p + n) = unat p + unat n" by (rule sum_unat) (rule assms(3))
  ultimately show ?thesis by (simp add: word_less_nat_alt)
qed

definition serves :: "mem_buffer \<Rightarrow> request \<Rightarrow> alloc_result \<times> mem_buffer option \<Rightarrow> bool" where
  "serves b q res \<longleftrightarrow> (case (q, res) of
     ((sz, al, mem), (r, Some b')) \<Rightarrow> ready b' \<and> unat sz \<le> unat (extent r) \<and> (al \<noteq> 0 \<longrightarrow> unat (object r) mod clamp al = 0) \<and>
       span r \<subseteq> unused b \<union> region q \<and> unused b' \<subseteq> unused b \<union> region q \<and> span r \<inter> unused b' = {}
   | _ \<Rightarrow> False)"

lemma bump_serves:
  assumes "ready b2" "memory b2 \<noteq> 0" "unused b2 \<subseteq> unused b \<union> region (sz, al, mem)" "unat (pointer b2) \<le> unat p"
    and "unat p + unat n \<le> unat (memory b2) + unat (mem_size b2)" "unat sz \<le> unat n" "al \<noteq> 0 \<Longrightarrow> unat p mod clamp al = 0"
  shows "serves b (sz, al, mem) (\<lparr>object = p, extent = n\<rparr>, Some (b2\<lparr>pointer := p + n, last_size := n\<rparr>))"
  using bump [OF assms(1,2,4,5)] assms(3,6,7) by (auto simp: serves_def)

lemma malloc_serves:
  assumes "ready b" "request_ok (sz, 0, mem)" "unused b \<inter> region (sz, 0, mem) = {}"
    and "\<not> disable_tl_allocator fl" "\<not> reuse_memory fl"
  shows "serves b (sz, 0, mem) (tlmalloc fl raw mem sz (Some b))"
proof -
  let ?n = "align_size sz 16"
  have n: "unat ?n = round_up (unat sz) 16"
    by (subst align_size_unat) (use assms(2) in \<open>simp_all add: request_ok_def\<close>)
  have sz: "unat sz \<le> unat ?n" unfolding n by (rule round_up_props) simp
  show ?thesis
  proof (cases "direct sz 0")
    case True
    then have "?n > 4096" by (simp add: direct_def word_less_nat_alt n)
    then have "tlmalloc fl raw mem sz (Some b) = (\<lparr>object = mem, extent = ?n\<rparr>, Some b)"
      using assms(4) by (simp add: tlmalloc_def kWordSize_def kPageSize_def)
    moreover have "span \<lparr>object = mem, extent = ?n\<rparr> = region (sz, 0, mem)" using True n by (simp add: span_def region_def)
    ultimately show ?thesis using assms(1,3) sz by (auto simp: serves_def)
  next
    case False
    then have small: "unat ?n \<le> 4096" "\<not> ?n > 4096" by (simp_all add: direct_def word_less_nat_alt n not_less)
    have m: "mem \<noteq> 0" "unat mem + 3 * 4096 < 2 ^ 64" using assms(2) False by (simp_all add: request_ok_def)
    let ?g = "memory b = 0 \<or> pointer b + ?n > memory b + mem_size b"
    let ?b2 = "if ?g then refill fl mem b else b"
    have e: "tlmalloc fl raw mem sz (Some b) =
        (\<lparr>object = pointer ?b2, extent = ?n\<rparr>, Some (?b2\<lparr>pointer := pointer ?b2 + ?n, last_size := ?n\<rparr>))"
      using assms(4) small(2) by (simp add: tlmalloc_def Let_def kWordSize_def kPageSize_def tl_buffer_get_def)
    show ?thesis
    proof (cases ?g)
      case True
      have f: "memory (refill fl mem b) = mem" "pointer (refill fl mem b) = mem" "mem_size (refill fl mem b) = 4096"
        using assms(5) by (simp_all add: refill_def kTLABSize_def kPageSize_def)
      note P = page_ready [OF f m]
      show ?thesis unfolding e if_P [OF True]
        by (rule bump_serves [OF P(1)]) (use f m P(2) False small sz in \<open>simp_all add: region_def\<close>)
    next
      case False
      then have nz: "memory b \<noteq> 0" by simp
      have "unat (pointer b) + unat ?n < 2 ^ 64" using assms(1) nz small(1) by (simp add: ready_def buf_ok_def)
      then have "unat (pointer b) + unat ?n \<le> unat (memory b) + unat (mem_size b)"
        using False guard_unat [OF assms(1) nz, of "pointer b" ?n] by auto
      then show ?thesis unfolding e if_not_P [OF False]
        by (intro bump_serves [OF assms(1) nz]) (use sz in simp_all)
    qed
  qed
qed

lemma aligned_serves:
  assumes "ready b" "request_ok (sz, al, mem)" "al \<noteq> 0" "\<not> disable_tl_allocator fl" "\<not> reuse_memory fl"
  shows "serves b (sz, al, mem) (tlmalloc_aligned fl raw mem sz al (Some b))"
proof -
  define a where "a = (if al > 4096 then 4096 else al)"
  have ua: "unat a = clamp al" unfolding a_def by (rule clamp_word [OF assms(3)])
  let ?n = "align_size sz a"
  have q: "4096 mod clamp al = 0" "round_up (unat sz) (clamp al) \<le> 4096" "mem \<noteq> 0" "unat mem mod 4096 = 0"
    "unat mem + 3 * 4096 < 2 ^ 64"
    using assms(2,3) by (simp_all add: request_ok_def direct_def)
  note R = round_up_props [of "clamp al", OF clamp_bounds(1)]
  have sz0: "unat sz \<le> 4096" using R(1) [of "unat sz"] q(2) by simp
  have n: "unat ?n = round_up (unat sz) (clamp al)"
  proof (subst align_size_unat)
    have "unat sz + clamp al \<le> 8192" using sz0 clamp_bounds(2) [of al] by linarith
    then show "unat sz + unat a < 2 ^ 64" unfolding ua by simp
  qed (simp add: ua)
  have sz: "unat sz \<le> unat ?n" "unat ?n \<le> 4096" unfolding n by (rule R(1)) (rule q(2))
  let ?g = "memory b = 0 \<or> align_size (pointer b) a + ?n > memory b + mem_size b"
  let ?b2 = "if ?g then refill fl mem b else b"
  let ?p = "align_size (pointer ?b2) a"
  have e: "tlmalloc_aligned fl raw mem sz al (Some b) =
      (\<lparr>object = ?p, extent = ?n\<rparr>, Some (?b2\<lparr>pointer := ?p + ?n, last_size := ?n\<rparr>))"
    using assms(3-5) by (simp add: tlmalloc_aligned_def Let_def tl_buffer_get_def flip: a_def)
  show ?thesis
  proof (cases ?g)
    case True
    have f: "memory (refill fl mem b) = mem" "pointer (refill fl mem b) = mem" "mem_size (refill fl mem b) = 4096"
      using assms(5) by (simp_all add: refill_def kTLABSize_def kPageSize_def)
    note P = page_ready [OF f q(3,5)]
    have m: "unat mem mod clamp al = 0" using q(1,4) by (metis mod_0_imp_dvd dvd_imp_mod_0 dvd_trans)
    have "unat mem + clamp al < 2 ^ 64" using q(5) clamp_bounds(2) [of al] by linarith
    then have pm: "unat (align_size mem a) = unat mem"
      by (subst align_size_unat) (simp_all add: ua round_up_id [OF m])
    show ?thesis unfolding e if_P [OF True]
      by (rule bump_serves [OF P(1)]) (use f q(3) P(2) sz pm m assms(3) in \<open>simp_all add: region_def direct_def\<close>)
  next
    case False
    then have nz: "memory b \<noteq> 0" by simp
    have u: "unat (pointer b) + 8192 < 2 ^ 64" using assms(1) nz by (simp add: ready_def buf_ok_def)
    have p: "unat (align_size (pointer b) a) = round_up (unat (pointer b)) (clamp al)"
    proof (subst align_size_unat)
      show "unat (pointer b) + unat a < 2 ^ 64" using u clamp_bounds(2) [of al] unfolding ua by linarith
    qed (simp add: ua)
    have pl: "unat (pointer b) \<le> unat (align_size (pointer b) a)" "unat (align_size (pointer b) a) < unat (pointer b) + clamp al"
      unfolding p by (rule R(1)) (rule R(2))
    have "unat (align_size (pointer b) a) + unat ?n < 2 ^ 64" using u pl sz clamp_bounds(2) [of al] by linarith
    then have "unat (align_size (pointer b) a) + unat ?n \<le> unat (memory b) + unat (mem_size b)"
      using False guard_unat [OF assms(1) nz, of "align_size (pointer b) a" ?n] by auto
    then show ?thesis unfolding e if_not_P [OF False]
      by (intro bump_serves [OF assms(1) nz]) (use sz pl p R(3) in simp_all)
  qed
qed

lemma request_served:
  assumes "ready (tl_buffer_get raw b)" "request_ok (sz, al, mem)" "unused (tl_buffer_get raw b) \<inter> region (sz, al, mem) = {}"
    and "\<not> disable_tl_allocator fl" "\<not> reuse_memory fl"
  shows "serves (tl_buffer_get raw b) (sz, al, mem) (tlmalloc_aligned fl raw mem sz al b)"
proof -
  have "tlmalloc_aligned fl raw mem sz al b = tlmalloc_aligned fl raw mem sz al (Some (tl_buffer_get raw b))"
    using assms(4) by (simp add: tlmalloc_aligned_def tl_buffer_get_def)
  moreover have "tlmalloc_aligned fl raw mem sz 0 (Some c) = tlmalloc fl raw mem sz (Some c)" for c
    using assms(4) by (simp add: tlmalloc_aligned_def tl_buffer_get_def)
  ultimately show ?thesis
    using malloc_serves [OF assms(1) _ _ assms(4,5)] aligned_serves [OF assms(1,2) _ assms(4,5)] assms(2,3)
    by (cases "al = 0") simp_all
qed









section \<open>Properties\<close>

text \<open>
  C13: a thread that does not reuse memory makes any sequence of tlmalloc and tlmalloc_aligned
  calls, from any state of its buffer (none yet, or partly used), with as many refills as it
  takes: every object has at least the requested size and the requested alignment, lies in the
  unused part of the first buffer or in memory that the C library gave to one of the calls,
  and no two objects overlap. The alignments divide the page size and the rounded sizes are at
  most a page, unless tlmalloc passes the request on; the regions the C library would return
  do not overlap each other nor the buffer, and no region ends within the last two pages of the
  address space.
\<close>

theorem alloc_run_disjoint:
  assumes "\<not> disable_tl_allocator fl" "\<not> reuse_memory fl" "ready (tl_buffer_get raw b)"
    and "list_all request_ok rs" "list_all (\<lambda>q. unused (tl_buffer_get raw b) \<inter> region q = {}) rs"
    and "sorted_wrt (\<lambda>q q'. region q \<inter> region q' = {}) rs"
  shows "list_all2 (\<lambda>(sz, al, mem) r. unat sz \<le> unat (extent r) \<and> (al \<noteq> 0 \<longrightarrow> unat (object r) mod clamp al = 0))
      rs (alloc_run fl raw rs b) \<and>
    list_all (\<lambda>r. span r \<subseteq> unused (tl_buffer_get raw b) \<union> \<Union> (region ` set rs)) (alloc_run fl raw rs b) \<and>
    sorted_wrt (\<lambda>r r'. span r \<inter> span r' = {}) (alloc_run fl raw rs b)"
  using assms(3-6)
proof (induction rs arbitrary: b)
  case (Cons q rs)
  obtain sz al mem where q: "q = (sz, al, mem)" by (cases q)
  let ?b = "tl_buffer_get raw b"
  have "serves ?b q (tlmalloc_aligned fl raw mem sz al b)"
    using request_served [OF Cons.prems(1) _ _ assms(1,2)] Cons.prems(2,3) q by simp
  then obtain r b' where s: "tlmalloc_aligned fl raw mem sz al b = (r, Some b')" "ready b'" "unat sz \<le> unat (extent r)"
    "al \<noteq> 0 \<longrightarrow> unat (object r) mod clamp al = 0" "span r \<subseteq> unused ?b \<union> region q" "unused b' \<subseteq> unused ?b \<union> region q"
    "span r \<inter> unused b' = {}"
    unfolding serves_def q by (cases "tlmalloc_aligned fl raw mem sz al b") (auto split: option.splits)
  have g: "tl_buffer_get raw (Some b') = b'" by (simp add: tl_buffer_get_def)
  have dis: "(unused ?b \<union> region q) \<inter> region q' = {}" if "q' \<in> set rs" for q'
    using Cons.prems(3,4) that by (auto simp: list_all_iff)
  have IH: "list_all2 (\<lambda>(sz, al, mem) r. unat sz \<le> unat (extent r) \<and> (al \<noteq> 0 \<longrightarrow> unat (object r) mod clamp al = 0))
      rs (alloc_run fl raw rs (Some b')) \<and>
    list_all (\<lambda>r. span r \<subseteq> unused b' \<union> \<Union> (region ` set rs)) (alloc_run fl raw rs (Some b')) \<and>
    sorted_wrt (\<lambda>r r'. span r \<inter> span r' = {}) (alloc_run fl raw rs (Some b'))"
  proof (rule Cons.IH [of "Some b'", unfolded g])
    show "list_all (\<lambda>q'. unused b' \<inter> region q' = {}) rs" using dis s(6) by (fastforce simp: list_all_iff)
  qed (use s(2) Cons.prems in simp_all)
  have run: "alloc_run fl raw (q # rs) b = r # alloc_run fl raw rs (Some b')" using s(1) q by simp
  have within: "span r' \<subseteq> unused b' \<union> \<Union> (region ` set rs)" if "r' \<in> set (alloc_run fl raw rs (Some b'))" for r'
    using IH that by (simp add: list_all_iff)
  have "span r \<inter> span r' = {}" if "r' \<in> set (alloc_run fl raw rs (Some b'))" for r'
    using within [OF that] s(5,7) dis by blast
  moreover have "span r' \<subseteq> unused ?b \<union> \<Union> (region ` set (q # rs))" if "r' \<in> set (alloc_run fl raw rs (Some b'))" for r'
    using within [OF that] s(6) by auto
  ultimately show ?case unfolding run using IH s(3-5) q by (auto simp: list_all_iff)
qed simp

definition fresh_buffer :: mem_buffer where
  "fresh_buffer = \<lparr>memory = 8192, mem_size = 8192, pointer = 8192, start_ptr = 8192, wrap_around_cnt = 0, last_size = 0\<rparr>"

definition tight_requests :: "request list" where
  "tight_requests = [(4000, 0, 4096 * 10), (8, 64, 4096 * 11), (4096, 4096, 4096 * 12), (24, 0, 4096 * 13), (9000, 0, 4096 * 14)]"

lemma alloc_run_disjoint_witness:
  "sorted_wrt (\<lambda>r r'. span r \<inter> span r' = {})
     (alloc_run \<lparr>reuse_memory = False, disable_tl_allocator = False\<rparr> fresh_buffer tight_requests (Some fresh_buffer)) \<and>
   map object (alloc_run \<lparr>reuse_memory = False, disable_tl_allocator = False\<rparr> fresh_buffer tight_requests (Some fresh_buffer)) =
     [8192, 12224, 12288, 53248, 57344]"
proof -
  have "map object (alloc_run \<lparr>reuse_memory = False, disable_tl_allocator = False\<rparr> fresh_buffer tight_requests (Some fresh_buffer)) =
     [8192, 12224, 12288, 53248, 57344]"
    by (simp add: tight_requests_def fresh_buffer_def tlmalloc_aligned_def tlmalloc_def Let_def tl_buffer_get_def align_size_def
        refill_def kTLABSize_def kPageSize_def kWordSize_def)
  moreover have "sorted_wrt (\<lambda>r r'. span r \<inter> span r' = {})
     (alloc_run \<lparr>reuse_memory = False, disable_tl_allocator = False\<rparr> fresh_buffer tight_requests (Some fresh_buffer))"
    by (rule alloc_run_disjoint [THEN conjunct2, THEN conjunct2])
      (simp_all add: tight_requests_def fresh_buffer_def tl_buffer_get_def ready_def buf_ok_def request_ok_def region_def
        unused_def direct_def round_up_def clamp_def)
  ultimately show ?thesis by simp
qed



text \<open>
  tlcalloc clears exactly the bytes of the object it returns when the thread local
  allocator is enabled; with the allocator disabled it clears the rounded size of an
  object for which only the size itself was requested from malloc.
\<close>

theorem tlcalloc_clears:
  "case tlcalloc fl raw mem num sz b of (r, cleared, b') \<Rightarrow>
     cleared = align_size (sz * num) 16 \<and>
     extent r = (if disable_tl_allocator fl then sz * num else cleared)"
  by (simp add: tlcalloc_def tlmalloc_def Let_def kWordSize_def)

text \<open>
  Calloc_aligned clears more than it allocated: the allocation has num * size bytes,
  the memset clears that rounded up to the alignment, so the write passes the end of
  the object exactly when the size is not a multiple of the alignment.
\<close>

theorem calloc_aligned_overflow:
  assumes "unat (num * sz) + unat alignment < 2 ^ 64" "alignment \<noteq> 0"
  shows "\<exists>r cleared. calloc_aligned (Memalign_Ok mem) num sz alignment = Inr (r, cleared) \<and>
    (unat (extent r) < unat cleared \<longleftrightarrow> unat (num * sz) mod unat alignment \<noteq> 0)"
proof -
  have a: "0 < unat alignment" using assms(2) by (simp add: unat_gt_0)
  have "unat (num * sz) \<le> round_up (unat (num * sz)) (unat alignment)"
    "round_up (unat (num * sz)) (unat alignment) mod unat alignment = 0"
    using round_up_props [OF a] by simp_all
  then show ?thesis
    using a align_size_unat [OF assms(1)]
    by (auto simp: calloc_aligned_def malloc_aligned_def le_less round_up_def)
qed

lemma calloc_aligned_overflow_witness:
  "\<exists>r cleared. calloc_aligned (Memalign_Ok 4096) 3 8 128 = Inr (r, cleared) \<and>
    (unat (extent r) < unat cleared \<longleftrightarrow> unat (3 * 8 :: u64) mod unat (128 :: u64) \<noteq> 0)"
  by (rule calloc_aligned_overflow) simp_all

text \<open>
  C15: tlmalloc_aligned does not test whether a request fits the buffer at all: when it
  reuses memory, a request that rounds to more than the buffer size returns an object
  that ends behind the buffer.
\<close>

theorem tlmalloc_aligned_overflow:
  assumes "buf_ok b" "start_ptr b = memory b" "reuse_memory fl" "\<not> disable_tl_allocator fl" "al \<noteq> 0"
    and "unat (mem_size b) < round_up (unat sz) (clamp al)"
    and "unat (memory b) + round_up (unat sz) (clamp al) + 8192 < 2 ^ 64"
    and "unat (pointer b) + round_up (unat sz) (clamp al) + 8192 < 2 ^ 64"
  shows "case tlmalloc_aligned fl raw mem sz al (Some b) of (r, b') \<Rightarrow>
    unat (memory b) + unat (mem_size b) < unat (object r) + unat (extent r)"
proof -
  define a where "a = (if al > 4096 then 4096 else al)"
  have ua: "unat a = clamp al" using assms(5) by (simp add: a_def clamp_def)
  note R = round_up_props [of "clamp al"]
  have c: "clamp al \<le> 4096" "0 < clamp al" by simp_all
  have sz: "unat sz \<le> round_up (unat sz) (clamp al)" using R(1) by simp
  have s: "unat (align_size sz a) = round_up (unat sz) (clamp al)"
  proof -
    have "unat sz + unat a < 2 ^ 64" unfolding ua using sz assms(7) c by linarith
    from align_size_unat [OF this] show ?thesis by (simp only: ua)
  qed
  have p: "unat (align_size x a) = round_up (unat x) (clamp al)" if "unat x + 4096 < 2 ^ 64" for x
  proof -
    have "unat x + unat a < 2 ^ 64" unfolding ua using that c by linarith
    from align_size_unat [OF this] show ?thesis by (simp only: ua)
  qed
  have m: "unat (memory b + mem_size b) = unat (memory b) + unat (mem_size b)"
    using assms(1) by (subst unat_add_no_overflow) (simp_all add: buf_ok_def)
  have pp: "unat (align_size (pointer b) a) = round_up (unat (pointer b)) (clamp al)" using p assms(8) by simp
  have pl: "unat (pointer b) \<le> round_up (unat (pointer b)) (clamp al)"
    "round_up (unat (pointer b)) (clamp al) < unat (pointer b) + clamp al"
    using R(1,2) [of "unat (pointer b)"] by simp_all
  have e: "unat (align_size (pointer b) a + align_size sz a) =
      round_up (unat (pointer b)) (clamp al) + round_up (unat sz) (clamp al)"
  proof -
    have "unat (align_size (pointer b) a) + unat (align_size sz a) < 2 ^ 64"
      unfolding pp s using pl c assms(8) by linarith
    from unat_add_no_overflow [OF this] show ?thesis by (simp only: pp s)
  qed
  have "align_size (pointer b) a + align_size sz a > memory b + mem_size b"
    using e m pl(1) assms(1,6) by (simp add: word_less_nat_alt buf_ok_def)
  then have r: "fst (tlmalloc_aligned fl raw mem sz al (Some b)) =
      \<lparr>object = align_size (memory b) a, extent = align_size sz a\<rparr>"
    using assms(2-5) by (simp add: tlmalloc_aligned_def Let_def tl_buffer_get_def refill_def flip: a_def)
  have "unat (align_size (memory b) a) = round_up (unat (memory b)) (clamp al)" using p assms(7) by simp
  moreover have "unat (memory b) \<le> round_up (unat (memory b)) (clamp al)" using R(1) by simp
  ultimately have "unat (memory b) + unat (mem_size b) <
      unat (object (fst (tlmalloc_aligned fl raw mem sz al (Some b)))) +
      unat (extent (fst (tlmalloc_aligned fl raw mem sz al (Some b))))"
    using s assms(6) unfolding r by simp
  then show ?thesis by (simp add: case_prod_beta)
qed

lemma tlmalloc_aligned_overflow_witness:
  "case tlmalloc_aligned \<lparr>reuse_memory = True, disable_tl_allocator = False\<rparr> fresh_buffer 0 8200 128 (Some fresh_buffer) of
     (r, b') \<Rightarrow> unat (memory fresh_buffer) + unat (mem_size fresh_buffer) < unat (object r) + unat (extent r)"
  by (rule tlmalloc_aligned_overflow) (simp_all add: fresh_buffer_def buf_ok_def round_up_def clamp_def)

text \<open>
  Human_size_to_pages on a number followed by one more character: the number is
  scaled by k, m or g (1024 to the power 1, 2, 3) and rounded up to pages. The last
  character is never part of the number, so that for a plain number of bytes the last
  digit is lost.
\<close>

theorem human_size_pages:
  assumes "list_all (\<lambda>c. digit c \<noteq> None) ds" "0 < digits 0 ds"
    and "digits 0 ds * unat (multiplier c) < 2 ^ 63"
  shows "\<exists>p. human_size_to_pages (ds @ [c]) = Inr p \<and>
    digits 0 ds * unat (multiplier c) \<le> unat p * 4096 \<and>
    unat p * 4096 < digits 0 ds * unat (multiplier c) + 4096"
proof -
  let ?v = "digits 0 ds" and ?m = "multiplier c"
  have m: "unat ?m \<ge> 1" by (simp add: multiplier_def)
  have "?v * 1 \<le> ?v * unat ?m" using m by (intro mult_le_mono2)
  then have "?v \<le> ?v * unat ?m" by (simp only: mult_1_right)
  then have v: "?v < 2 ^ 63" using assms(3) by (rule le_less_trans)
  have st: "strtol ds = int ?v" by (rule strtol_digits [OF assms(1) v])
  have uv: "unat (of_nat ?v :: u64) = ?v" using v by (simp add: unsigned_of_nat take_bit_nat_eq_self)
  have nz: "(of_nat ?v :: u64) \<noteq> 0"
  proof
    assume "(of_nat ?v :: u64) = 0"
    then have "unat (of_nat ?v :: u64) = 0" by simp
    then show False using uv assms(2) by simp
  qed
  have ub: "unat (of_nat ?v * ?m) = ?v * unat ?m" using uv assms(3) by (simp add: unat_word_ariths)
  define b where "b = of_nat ?v * ?m"
  define p where "p = (if b mod 4096 = 0 then b div 4096 else b div 4096 + 1)"
  have h: "human_size_to_pages (ds @ [c]) = Inr p"
    by (cases ds) (use nz st in \<open>simp_all add: human_size_to_pages_def Let_def b_def p_def butlast_append\<close>)
  have "unat (b div 4096 + 1) = unat b div 4096 + 1"
  proof -
    have "unat b div 4096 < 2 ^ 63" using ub assms(3) by (simp add: b_def)
    then show ?thesis by (simp add: unat_word_ariths unat_div)
  qed
  moreover have "b mod 4096 = 0 \<longleftrightarrow> unat b mod 4096 = 0"
  proof -
    have "unat (b mod 4096) = unat b mod 4096" by (simp add: unat_mod)
    then show ?thesis using unat_eq_0 [of "b mod 4096"] by simp
  qed
  ultimately have "unat p = (if unat b mod 4096 = 0 then unat b div 4096 else unat b div 4096 + 1)"
    by (simp add: p_def unat_div)
  then have "unat p * 4096 = round_up (unat b) 4096"
    by (auto simp: round_up_def simp flip: mod_eq_0_iff_dvd)
  then have "unat b \<le> unat p * 4096" "unat p * 4096 < unat b + 4096"
    using round_up_props(1,2) [of 4096 "unat b"] by simp_all
  then show ?thesis using h ub by (auto simp: b_def)
qed

lemma human_size_pages_witness:
  "\<exists>p. human_size_to_pages (''819'' @ ''2'') = Inr p \<and>
     digits 0 ''819'' * unat (multiplier CHR ''2'') \<le> unat p * 4096 \<and>
     unat p * 4096 < digits 0 ''819'' * unat (multiplier CHR ''2'') + 4096"
  by (rule human_size_pages) (simp_all add: digit_def multiplier_def)

end
