(* ===== verification/Timestamps.thy ===== *)
theory Timestamps
  imports Rely_Guarantee
begin

text \<open>
  The timestamp classes of src/src/datastructures/ts_timestamp.h. A timestamp is one
  64 bit word, or a pair of words for the interval classes; each class is a record of
  its pure operations, and the locale timestamp_class states the contract the buffers
  rely on. The hardware clock is a parameter (the n-th reading of the counter); the
  stuttering clock, which reads the clocks of all threads without synchronisation, is
  a program of the theory Concurrency.
\<close>

section \<open>The pure operations of the classes\<close>

definition UINT64_MAX :: u64 where
  "UINT64_MAX = - 1"

record 'ts ts_class =
  init_sentinel :: 'ts
  init_top :: 'ts
  load_timestamp :: "'ts \<Rightarrow> 'ts"
  is_later :: "'ts \<Rightarrow> 'ts \<Rightarrow> bool"

definition HardwareTimestamp :: "u64 ts_class" where
  "HardwareTimestamp = \<lparr>init_sentinel = 0, init_top = UINT64_MAX, load_timestamp = (\<lambda>s. s),
     is_later = (\<lambda>t1 t2. t2 < t1)\<rparr>"

definition HardwareIntervalTimestamp :: "(u64 \<times> u64) ts_class" where
  "HardwareIntervalTimestamp = \<lparr>init_sentinel = (0, 0), init_top = (UINT64_MAX, UINT64_MAX),
     load_timestamp = (\<lambda>s. s), is_later = (\<lambda>t1 t2. snd t2 < fst t1)\<rparr>"

definition SimulatedIntervalTimestamp :: "(u64 \<times> u64) ts_class" where
  "SimulatedIntervalTimestamp = \<lparr>init_sentinel = (0, 0), init_top = (UINT64_MAX, UINT64_MAX),
     load_timestamp = (\<lambda>s. s), is_later = (\<lambda>t1 t2. snd t2 < fst t1)\<rparr>"

definition AtomicCounterTimestamp :: "u64 ts_class" where
  "AtomicCounterTimestamp = \<lparr>init_sentinel = 0, init_top = UINT64_MAX, load_timestamp = (\<lambda>s. s),
     is_later = (\<lambda>t1 t2. t2 < t1)\<rparr>"

definition StutteringTimestamp :: "u64 ts_class" where
  "StutteringTimestamp = \<lparr>init_sentinel = 0, init_top = UINT64_MAX, load_timestamp = (\<lambda>s. s),
     is_later = (\<lambda>t1 t2. t2 < t1)\<rparr>"

lemmas ts_class_defs = HardwareTimestamp_def HardwareIntervalTimestamp_def
  SimulatedIntervalTimestamp_def AtomicCounterTimestamp_def StutteringTimestamp_def

text \<open>
  The contract: on the timestamps in use (an interval does not end before it begins)
  is_later is a strict order that is an interval order (of two pairs of ordered stamps
  one also orders crosswise), the sentinel is not later than anything and nothing is
  later than the top.
\<close>

locale timestamp_class =
  fixes cls :: "'ts ts_class"
    and wf :: "'ts \<Rightarrow> bool"
  assumes wf_ends: "wf (init_sentinel cls)" "wf (init_top cls)"
    and later_irrefl: "wf a \<Longrightarrow> \<not> is_later cls a a"
    and later_cross: "wf a \<Longrightarrow> wf b \<Longrightarrow> wf c \<Longrightarrow> wf d \<Longrightarrow> is_later cls a b \<Longrightarrow> is_later cls c d \<Longrightarrow>
      is_later cls a d \<or> is_later cls c b"
    and sentinel_least: "wf a \<Longrightarrow> \<not> is_later cls (init_sentinel cls) a"
    and top_greatest: "wf a \<Longrightarrow> \<not> is_later cls a (init_top cls)"
begin

lemma later_trans: "wf a \<Longrightarrow> wf b \<Longrightarrow> wf c \<Longrightarrow> is_later cls a b \<Longrightarrow> is_later cls b c \<Longrightarrow> is_later cls a c"
  using later_cross [of a b b c] later_irrefl by blast

lemma later_asym: "wf a \<Longrightarrow> wf b \<Longrightarrow> is_later cls a b \<Longrightarrow> \<not> is_later cls b a"
  using later_trans later_irrefl by blast

text \<open>
  The search of the buffers for the youngest element: it keeps a candidate and replaces
  it by every later one it meets. Nothing it has looked at is later than the result.
\<close>

lemma youngest_max:
  assumes "wf m" "list_all wf xs"
  shows "\<forall>x \<in> insert m (set xs). \<not> is_later cls x (foldl (\<lambda>m x. if is_later cls x m then x else m) m xs)"
proof -
  let ?f = "\<lambda>m x. if is_later cls x m then x else m"
  have "wf (foldl ?f m xs) \<and> (\<forall>x \<in> insert m (set xs). \<not> is_later cls x (foldl ?f m xs))"
    using assms
  proof (induction xs rule: rev_induct)
    case (snoc y xs)
    let ?r = "foldl ?f m xs"
    have IH: "wf ?r" "\<forall>x \<in> insert m (set xs). \<not> is_later cls x ?r" using snoc by simp_all
    have y: "wf y" using snoc.prems by simp
    have "\<not> is_later cls x y" if "is_later cls y ?r" "x \<in> insert m (set xs)" for x
      using later_trans [of x y ?r] IH that y snoc.prems by (auto simp: list_all_iff)
    then show ?case using IH y later_irrefl [OF y] by (cases "is_later cls y ?r") auto
  qed (use later_irrefl in simp)
  then show ?thesis by blast
qed

end

definition wf_interval :: "u64 \<times> u64 \<Rightarrow> bool" where
  "wf_interval i \<longleftrightarrow> fst i \<le> snd i"

lemma UINT64_MAX_greatest [simp]: "\<not> UINT64_MAX < x"
  by (simp add: UINT64_MAX_def not_less)

interpretation hw_ts: timestamp_class HardwareTimestamp "\<lambda>_. True"
  by unfold_locales (auto simp: ts_class_defs)

interpretation atomic_ts: timestamp_class AtomicCounterTimestamp "\<lambda>_. True"
  by unfold_locales (auto simp: ts_class_defs)

interpretation stutter_ts: timestamp_class StutteringTimestamp "\<lambda>_. True"
  by unfold_locales (auto simp: ts_class_defs)

interpretation hw_interval_ts: timestamp_class HardwareIntervalTimestamp wf_interval
  by unfold_locales (auto simp: ts_class_defs wf_interval_def)

interpretation sim_interval_ts: timestamp_class SimulatedIntervalTimestamp wf_interval
  by unfold_locales (auto simp: ts_class_defs wf_interval_def)

section \<open>Acquiring timestamps from the hardware clock\<close>

text \<open>
  The n-th instruction of the machine that reads the time stamp counter gets clk n. The
  methods return the timestamp and the number of the next reading.
\<close>

definition hw_set_timestamp :: "(nat \<Rightarrow> u64) \<Rightarrow> nat \<Rightarrow> u64 \<times> nat" where
  "hw_set_timestamp clk n = (clk n, Suc n)"

partial_function (option) wait_until :: "(nat \<Rightarrow> u64) \<Rightarrow> u64 \<Rightarrow> nat \<Rightarrow> nat option" where
  "wait_until clk w n = (if clk n < w then wait_until clk w (Suc n) else Some (Suc n))"

definition interval_set_timestamp :: "(nat \<Rightarrow> u64) \<Rightarrow> u64 \<Rightarrow> nat \<Rightarrow> ((u64 \<times> u64) \<times> nat) option" where
  "interval_set_timestamp clk delay n = (let first = clk n; wait = clk (Suc n) + delay
     in case wait_until clk wait (Suc (Suc n)) of
       None \<Rightarrow> None | Some m \<Rightarrow> Some ((first, clk m), Suc m))"

definition simulated_set_timestamp :: "(nat \<Rightarrow> u64) \<Rightarrow> u64 \<Rightarrow> nat \<Rightarrow> (u64 \<times> u64) \<times> nat" where
  "simulated_set_timestamp clk delay n = (let timestamp = clk n in ((timestamp, timestamp + delay), Suc n))"

definition counter_set_timestamp :: "u64 \<Rightarrow> u64 \<times> u64" where
  "counter_set_timestamp clock = (clock, clock + 1)"

definition interval_read_time :: "(nat \<Rightarrow> u64) \<Rightarrow> nat \<Rightarrow> (u64 \<times> u64) \<times> nat" where
  "interval_read_time clk n = ((clk n, clk n), Suc n)"

text \<open>What is assumed of the counter: it advances from reading to reading, up to the reading N.\<close>

definition ticking :: "(nat \<Rightarrow> u64) \<Rightarrow> nat \<Rightarrow> bool" where
  "ticking clk N \<longleftrightarrow> (\<forall>n < N. clk n < clk (Suc n))"

lemma ticking_less: "ticking clk N \<Longrightarrow> m < n \<Longrightarrow> n \<le> N \<Longrightarrow> clk m < clk n"
proof (induction n)
  case (Suc n)
  then have "clk n < clk (Suc n)" by (simp add: ticking_def)
  then show ?case using Suc by (cases "m = n") auto
qed simp

lemma wait_until_later:
  assumes "wait_until clk w n = Some m"
  shows "n < m \<and> w \<le> clk (m - 1)"
proof (rule wait_until.raw_induct [OF _ assms, where P = "\<lambda>clk w n m. n < m \<and> w \<le> clk (m - 1)"])
  fix rec and clk :: "nat \<Rightarrow> u64" and w n m
  assume IH: "\<And>w n b y. rec w n b = Some y \<Longrightarrow> b < y \<and> n \<le> w (y - 1)"
    and b: "(if clk n < w then rec clk w (Suc n) else Some (Suc n)) = Some m"
  show "n < m \<and> w \<le> clk (m - 1)"
    using IH [of clk w "Suc n" m] b leI [of "clk n" w] by (cases "clk n < w") auto
qed

lemma wait_until_returns:
  assumes "n \<le> k" "w \<le> clk k"
  shows "\<exists>m \<le> Suc k. wait_until clk w n = Some m"
  using assms(1)
proof (induction rule: inc_induct)
  case base
  then show ?case using assms(2) by (subst wait_until.simps) (auto dest: leD)
next
  case (step n)
  then show ?case
    by (cases "clk n < w") (subst wait_until.simps, auto)+
qed

lemma interval_returns:
  assumes "ticking clk N" "Suc n < k" "k < N" "unat (clk (Suc n)) + unat delay \<le> unat (clk k)"
  shows "\<exists>j. interval_set_timestamp clk delay n = Some ((clk n, clk j), Suc j) \<and> Suc (Suc n) < j \<and> j \<le> Suc k \<and>
    unat (clk n) + unat delay \<le> unat (clk j)"
proof -
  let ?w = "clk (Suc n) + delay"
  have w: "unat ?w = unat (clk (Suc n)) + unat delay"
    using assms(4) unsigned_less [of "clk k", where ?'a = nat] by (subst unat_add_no_overflow) simp_all
  then have "?w \<le> clk k" using assms(4) by (simp add: word_le_nat_alt)
  then obtain j where j: "j \<le> Suc k" "wait_until clk ?w (Suc (Suc n)) = Some j"
    using wait_until_returns [of "Suc (Suc n)" k ?w clk] assms(2) by auto
  note l = wait_until_later [OF j(2)]
  have "clk n < clk (Suc n)" using assms by (intro ticking_less [OF assms(1)]) simp_all
  moreover have "clk (j - 1) < clk j" using l j assms by (intro ticking_less [OF assms(1)]) simp_all
  ultimately have "unat (clk n) + unat delay \<le> unat (clk j)" using w l by (simp add: word_less_nat_alt word_le_nat_alt)
  then show ?thesis using j l by (simp add: interval_set_timestamp_def Let_def)
qed

section \<open>The stuttering clock\<close>

text \<open>
  set_timestamp of StutteringTimestamp loads the clock of every thread, one after the
  other, and stores their maximum plus one in the clock of its own thread. The clocks
  are 64 bit words and the increment wraps around.
\<close>

datatype st_op = SetTimestamp | ReadTime

datatype st_pc = SetScan nat u64 | ReadScan nat u64

fun stutter_set_timestamp :: "tid \<Rightarrow> u64 list \<Rightarrow> st_pc \<Rightarrow> u64 list \<times> (st_pc, u64) outcome" where
  "stutter_set_timestamp t clocks (SetScan i latest) =
     (if i < length clocks then (clocks, Next (SetScan (i + 1) (max latest (clocks ! i))))
      else if t < length clocks then (clocks[t := latest + 1], Return (latest + 1))
      else (clocks, Fault (Undefined ''clocks_[thread_id]'')))"
| "stutter_set_timestamp t clocks p = (clocks, Fault (Undefined ''set_timestamp''))"

fun stutter_read_time :: "u64 list \<Rightarrow> st_pc \<Rightarrow> u64 list \<times> (st_pc, u64) outcome" where
  "stutter_read_time clocks (ReadScan i latest) =
     (clocks, if i < length clocks then Next (ReadScan (i + 1) (max latest (clocks ! i))) else Return latest)"
| "stutter_read_time clocks p = (clocks, Fault (Undefined ''read_time''))"

fun stutter_start :: "st_op \<Rightarrow> st_pc" where
  "stutter_start SetTimestamp = SetScan 0 0"
| "stutter_start ReadTime = ReadScan 0 0"

fun stutter_body :: "tid \<Rightarrow> nat \<Rightarrow> u64 list \<Rightarrow> st_pc \<Rightarrow> u64 list \<times> (st_pc, u64) outcome" where
  "stutter_body t n s (SetScan i l) = stutter_set_timestamp t s (SetScan i l)"
| "stutter_body t n s (ReadScan i l) = stutter_read_time s (ReadScan i l)"

definition stutter_prog :: "(u64 list, st_op, u64, st_pc) prog" where
  "stutter_prog = \<lparr>start = stutter_start, body = stutter_body\<rparr>"

definition stutter_init :: "nat \<Rightarrow> u64 list" where
  "stutter_init num_threads = replicate num_threads 1"

lemma stutter_prog_simps [simp]: "start stutter_prog = stutter_start" "body stutter_prog = stutter_body"
  by (simp_all add: stutter_prog_def)

fun stutter_pinv :: "u64 list \<Rightarrow> tid \<Rightarrow> st_op \<Rightarrow> st_pc \<Rightarrow> bool" where
  "stutter_pinv s t op (SetScan i l) \<longleftrightarrow> op = SetTimestamp \<and> t < length s \<and> i \<le> length s \<and> (t < i \<longrightarrow> s ! t \<le> l)"
| "stutter_pinv s t op (ReadScan i l) \<longleftrightarrow> op = ReadTime \<and> t < length s \<and> i \<le> length s"

definition stutter_rely :: "nat set \<Rightarrow> nat set \<Rightarrow> u64 list \<Rightarrow> u64 list \<Rightarrow> bool" where
  "stutter_rely A B s s' \<longleftrightarrow> length s' = length s \<and> (\<forall>a \<in> A. s' ! a = s ! a)"

interpretation stutter: og_system stutter_prog "stutter_init n" "\<lambda>t _. t < n" "\<lambda>s. length s = n" stutter_pinv
    "\<lambda>_. UNIV" "\<lambda>_. {}" "\<lambda>t. {t}" "\<lambda>_. {}" "\<lambda>_. {}" stutter_rely "\<lambda>_ _. True" for n
proof (unfold_locales, goal_cases)
  case (2 s t op) then show ?case by (cases op) simp_all
next
  case (8 s t op p m s' out) then show ?case by (cases p) (auto split: if_splits)
next
  case (9 s t op p m s' p')
  then show ?case by (cases p) (auto split: if_splits simp: less_Suc_eq le_max_iff_disj)
next
  case (10 s t op p m s' e) then show ?case by (cases p) (auto split: if_splits)
next
  case (11 s t op p m s' out A u B)
  then have "\<forall>a \<in> A. t \<noteq> a" by blast
  then show ?case using 11(2,4) by (cases p) (auto split: if_splits simp: stutter_rely_def)
next
  case (12 s s' t p op) then show ?case by (cases p) (auto simp: stutter_rely_def)
qed (simp_all add: stutter_init_def)

text \<open>
  The clocks do not get beyond 1 plus the number of calls of set_timestamp: with k a bound
  on that, every clock and every maximum that a thread has found so far stays below k by
  the number of threads that are still to increment.
\<close>

definition stamping :: "(u64 list, st_op, u64, st_pc) config \<Rightarrow> tid set" where
  "stamping c = {t. t < length (shared c) \<and> (\<exists>p. threads c t = Run SetTimestamp p)}"

definition clocks_below :: "nat \<Rightarrow> (u64 list, st_op, u64, st_pc) config \<Rightarrow> bool" where
  "clocks_below k c \<longleftrightarrow> (\<forall>u < length (shared c). unat (shared c ! u) + card (stamping c) \<le> k) \<and>
     (\<forall>t op i l. threads c t = Run op (SetScan i l) \<longrightarrow> unat l + card (stamping c) \<le> k)"

definition stamp_count :: "st_op sched \<Rightarrow> nat" where
  "stamp_count es = length (filter (\<lambda>e. case snd e of Call SetTimestamp \<Rightarrow> True | _ \<Rightarrow> False) es)"

lemma stamp_count_simps [simp]:
  "stamp_count [] = 0" "stamp_count ((t, Go m) # es) = stamp_count es" "stamp_count ((t, Leave) # es) = stamp_count es"
  "stamp_count ((t, Call SetTimestamp) # es) = Suc (stamp_count es)" "stamp_count ((t, Call ReadTime) # es) = stamp_count es"
  "stamp_count (es1 @ es2) = stamp_count es1 + stamp_count es2"
  by (simp_all add: stamp_count_def)

lemma stamp_count_Cons: "stamp_count (e # es) = stamp_count [e] + stamp_count es"
  by (simp add: stamp_count_def)

lemma finite_stamping [simp]: "finite (stamping c)"
  by (simp add: stamping_def)

lemma unat_increment: "unat (l + 1 :: u64) \<le> Suc (unat l)" "unat l < 2 ^ 64 - 1 \<Longrightarrow> unat (l + 1 :: u64) = Suc (unat l)"
  by (simp_all add: unat_word_ariths)

lemma unat_max: "unat (max l x :: u64) \<le> k \<longleftrightarrow> unat l \<le> k \<and> unat x \<le> k"
  by (auto simp: max_def word_le_nat_alt)

lemma clocks_below_quiet:
  assumes "clocks_below k c" "stamping c' \<subseteq> stamping c" "shared c' = shared c"
    and "\<And>t op i l. threads c' t = Run op (SetScan i l) \<Longrightarrow>
      (\<exists>i. threads c t = Run op (SetScan i l)) \<or> (\<exists>i j l0. threads c t = Run op (SetScan i l0) \<and>
        j < length (shared c) \<and> l = max l0 (shared c ! j))"
  shows "clocks_below k c'"
proof -
  have m: "card (stamping c') \<le> card (stamping c)" using assms(2) by (intro card_mono) simp_all
  have r: "x + card (stamping c') \<le> k" if "x + card (stamping c) \<le> k" for x using that m by linarith
  have "unat l + card (stamping c') \<le> k" if "threads c' t = Run op (SetScan i l)" for t op i l
    using assms(4) [OF that]
  proof (elim disjE exE conjE)
    fix i j l0
    assume j: "threads c t = Run op (SetScan i l0)" "j < length (shared c)" "l = max l0 (shared c ! j)"
    have "l = l0 \<or> l = shared c ! j" using j(3) by (simp add: max_def)
    then show ?thesis using assms(1) j(1,2) r by (auto simp: clocks_below_def)
  qed (use assms(1) r in \<open>auto simp: clocks_below_def\<close>)
  then show ?thesis using assms(1,3) r by (simp add: clocks_below_def)
qed

lemma clocks_below_step:
  assumes "stutter.og_inv n c" "clocks_below k c" "valid_call (\<lambda>t _. t < n) e"
  shows "clocks_below (k + stamp_count [e]) (step stutter_prog e c)"
proof (cases rule: step_cases [of e c stutter_prog])
  case (go t a op p s' out)
  have pi: "stutter_pinv (shared c) t op p" using stutter.og_pinv [OF assms(1) go(2)] .
  show ?thesis
  proof (cases p)
    case (ReadScan i l)
    have "clocks_below k (step stutter_prog e c)"
      by (rule clocks_below_quiet [OF assms(2)])
        (use go pi ReadScan in \<open>auto simp: stamping_def split: if_splits\<close>)
    then show ?thesis using go(1) by simp
  next
    case (SetScan i l)
    show ?thesis
    proof (cases "i < length (shared c)")
      case True
      have "clocks_below k (step stutter_prog e c)"
        by (rule clocks_below_quiet [OF assms(2)])
          (use go pi SetScan True in \<open>auto simp: stamping_def split: if_splits\<close>)
      then show ?thesis using go(1) by simp
    next
      case False
      let ?c = "step stutter_prog e c"
      have c': "shared ?c = (shared c)[t := l + 1]" "threads ?c = (threads c)(t := Resp op (l + 1))" "t < length (shared c)"
        using go pi SetScan False by auto
      have t: "t \<in> stamping c" "stamping ?c = stamping c - {t}"
        using go(2) pi SetScan c' by (auto simp: stamping_def)
      then have "card (stamping c) = Suc (card (stamping ?c))" by (metis card_Suc_Diff1 finite_stamping)
      then have "unat (l + 1) + card (stamping ?c) \<le> k" "\<And>x. x + card (stamping c) \<le> k \<Longrightarrow> x + card (stamping ?c) \<le> k"
        using assms(2) go(2) SetScan unat_increment(1) [of l] by (fastforce simp: clocks_below_def)+
      then show ?thesis using assms(2) c' go(1) by (auto simp: clocks_below_def nth_list_update)
    qed
  qed
next
  case (call t op)
  let ?c = "step stutter_prog e c"
  have s: "stamping ?c \<subseteq> (if op = SetTimestamp then insert t (stamping c) else stamping c)" "t \<notin> stamping c"
    using call(2,3) by (auto simp: stamping_def)
  have "card (stamping ?c) \<le> card (stamping c) + stamp_count [e]"
  proof (cases op)
    case SetTimestamp
    then show ?thesis using s call(1) card_mono [OF _ s(1)] by simp
  next
    case ReadTime
    then show ?thesis using s call(1) card_mono [OF _ s(1)] by simp
  qed
  then have r: "\<And>x. x + card (stamping c) \<le> k \<Longrightarrow> x + card (stamping ?c) \<le> k + stamp_count [e]" by fastforce
  have n: "0 < length (shared c)" using assms(1,3) call(1) stutter.og_sinv [OF assms(1)] by simp
  then have "0 + card (stamping c) \<le> k" using assms(2) by (auto simp: clocks_below_def)
  then have z: "0 + card (stamping ?c) \<le> k + stamp_count [e]" by (rule r)
  have "unat l + card (stamping ?c) \<le> k + stamp_count [e]" if h: "threads ?c u = Run op' (SetScan i l)" for u op' i l
  proof (cases "u = t")
    case True
    then have "l = 0" using h call(3) by (cases op) simp_all
    then show ?thesis using z by simp
  next
    case False
    then show ?thesis using h call(3) assms(2) by (intro r) (auto simp: clocks_below_def)
  qed
  moreover have "unat (shared c ! u) + card (stamping ?c) \<le> k + stamp_count [e]" if "u < length (shared c)" for u
    using that assms(2) by (intro r) (simp add: clocks_below_def)
  ultimately show ?thesis using call(3) by (simp add: clocks_below_def)
next
  case (leave t op r)
  have "clocks_below k (step stutter_prog e c)"
    by (rule clocks_below_quiet [OF assms(2)]) (use leave in \<open>auto simp: stamping_def split: if_splits\<close>)
  then show ?thesis using leave(1) by simp
next
  case (stutter t a)
  then show ?thesis using assms(2) by (auto simp: clocks_below_def intro: trans_le_add1)
qed

lemma clocks_below_init: "clocks_below 1 (init (stutter_init n))"
  by (simp add: clocks_below_def stamping_def stutter_init_def)

text \<open>No clock ever goes back, as long as there were fewer than 2 to the 64 minus 1 calls.\<close>

definition tame :: "nat \<Rightarrow> nat \<Rightarrow> (u64 list, st_op, u64, st_pc) config \<Rightarrow> bool" where
  "tame n k c \<longleftrightarrow> stutter.og_inv n c \<and> clocks_below k c"

lemma tame_init: "tame n 1 (init (stutter_init n))"
  using clocks_below_init by (simp add: tame_def stutter.og_init)

lemma tame_step: "tame n k c \<Longrightarrow> valid_call (\<lambda>t _. t < n) e \<Longrightarrow> tame n (k + stamp_count [e]) (step stutter_prog e c)"
  unfolding tame_def using stutter.og_step clocks_below_step by blast

lemma tame_exec:
  "tame n k c \<Longrightarrow> list_all (valid_call (\<lambda>t _. t < n)) es \<Longrightarrow> tame n (k + stamp_count es) (exec stutter_prog es c)"
proof (induction es arbitrary: c k)
  case (Cons e es)
  then have "tame n (k + stamp_count [e]) (step stutter_prog e c)" by (simp add: tame_step)
  from Cons.IH [OF this] Cons.prems show ?case by (simp add: stamp_count_Cons [of e es] add.assoc)
qed simp

lemma tame_room:
  assumes "tame n k c" "k < 2 ^ 64" "threads c t = Run op (SetScan i l)"
  shows "l < l + 1" "unat (l + 1) = Suc (unat l)"
proof -
  have p: "stutter_pinv (shared c) t op (SetScan i l)"
    using assms(1) by (intro stutter.og_pinv [OF _ assms(3), of n]) (simp add: tame_def)
  then have "t \<in> stamping c" using assms(3) by (auto simp: stamping_def)
  then have "0 < card (stamping c)" by (auto simp: card_gt_0_iff)
  moreover have "unat l + card (stamping c) \<le> k" using assms(1,3) by (auto simp: tame_def clocks_below_def)
  ultimately have "unat l < 2 ^ 64 - 1" using assms(2) by linarith
  from unat_increment(2) [OF this] show "unat (l + 1) = Suc (unat l)" "l < l + 1" by (simp_all add: word_less_nat_alt)
qed

lemma clocks_step:
  assumes "tame n k c" "k < 2 ^ 64"
  shows "length (shared (step stutter_prog e c)) = n" "shared c ! u \<le> shared (step stutter_prog e c) ! u"
proof -
  have inv: "stutter.og_inv n c" using assms(1) by (simp add: tame_def)
  have l: "length (shared c) = n" using stutter.og_sinv [OF inv] .
  have "length (shared (step stutter_prog e c)) = n \<and> shared c ! u \<le> shared (step stutter_prog e c) ! u"
  proof (cases rule: step_cases [of e c stutter_prog])
    case (go t a op p s' out)
    have pi: "stutter_pinv (shared c) t op p" using stutter.og_pinv [OF inv go(2)] .
    show ?thesis
    proof (cases p)
      case (SetScan i m)
      have "m < m + 1" using tame_room(1) [OF assms] go(2) SetScan by blast
      then show ?thesis using go(3,4) l pi SetScan
        by (auto split: if_splits simp: nth_list_update intro: order_trans less_imp_le)
    qed (use go(3,4) l pi in auto)
  qed (use l in simp_all)
  then show "length (shared (step stutter_prog e c)) = n" "shared c ! u \<le> shared (step stutter_prog e c) ! u"
    by simp_all
qed

text \<open>
  What a thread knows of the clocks K that it started from: while it scans, the maximum
  so far covers the part it has read; a result it holds is beyond all of them.
\<close>

fun knows :: "u64 list \<Rightarrow> (st_op, u64, st_pc) tstate \<Rightarrow> bool" where
  "knows K (Run op (SetScan i l)) \<longleftrightarrow> op = SetTimestamp \<and> (\<forall>u < length K. u < i \<longrightarrow> K ! u \<le> l)"
| "knows K (Resp op r) \<longleftrightarrow> op = SetTimestamp \<and> (\<forall>u < length K. K ! u < r)"
| "knows K l \<longleftrightarrow> False"

lemma knows_step:
  assumes "tame n k c" "k < 2 ^ 64" "e \<noteq> (t, Leave)" "length K = n" "\<forall>u < n. K ! u \<le> shared c ! u"
    and "knows K (threads c t)"
  shows "knows K (threads (step stutter_prog e c) t)"
proof -
  have inv: "stutter.og_inv n c" using assms(1) by (simp add: tame_def)
  show ?thesis
  proof (cases rule: step_cases [of e c stutter_prog])
    case (go u a op p s' out)
    show ?thesis
    proof (cases "u = t")
      case True
      then obtain i l where p: "p = SetScan i l" "op = SetTimestamp" "\<forall>u < n. u < i \<longrightarrow> K ! u \<le> l"
        using assms(4,6) go(2) by (cases p) auto
      have len: "length (shared c) = n" "t < n" "i \<le> n"
        using stutter.og_pinv [OF inv go(2)] stutter.og_sinv [OF inv] True p by auto
      show ?thesis
      proof (cases "i < n")
        case i: True
        have "\<forall>u < n. u < Suc i \<longrightarrow> K ! u \<le> max l (shared c ! i)"
          using p(3) assms(5) i by (auto simp: less_Suc_eq le_max_iff_disj)
        then show ?thesis using go True p len i assms(4) by auto
      next
        case False
        have "l < l + 1" using tame_room(1) [OF assms(1,2)] go(2) True p(1) by blast
        then have "\<forall>u < n. K ! u < l + 1" using p(3) len False by (auto intro: le_less_trans)
        then show ?thesis using go True p len False assms(4) by auto
      qed
    next
      case False
      then show ?thesis using go assms(6) by simp
    qed
  next
    case (call u op)
    then show ?thesis using assms(6) by (cases "u = t") auto
  next
    case (leave u op r)
    then show ?thesis using assms(3,6) by (cases "u = t") auto
  next
    case stutter
    then show ?thesis using assms(6) by simp
  qed
qed

lemma clocks_exec:
  assumes "tame n k c" "k + stamp_count es < 2 ^ 64" "list_all (valid_call (\<lambda>t _. t < n)) es"
  shows "shared c ! u \<le> shared (exec stutter_prog es c) ! u"
  using assms
proof (induction es arbitrary: c k)
  case (Cons e es)
  have k: "k < 2 ^ 64" "k + stamp_count [e] + stamp_count es < 2 ^ 64" using Cons.prems(2) by (simp_all add: stamp_count_Cons [of e es])
  have "tame n (k + stamp_count [e]) (step stutter_prog e c)" using Cons.prems by (intro tame_step) simp_all
  from Cons.IH [OF this k(2)] show ?case
    using Cons.prems(3) clocks_step(2) [OF Cons.prems(1) k(1), of u e] by simp
qed simp

lemma knows_exec:
  assumes "tame n k c" "k + stamp_count es < 2 ^ 64" "list_all (valid_call (\<lambda>t _. t < n)) es" "(t, Leave) \<notin> set es"
    and "length K = n" "\<forall>u < n. K ! u \<le> shared c ! u" "knows K (threads c t)"
  shows "knows K (threads (exec stutter_prog es c) t)"
  using assms
proof (induction es arbitrary: c k)
  case (Cons e es)
  let ?c = "step stutter_prog e c"
  have k: "k < 2 ^ 64" "k + stamp_count [e] + stamp_count es < 2 ^ 64" using Cons.prems(2) by (simp_all add: stamp_count_Cons [of e es])
  have "tame n (k + stamp_count [e]) ?c" using Cons.prems by (intro tame_step) simp_all
  moreover have "\<forall>u < n. K ! u \<le> shared ?c ! u"
    using Cons.prems(6) clocks_step(2) [OF Cons.prems(1) k(1)] order_trans by blast
  moreover have "knows K (threads ?c t)"
    by (rule knows_step [OF Cons.prems(1) k(1) _ Cons.prems(5-7)]) (use Cons.prems(4) in auto)
  ultimately show ?case using Cons.IH [of "k + stamp_count [e]" ?c] k(2) Cons.prems by simp
qed simp

text \<open>A result that was handed out is not beyond the clock of its thread.\<close>

definition handed_out :: "(u64 list, st_op, u64, st_pc) config \<Rightarrow> bool" where
  "handed_out c \<longleftrightarrow> (\<forall>t r. threads c t = Resp SetTimestamp r \<longrightarrow>
     t < length (shared c) \<and> r \<le> shared c ! t)"

lemma handed_out_step:
  assumes "tame n k c" "k < 2 ^ 64" "handed_out c"
  shows "handed_out (step stutter_prog e c)"
proof -
  have inv: "stutter.og_inv n c" using assms(1) by (simp add: tame_def)
  show ?thesis
  proof (cases rule: step_cases [of e c stutter_prog])
    case (go t a op p s' out)
    have p: "stutter_pinv (shared c) t op p" using stutter.og_pinv [OF inv go(2)] .
    have m: "shared c ! u \<le> s' ! u" for u using clocks_step(2) [OF assms(1,2), of u e] go(4) by simp
    have l: "length s' = length (shared c)"
      using clocks_step(1) [OF assms(1,2), of e] stutter.og_sinv [OF inv] go(4) by simp
    have "t < length s' \<and> r \<le> s' ! t" if "resume op out = Resp SetTimestamp r" for r
      using go(3) p that by (cases p) (auto split: if_splits)
    moreover have "r \<le> s' ! u" if "threads c u = Resp SetTimestamp r" for u r
      using assms(3) that m [of u] by (fastforce simp: handed_out_def)
    ultimately show ?thesis using assms(3) go(4) l by (auto simp: handed_out_def)
  qed (use assms(3) in \<open>auto simp: handed_out_def\<close>)
qed

lemma handed_out_exec:
  "tame n k c \<Longrightarrow> k + stamp_count es < 2 ^ 64 \<Longrightarrow> handed_out c \<Longrightarrow> list_all (valid_call (\<lambda>t _. t < n)) es \<Longrightarrow>
   handed_out (exec stutter_prog es c)"
proof (induction es arbitrary: c k)
  case (Cons e es)
  have k: "k < 2 ^ 64" "k + stamp_count [e] + stamp_count es < 2 ^ 64" using Cons.prems(2) by (simp_all add: stamp_count_Cons [of e es])
  have "tame n (k + stamp_count [e]) (step stutter_prog e c)" using Cons.prems by (intro tame_step) simp_all
  from Cons.IH [OF this k(2)] show ?case using Cons.prems handed_out_step [OF Cons.prems(1) k(1)] by simp
qed simp

section \<open>Properties\<close>

text \<open>
  C16: the stuttering clock orders timestamps in real time although its scan is not atomic:
  when thread a has got the result r from a set_timestamp (it may have left the call and made
  others since) and thread b starts a set_timestamp afterwards, the result r' of b is later
  than r, in every interleaving of the threads. The clocks are 64 bit words that wrap around;
  the order is stated for runs with fewer than 2 to the 64 minus 1 calls of set_timestamp.
\<close>

theorem stuttering_order:
  assumes "list_all (valid_call (\<lambda>t _. t < n)) (es1 @ es2 @ es3)" "stamp_count (es1 @ es2 @ es3) < 2 ^ 64 - 1"
    and "threads (exec stutter_prog es1 (init (stutter_init n))) a = Resp SetTimestamp r"
    and "threads (exec stutter_prog (es1 @ es2) (init (stutter_init n))) b = Run SetTimestamp (stutter_start SetTimestamp)"
    and "(b, Leave) \<notin> set es3"
    and "threads (exec stutter_prog (es1 @ es2 @ es3) (init (stutter_init n))) b = Resp SetTimestamp r'"
  shows "is_later StutteringTimestamp r' r"
proof -
  let ?c1 = "exec stutter_prog es1 (init (stutter_init n))" and ?c = "exec stutter_prog (es1 @ es2) (init (stutter_init n))"
  let ?k1 = "1 + stamp_count es1" and ?k = "1 + stamp_count (es1 @ es2)"
  have t1: "tame n ?k1 ?c1" by (rule tame_exec [OF tame_init]) (use assms(1) in simp)
  have t: "tame n ?k ?c" by (rule tame_exec [OF tame_init]) (use assms(1) in simp)
  have len: "length (shared ?c1) = n" "length (shared ?c) = n"
    using t1 t stutter.og_sinv by (simp_all add: tame_def)
  have "handed_out ?c1"
    by (rule handed_out_exec [OF tame_init]) (use assms(1,2) in \<open>simp_all add: handed_out_def\<close>)
  then have a: "a < n" "r \<le> shared ?c1 ! a" using assms(3) len(1) by (auto simp: handed_out_def)
  have "shared ?c1 ! a \<le> shared ?c ! a"
    using clocks_exec [OF t1, of es2 a] assms(1,2) by simp
  moreover have "knows (shared ?c) (threads (exec stutter_prog es3 ?c) b)"
    by (rule knows_exec [OF t]) (use assms(1,2,4,5) len in simp_all)
  then have "\<forall>u < n. shared ?c ! u < r'" using assms(6) len by simp
  ultimately show ?thesis using a by (auto simp: StutteringTimestamp_def)
qed

definition stutter_race :: "st_op sched" where
  "stutter_race = [(0, Call SetTimestamp), (0, Go 0), (0, Go 0), (0, Go 0)]"

lemma stuttering_order_witness: "is_later StutteringTimestamp 3 2"
proof (rule stuttering_order [of 2 stutter_race "[(0, Leave), (1, Call SetTimestamp)]"
      "[(1, Go 0), (0, Call ReadTime), (1, Go 0), (1, Go 0)]" 0 2 1 3], goal_cases)
  case 2
  show ?case by (simp add: stutter_race_def)
qed (simp_all add: stutter_race_def stutter_init_def step_def init_def eval_nat_numeral)

text \<open>
  C17: interval timestamps taken from an advancing counter: if some reading of the counter is
  the delay beyond the one at which the wait began (which excludes a wrap-around of their
  sum), the wait loop ends at that reading or before; the interval has its ends in order and
  is at least the delay long, and every call that begins after this one has ended gets a later
  timestamp (and returns under the same condition).
\<close>

theorem interval_timestamp_order:
  assumes "ticking clk N" "Suc n < k" "k < N" "unat (clk (Suc n)) + unat delay \<le> unat (clk k)"
  shows "\<exists>a m. interval_set_timestamp clk delay n = Some (a, m) \<and> m \<le> k + 2 \<and> wf_interval a \<and>
    unat (fst a) + unat delay \<le> unat (snd a) \<and>
    (\<forall>n' k'. m \<le> n' \<and> Suc n' < k' \<and> k' < N \<and> unat (clk (Suc n')) + unat delay \<le> unat (clk k') \<longrightarrow>
      (\<exists>b m'. interval_set_timestamp clk delay n' = Some (b, m') \<and> is_later HardwareIntervalTimestamp b a))"
proof -
  obtain j where j: "interval_set_timestamp clk delay n = Some ((clk n, clk j), Suc j)" "Suc (Suc n) < j" "j \<le> Suc k"
    "unat (clk n) + unat delay \<le> unat (clk j)"
    using interval_returns [OF assms] by blast
  have "clk n < clk j" by (rule ticking_less [OF assms(1)]) (use j(2,3) assms(3) in simp_all)
  moreover have "\<exists>b m'. interval_set_timestamp clk delay n' = Some (b, m') \<and>
      is_later HardwareIntervalTimestamp b (clk n, clk j)"
    if h: "Suc j \<le> n'" "Suc n' < k'" "k' < N" "unat (clk (Suc n')) + unat delay \<le> unat (clk k')" for n' k'
  proof -
    obtain j' where "interval_set_timestamp clk delay n' = Some ((clk n', clk j'), Suc j')"
      using interval_returns [OF assms(1) h(2-4)] by blast
    moreover have "clk j < clk n'" by (rule ticking_less [OF assms(1)]) (use h in simp_all)
    ultimately show ?thesis by (auto simp: ts_class_defs)
  qed
  ultimately show ?thesis using j by (auto simp: wf_interval_def)
qed

lemma ticking_of_nat: "N < 2 ^ 64 \<Longrightarrow> ticking of_nat N"
  by (simp add: ticking_def word_of_nat_less_iff take_bit_nat_eq_self del: of_nat_Suc)

lemma interval_timestamp_order_witness:
  "\<exists>a m b m'. interval_set_timestamp of_nat 3 0 = Some (a, m) \<and> wf_interval a \<and>
    unat (fst a) + unat (3 :: u64) \<le> unat (snd a) \<and>
    interval_set_timestamp of_nat 3 10 = Some (b, m') \<and> is_later HardwareIntervalTimestamp b a"
proof -
  have t: "ticking of_nat 20" by (simp add: ticking_of_nat)
  obtain a m where a: "interval_set_timestamp of_nat 3 0 = Some (a, m)" "m \<le> 4 + 2" "wf_interval a"
    "unat (fst a) + unat (3 :: u64) \<le> unat (snd a)"
    "\<forall>n' k'. m \<le> n' \<and> Suc n' < k' \<and> k' < 20 \<and> unat (of_nat (Suc n') :: u64) + unat (3 :: u64) \<le> unat (of_nat k' :: u64) \<longrightarrow>
      (\<exists>b m'. interval_set_timestamp of_nat 3 n' = Some (b, m') \<and> is_later HardwareIntervalTimestamp b a)"
    using interval_timestamp_order [OF t, of 0 4 3] by auto
  have "\<exists>b m'. interval_set_timestamp of_nat 3 10 = Some (b, m') \<and> is_later HardwareIntervalTimestamp b a"
    by (rule a(5) [rule_format, of 10 15]) (use a(2) in simp)
  then show ?thesis using a by blast
qed

end
