(* ===== verification/Single_List.thy ===== *)
theory Single_List
  imports Prelude
begin

text \<open>
  The sequential list queue of src/src/datastructures/single_list.h, which the flat
  combining queue and the graph searches use: a linked list in the heap with a dummy
  node. The locale fifo is the contract its clients rely on; this theory interprets it
  for the heap implementation.
\<close>

section \<open>The contract of a first-in first-out queue\<close>

datatype 'a fifo_op = Put 'a addr | Take

fun fifo_run :: "(addr \<Rightarrow> 'a \<Rightarrow> 's \<Rightarrow> fault + 's) \<Rightarrow> ('s \<Rightarrow> fault + (bool \<times> 'a) \<times> 's)
    \<Rightarrow> 'a fifo_op list \<Rightarrow> 's \<Rightarrow> fault + (bool \<times> 'a) list \<times> 's" where
  "fifo_run enq deq [] s = Inr ([], s)"
| "fifo_run enq deq (Put x a # ops) s = (case enq a x s of
     Inl e \<Rightarrow> Inl e | Inr s' \<Rightarrow> fifo_run enq deq ops s')"
| "fifo_run enq deq (Take # ops) s = (case deq s of
     Inl e \<Rightarrow> Inl e
   | Inr (r, s') \<Rightarrow> map_sum id (\<lambda>(rs, s''). (r # rs, s'')) (fifo_run enq deq ops s'))"

text \<open>The same operations on a list; z is the item handed out when it is empty.\<close>

fun list_run :: "'a \<Rightarrow> 'a fifo_op list \<Rightarrow> 'a list \<Rightarrow> (bool \<times> 'a) list \<times> 'a list" where
  "list_run z [] xs = ([], xs)"
| "list_run z (Put x a # ops) xs = list_run z ops (xs @ [x])"
| "list_run z (Take # ops) [] = (let (rs, ys) = list_run z ops [] in ((False, z) # rs, ys))"
| "list_run z (Take # ops) (x # xs) = (let (rs, ys) = list_run z ops xs in ((True, x) # rs, ys))"

fun put_addrs :: "'a fifo_op list \<Rightarrow> addr list" where
  "put_addrs [] = []"
| "put_addrs (Put x a # ops) = a # put_addrs ops"
| "put_addrs (Take # ops) = put_addrs ops"

locale fifo =
  fixes enq :: "addr \<Rightarrow> 'a \<Rightarrow> 's \<Rightarrow> fault + 's"
    and deq :: "'s \<Rightarrow> fault + (bool \<times> 'a) \<times> 's"
    and empty :: "'s \<Rightarrow> bool"
    and inv :: "'s \<Rightarrow> bool"
    and items :: "'s \<Rightarrow> 'a list"
    and used :: "'s \<Rightarrow> addr set"
    and z :: 'a
  assumes enq_ok: "inv s \<Longrightarrow> a \<noteq> NULL \<Longrightarrow> a \<notin> used s \<Longrightarrow>
      \<exists>s'. enq a x s = Inr s' \<and> inv s' \<and> items s' = items s @ [x] \<and> used s' = insert a (used s)"
    and deq_ok: "inv s \<Longrightarrow>
      \<exists>s'. deq s = Inr (case items s of [] \<Rightarrow> (False, z) | x # xs \<Rightarrow> (True, x), s') \<and>
        inv s' \<and> items s' = tl (items s) \<and> used s' = used s"
    and empty_iff: "inv s \<Longrightarrow> empty s \<longleftrightarrow> items s = []"
begin

lemma fifo_run_eq:
  assumes "inv s" "distinct (put_addrs ops)" "set (put_addrs ops) \<inter> insert NULL (used s) = {}"
  shows "\<exists>s'. fifo_run enq deq ops s = Inr (fst (list_run z ops (items s)), s') \<and>
    inv s' \<and> items s' = snd (list_run z ops (items s))"
  using assms
proof (induction ops arbitrary: s)
  case (Cons op ops)
  show ?case
  proof (cases op)
    case (Put x a)
    then obtain s' where "enq a x s = Inr s'" "inv s'" "items s' = items s @ [x]" "used s' = insert a (used s)"
      using enq_ok [of s a x] Cons.prems by auto
    then show ?thesis using Put Cons.IH [of s'] Cons.prems by auto
  next
    case Take
    obtain s' where s': "deq s = Inr (case items s of [] \<Rightarrow> (False, z) | x # xs \<Rightarrow> (True, x), s')"
      "inv s'" "items s' = tl (items s)" "used s' = used s"
      using deq_ok [OF Cons.prems(1)] by blast
    obtain s'' where "fifo_run enq deq ops s' = Inr (fst (list_run z ops (items s')), s'')" "inv s''"
        "items s'' = snd (list_run z ops (items s'))"
      using Cons.IH [of s'] Cons.prems s' Take by auto
    then show ?thesis using Take s' by (cases "items s") (simp_all add: case_prod_beta)
  qed
qed simp

end

section \<open>The linked list\<close>

record 'a slnode =
  l_next :: addr
  l_value :: 'a

record 'a slist =
  l_head :: addr
  l_tail :: addr
  l_heap :: "'a slnode heap"

text \<open>The allocator hands out zeroed nodes at the address it is given.\<close>

definition sl_new :: "addr \<Rightarrow> 'a::zero slist" where
  "sl_new n = \<lparr>l_head = n, l_tail = n, l_heap = [n \<mapsto> \<lparr>l_next = NULL, l_value = 0\<rparr>]\<rparr>"

definition sl_is_empty :: "'a slist \<Rightarrow> bool" where
  "sl_is_empty s = (if l_head s = l_tail s then True else False)"

definition sl_enqueue :: "addr \<Rightarrow> 'a \<Rightarrow> 'a slist \<Rightarrow> fault + 'a slist" where
  "sl_enqueue n item s = (let h = (l_heap s)(n \<mapsto> \<lparr>l_next = NULL, l_value = item\<rparr>)
     in case h (l_tail s) of
       None \<Rightarrow> Inl (fault_at (l_tail s))
     | Some nd \<Rightarrow> Inr (s\<lparr>l_heap := h(l_tail s \<mapsto> nd\<lparr>l_next := n\<rparr>), l_tail := n\<rparr>))"

definition sl_dequeue :: "'a::zero slist \<Rightarrow> fault + (bool \<times> 'a) \<times> 'a slist" where
  "sl_dequeue s = (if l_head s = l_tail s then Inr ((False, 0), s)
     else case l_heap s (l_head s) of
       None \<Rightarrow> Inl (fault_at (l_head s))
     | Some hn \<Rightarrow> (case l_heap s (l_next hn) of
         None \<Rightarrow> Inl (fault_at (l_next hn))
       | Some nd \<Rightarrow> Inr ((True, l_value nd), s\<lparr>l_head := l_next hn\<rparr>)))"

definition sl_chain :: "'a slist \<Rightarrow> addr list \<Rightarrow> bool" where
  "sl_chain s as \<longleftrightarrow> l_heap s NULL = None \<and> as \<noteq> [] \<and> last as = l_tail s \<and> path l_next (l_heap s) (l_head s) as NULL"

definition sl_inv :: "'a slist \<Rightarrow> bool" where
  "sl_inv s \<longleftrightarrow> (\<exists>as. sl_chain s as)"

definition sl_items :: "'a slist \<Rightarrow> 'a list" where
  "sl_items s = map (\<lambda>a. l_value (the (l_heap s a))) (tl (the (chain l_next (l_heap s) (l_head s))))"

lemma sl_items_eq: "sl_chain s as \<Longrightarrow> sl_items s = map (\<lambda>a. l_value (the (l_heap s a))) (tl as)"
  using path_chain [of l_next "l_heap s" "l_head s" as] by (simp add: sl_items_def sl_chain_def)

lemma sl_new_ok: "n \<noteq> NULL \<Longrightarrow> sl_chain (sl_new n) [n]"
  by (simp add: sl_chain_def sl_new_def)

lemma sl_enqueue_ok:
  assumes "sl_chain s as" "n \<noteq> NULL" "n \<notin> dom (l_heap s)"
  shows "\<exists>s'. sl_enqueue n x s = Inr s' \<and> sl_chain s' (as @ [n]) \<and> sl_items s' = sl_items s @ [x] \<and>
    dom (l_heap s') = insert n (dom (l_heap s))"
proof -
  have p: "path l_next (l_heap s) (l_head s) as NULL" and hn: "l_heap s NULL = None"
    using assms(1) by (simp_all add: sl_chain_def)
  obtain bs where as: "as = bs @ [l_tail s]"
    using assms(1) by (auto simp: sl_chain_def) (metis append_butlast_last_id)
  have d: "distinct as" using path_distinct [OF p hn] .
  have sub: "set as \<subseteq> dom (l_heap s)" using path_dom [OF p] .
  then obtain nd where nd: "l_heap s (l_tail s) = Some nd" using as by auto
  have nt: "n \<noteq> l_tail s" "n \<notin> set as" using assms(3) nd sub by auto
  define h where "h = (l_heap s)(n \<mapsto> \<lparr>l_next = NULL, l_value = x\<rparr>, l_tail s \<mapsto> nd\<lparr>l_next := n\<rparr>)"
  have e: "sl_enqueue n x s = Inr (s\<lparr>l_heap := h, l_tail := n\<rparr>)"
    using nd nt by (simp add: sl_enqueue_def Let_def h_def)
  have "path l_next (l_heap s) (l_head s) bs (l_tail s)"
    using p as by (auto simp: path_append split: option.splits)
  then have "path l_next h (l_head s) bs (l_tail s)"
    using d as nt by (simp add: h_def path_upd)
  then have p2: "path l_next h (l_head s) as n"
    unfolding as using d as by (intro path_snoc) (auto simp: h_def)
  have c: "path l_next h (l_head s) (as @ [n]) NULL"
    by (rule path_snoc [OF p2]) (use nt in \<open>auto simp: h_def\<close>)
  moreover have "h NULL = None" using hn assms(2) nd by (cases "l_tail s = NULL") (auto simp: h_def)
  ultimately have ch: "sl_chain (s\<lparr>l_heap := h, l_tail := n\<rparr>) (as @ [n])" by (simp add: sl_chain_def)
  have "l_value (the (h a)) = l_value (the (l_heap s a))" if "a \<in> set as" for a
    using that nt nd by (auto simp: h_def)
  moreover have "l_value (the (h n)) = x" using nt by (simp add: h_def)
  moreover have "a \<in> set as" if "a \<in> set (tl as)" for a using that by (cases as) auto
  ultimately have "sl_items (s\<lparr>l_heap := h, l_tail := n\<rparr>) = sl_items s @ [x]"
    using sl_items_eq [OF ch] sl_items_eq [OF assms(1)] as by (auto simp: tl_append split: list.split)
  moreover have "dom h = insert n (dom (l_heap s))" using nd by (auto simp: h_def)
  ultimately show ?thesis using e ch by simp
qed

lemma sl_empty_ok:
  assumes "sl_chain s as"
  shows "l_head s = l_tail s \<longleftrightarrow> tl as = []"
proof -
  have "distinct as" using assms path_distinct [of l_next "l_heap s" "l_head s" as] by (simp add: sl_chain_def)
  moreover obtain bs where "as = l_head s # bs"
    using assms by (cases as) (auto simp: sl_chain_def)
  moreover have "last as = l_tail s" using assms by (simp add: sl_chain_def)
  ultimately show ?thesis by (metis distinct.simps(2) last.simps last_in_set list.sel(3))
qed

lemma sl_dequeue_ok:
  assumes "sl_chain s as"
  shows "\<exists>s' as'. sl_dequeue s = Inr (case sl_items s of [] \<Rightarrow> (False, 0) | x # xs \<Rightarrow> (True, x), s') \<and>
    sl_chain s' as' \<and> sl_items s' = tl (sl_items s) \<and> dom (l_heap s') = dom (l_heap s)"
proof (cases "l_head s = l_tail s")
  case True
  then show ?thesis using sl_empty_ok [OF assms] assms sl_items_eq [OF assms]
    by (intro exI [of _ s] exI [of _ as]) (simp add: sl_dequeue_def)
next
  case False
  then obtain a b bs where as: "as = a # b # bs"
    using sl_empty_ok [OF assms] assms by (cases as; cases "tl as") (auto simp: sl_chain_def)
  then obtain hn nd where n: "l_head s = a" "l_heap s a = Some hn" "l_next hn = b" "l_heap s b = Some nd"
    using assms by (auto simp: sl_chain_def split: option.splits)
  have ch: "sl_chain (s\<lparr>l_head := b\<rparr>) (b # bs)"
    using assms as n by (auto simp: sl_chain_def split: option.splits)
  show ?thesis
    using False n ch sl_items_eq [OF assms] sl_items_eq [OF ch] as
    by (intro exI [of _ "s\<lparr>l_head := b\<rparr>"] exI [of _ "b # bs"]) (simp add: sl_dequeue_def)
qed

interpretation single_list: fifo sl_enqueue sl_dequeue sl_is_empty sl_inv sl_items "\<lambda>s. dom (l_heap s)" "0 :: 'a::zero"
proof (unfold_locales, goal_cases)
  case (1 s a x)
  then obtain as where "sl_chain s as" by (auto simp: sl_inv_def)
  from sl_enqueue_ok [OF this 1(2,3), of x] show ?case by (auto simp: sl_inv_def)
next
  case (2 s)
  then obtain as where "sl_chain s as" by (auto simp: sl_inv_def)
  from sl_dequeue_ok [OF this] show ?case by (auto simp: sl_inv_def)
next
  case (3 s)
  then obtain as where "sl_chain s as" by (auto simp: sl_inv_def)
  from sl_empty_ok [OF this] sl_items_eq [OF this] show ?case by (simp add: sl_is_empty_def)
qed

section \<open>Properties\<close>

text \<open>
  C18: SingleList: every sequence of enqueues (with node addresses that the allocator has
  not handed out yet) and dequeues on a new list returns without a fault, the dequeues
  return what a list of items returns (the oldest item, or false and NULL when it is
  empty), and the items left in the heap are those left in the list.
\<close>

theorem single_list_fifo:
  assumes "n \<noteq> NULL" "distinct (put_addrs ops)" "set (put_addrs ops) \<inter> {NULL, n} = {}"
  shows "\<exists>s'. fifo_run sl_enqueue sl_dequeue ops (sl_new n :: 'a::zero slist) = Inr (fst (list_run 0 ops []), s') \<and>
    sl_items s' = snd (list_run 0 ops [])"
proof -
  let ?s = "sl_new n :: 'a slist"
  have "sl_inv ?s" using sl_new_ok [OF assms(1)] by (auto simp: sl_inv_def)
  moreover have "sl_items ?s = []" using sl_items_eq [OF sl_new_ok [OF assms(1)]] by simp
  moreover have "dom (l_heap ?s) = {n}" by (simp add: sl_new_def)
  ultimately show ?thesis using single_list.fifo_run_eq [of ?s ops] assms(2,3) by auto
qed

lemma single_list_fifo_witness:
  "\<exists>s'. fifo_run sl_enqueue sl_dequeue [Put 5 2, Take, Put (6::nat) 3, Put 7 4, Take, Take, Take] (sl_new 1) =
     Inr (fst (list_run 0 [Put 5 2, Take, Put 6 3, Put 7 4, Take, Take, Take] []), s') \<and>
   sl_items s' = snd (list_run 0 [Put 5 2, Take, Put 6 3, Put 7 4, Take, Take, Take] [])"
  by (rule single_list_fifo) simp_all

end
