(* ===== verification/Graph_Search.thy ===== *)
theory Graph_Search
  imports Single_List
begin

text \<open>
  The breadth first searches of src/src/benchmark/bfs on the graphs of graph.cc: the
  parser of graph files, bfs_sequential and bfs_analyzer (which keep their current vertex
  in a reference to the root) and the shortest path search of spf_sequential. The queue
  of the searches is the list of its items; single_list_fifo shows that SingleList
  behaves like it.
\<close>

section \<open>Graphs\<close>

definition no_distance :: nat where
  "no_distance = 2 ^ 64 - 1"

definition no_parent :: nat where
  "no_parent = 2 ^ 64 - 1"

record vertex =
  neighbors :: "nat list"
  distance :: nat
  parent :: nat

definition new_vertex :: vertex where
  "new_vertex = \<lparr>neighbors = [], distance = no_distance, parent = no_parent\<rparr>"

type_synonym graph = "vertex list"

section \<open>Reading graph files\<close>

text \<open>The tokens of a line between blanks; keep_empty is false in every call.\<close>

fun tokens_of :: "string \<Rightarrow> string \<Rightarrow> string list" where
  "tokens_of cur [] = (if cur = [] then [] else [cur])"
| "tokens_of cur (c # cs) = (if c = CHR '' ''
     then (if cur = [] then [] else [cur]) @ tokens_of [] cs else tokens_of (cur @ [c]) cs)"

definition atol :: "string \<Rightarrow> nat" where
  "atol str = nat (strtol str mod 2 ^ 64)"

fun tokenize_toks :: "string list \<Rightarrow> fault + nat list" where
  "tokenize_toks [] = Inr []"
| "tokenize_toks (tok # toks) = (if atol tok = 0 then Inl (Abort ''tokenize: invalid graph file'')
     else map_sum id ((#) (atol tok - 1)) (tokenize_toks toks))"

definition tokenize :: "string \<Rightarrow> fault + nat list" where
  "tokenize source = tokenize_toks (tokens_of [] source)"

definition is_comment :: "string \<Rightarrow> bool" where
  "is_comment source \<longleftrightarrow> source \<noteq> [] \<and> hd source = CHR ''%''"

text \<open>
  The lines fgets delivers from the rest of a file with a buffer of size BUFSIZ: up to
  the next newline, and at most BUFSIZ - 1 characters. The newline is removed.
\<close>

definition BUFSIZ :: nat where
  "BUFSIZ = 8192"

definition newline :: char where
  "newline = CHR 0x0A"

fun fgets_lines :: "nat \<Rightarrow> string \<Rightarrow> string \<Rightarrow> string list" where
  "fgets_lines room cur [] = (if cur = [] \<and> room = BUFSIZ - 1 then [] else [cur])"
| "fgets_lines room cur (c # cs) =
     (if c = newline then cur # fgets_lines (BUFSIZ - 1) [] cs
      else if room = 1 then (cur @ [c]) # fgets_lines (BUFSIZ - 1) [] cs
      else fgets_lines (room - 1) (cur @ [c]) cs)"

definition lines_of :: "string \<Rightarrow> string list" where
  "lines_of content = filter (\<lambda>l. \<not> is_comment l) (fgets_lines (BUFSIZ - 1) [] content)"

fun read_adjacency :: "nat \<Rightarrow> string list \<Rightarrow> graph \<Rightarrow> fault + graph" where
  "read_adjacency i [] g = Inr g"
| "read_adjacency i (l # ls) g = (if i < length g
     then (case tokenize l of
        Inl e \<Rightarrow> Inl e
      | Inr ns \<Rightarrow> read_adjacency (i + 1) ls (g[i := (g ! i)\<lparr>neighbors := ns\<rparr>]))
     else Inl (Undefined ''vertices_[id]''))"

definition from_graph_file :: "string \<Rightarrow> fault + graph" where
  "from_graph_file content = (case lines_of content of
     [] \<Rightarrow> Inl (Undefined ''num_vertices_'')
   | l # ls \<Rightarrow> (case tokenize l of
       Inl e \<Rightarrow> Inl e
     | Inr [] \<Rightarrow> Inl (Abort ''from_graph_file: invalid graph file'')
     | Inr (t # ts) \<Rightarrow> read_adjacency 0 ls (replicate (t + 1) new_vertex)))"

fun read_entries :: "string list \<Rightarrow> graph \<Rightarrow> fault + graph" where
  "read_entries [] g = Inr g"
| "read_entries (l # ls) g = (case tokenize l of
     Inl e \<Rightarrow> Inl e
   | Inr (r # c # ts) \<Rightarrow>
       (if 1 \<le> r \<and> r - 1 < length g
        then read_entries ls (g[r - 1 := (g ! (r - 1))\<lparr>neighbors := neighbors (g ! (r - 1)) @ [(c + (2 ^ 64 - 1)) mod 2 ^ 64]\<rparr>])
        else Inl (Abort ''assert''))
   | Inr _ \<Rightarrow> Inl (Undefined ''tokens[1]''))"

definition from_mtx_file :: "string \<Rightarrow> fault + graph" where
  "from_mtx_file content = (case lines_of content of
     [] \<Rightarrow> Inl (Undefined ''num_vertices_'')
   | l # ls \<Rightarrow> (case tokenize l of
       Inl e \<Rightarrow> Inl e
     | Inr [] \<Rightarrow> Inl (Abort ''from_mtx_file: invalid matrix market format file'')
     | Inr (t # ts) \<Rightarrow> read_entries ls (replicate t new_vertex)))"

section \<open>The searches\<close>

text \<open>
  One pass over the neighbors of the vertex at index cur; distances are 64 bit words.
\<close>

fun bfs_scan :: "nat \<Rightarrow> nat list \<Rightarrow> graph \<times> nat list \<Rightarrow> fault + graph \<times> nat list" where
  "bfs_scan cur [] (g, q) = Inr (g, q)"
| "bfs_scan cur (n # ns) (g, q) =
     (if length g \<le> n then Inl (Undefined ''vertices_[index]'')
      else if distance (g ! n) = no_distance
      then bfs_scan cur ns (g[n := (g ! n)\<lparr>distance := (distance (g ! cur) + 1) mod 2 ^ 64\<rparr>], q @ [n])
      else bfs_scan cur ns (g, q))"

text \<open>
  The loop of bfs_sequential: cur_vertex is a reference to the root's vertex, and the
  assignment cur_vertex = g->get(vertex_index) copies the vertex into it.
\<close>

partial_function (option) bfs_loop :: "nat \<Rightarrow> graph \<times> nat list \<Rightarrow> (fault + graph) option" where
  "bfs_loop root gq = (case snd gq of
     [] \<Rightarrow> Some (Inr (fst gq))
   | v # q \<Rightarrow> if length (fst gq) \<le> v then Some (Inl (Undefined ''vertices_[index]''))
       else let g = (fst gq)[root := fst gq ! v]
         in case bfs_scan root (neighbors (g ! root)) (g, q) of
              Inl e \<Rightarrow> Some (Inl e) | Inr gq' \<Rightarrow> bfs_loop root gq')"

definition bfs_sequential :: "nat \<Rightarrow> graph \<Rightarrow> (fault + graph) option" where
  "bfs_sequential root g = (if length g \<le> root then Some (Inl (Undefined ''vertices_[index]''))
     else bfs_loop root (g[root := (g ! root)\<lparr>distance := 0\<rparr>], [root]))"

text \<open>
  The backtrace main prints: the current vertex is a reference to the end vertex, into
  which every vertex on the way is copied.
\<close>

partial_function (option) print_backtrace :: "nat \<Rightarrow> nat \<Rightarrow> graph \<Rightarrow> (fault + nat list) option" where
  "print_backtrace root target g = (let p = parent (g ! target)
     in if p = root then Some (Inr [p])
        else if length g \<le> p then Some (Inl (Undefined ''vertices_[index]''))
        else Option.bind (print_backtrace root target (g[target := g ! p])) (\<lambda>r. Some (map_sum id ((#) p) r)))"

text \<open>
  spf_sequential: the current vertex is a reference to the vertex itself; the search
  stops when it reaches the end vertex. analyze also records parents.
\<close>

fun spf_scan :: "bool \<Rightarrow> nat \<Rightarrow> nat \<Rightarrow> nat list \<Rightarrow> graph \<times> nat list \<Rightarrow> fault + bool \<times> graph \<times> nat list" where
  "spf_scan backtrace target cur [] (g, q) = Inr (False, g, q)"
| "spf_scan backtrace target cur (n # ns) (g, q) =
     (if length g \<le> n then Inl (Undefined ''vertices_[index]'')
      else if distance (g ! n) = no_distance
      then let g' = g[n := (g ! n)\<lparr>distance := (distance (g ! cur) + 1) mod 2 ^ 64,
                 parent := (if backtrace then cur else parent (g ! n))\<rparr>]
        in if n = target then Inr (True, g', q) else spf_scan backtrace target cur ns (g', q @ [n])
      else spf_scan backtrace target cur ns (g, q))"

partial_function (option) spf_loop :: "bool \<Rightarrow> nat \<Rightarrow> graph \<times> nat list \<Rightarrow> (fault + graph) option" where
  "spf_loop backtrace target gq = (case snd gq of
     [] \<Rightarrow> Some (Inr (fst gq))
   | v # q \<Rightarrow> if length (fst gq) \<le> v then Some (Inl (Undefined ''vertices_[index]''))
       else case spf_scan backtrace target v (neighbors (fst gq ! v)) (fst gq, q) of
              Inl e \<Rightarrow> Some (Inl e)
            | Inr (stop, gq') \<Rightarrow> if stop then Some (Inr (fst gq')) else spf_loop backtrace target gq')"

definition analyze :: "nat \<Rightarrow> graph \<times> nat list \<Rightarrow> (fault + graph) option" where
  "analyze = spf_loop True"

definition performance :: "nat \<Rightarrow> graph \<times> nat list \<Rightarrow> (fault + graph) option" where
  "performance = spf_loop False"

definition spf_sequential :: "bool \<Rightarrow> nat \<Rightarrow> nat \<Rightarrow> graph \<Rightarrow> (fault + graph) option" where
  "spf_sequential backtrace root target g =
    (if length g \<le> root then Some (Inl (Undefined ''vertices_[index]''))
     else let gq = (g[root := (g ! root)\<lparr>distance := 0, parent := no_parent\<rparr>], [root])
       in if backtrace then analyze target gq else performance target gq)"

section \<open>Walks and distances\<close>

inductive walk :: "(nat \<Rightarrow> nat list) \<Rightarrow> nat \<Rightarrow> nat \<Rightarrow> nat \<Rightarrow> bool" for adj root where
  walk_0: "walk adj root 0 root"
| walk_Suc: "walk adj root k v \<Longrightarrow> n \<in> set (adj v) \<Longrightarrow> walk adj root (Suc k) n"

inductive_cases walk_SucE: "walk adj root (Suc k) n"

definition shortest :: "(nat \<Rightarrow> nat list) \<Rightarrow> nat \<Rightarrow> nat \<Rightarrow> nat \<Rightarrow> bool" where
  "shortest adj root v k \<longleftrightarrow> walk adj root k v \<and> (\<forall>j < k. \<not> walk adj root j v)"

lemma shortest_unique: "shortest adj root v j \<Longrightarrow> shortest adj root v k \<Longrightarrow> j = k"
  unfolding shortest_def by (metis nat_neq_iff)

definition adjacency :: "graph \<Rightarrow> nat \<Rightarrow> nat list" where
  "adjacency g v = neighbors (g ! v)"

definition fresh_graph :: "graph \<Rightarrow> bool" where
  "fresh_graph g \<longleftrightarrow> length g < no_distance \<and>
     list_all (\<lambda>x. distance x = no_distance \<and> list_all (\<lambda>n. n < length g) (neighbors x)) g"

section \<open>The search on distance maps\<close>

text \<open>
  The invariant of the search on abstract distances d: L is the level of the vertex that
  is scanned (or of the head of the queue), C the vertex that is scanned, if any.
\<close>

definition levels :: "(nat \<Rightarrow> nat list) \<Rightarrow> nat \<Rightarrow> nat set \<Rightarrow> nat \<Rightarrow> (nat \<Rightarrow> nat option) \<Rightarrow> nat list \<Rightarrow> bool" where
  "levels adj root C L d q \<longleftrightarrow>
     d root = Some 0 \<and> (\<forall>v k. d v = Some k \<longrightarrow> walk adj root k v \<and> k \<le> Suc L \<and> k < card (dom d)) \<and>
     finite (dom d) \<and>
     (\<forall>v \<in> set q. d v = Some L \<or> d v = Some (Suc L)) \<and> (\<forall>v \<in> C. d v = Some L) \<and>
     sorted_wrt (\<lambda>x y. the (d x) \<le> the (d y)) q \<and>
     (\<forall>u k. d u = Some k \<longrightarrow> u \<notin> set q \<longrightarrow> u \<notin> C \<longrightarrow> (\<forall>n \<in> set (adj u). \<exists>j. d n = Some j \<and> j \<le> Suc k))"

lemma levelsD:
  assumes "levels adj root C L d q"
  shows "d root = Some 0" "d v = Some k \<Longrightarrow> walk adj root k v" "d v = Some k \<Longrightarrow> k \<le> Suc L"
    "d v = Some k \<Longrightarrow> k < card (dom d)" "finite (dom d)"
    "v \<in> set q \<Longrightarrow> d v = Some L \<or> d v = Some (Suc L)" "v \<in> C \<Longrightarrow> d v = Some L"
    "sorted_wrt (\<lambda>x y. the (d x) \<le> the (d y)) q"
    "d u = Some k \<Longrightarrow> u \<notin> set q \<Longrightarrow> u \<notin> C \<Longrightarrow> n \<in> set (adj u) \<Longrightarrow> \<exists>j. d n = Some j \<and> j \<le> Suc k"
  using assms by (auto simp: levels_def)

lemma levelsI:
  assumes "d root = Some 0" "\<And>v k. d v = Some k \<Longrightarrow> walk adj root k v" "\<And>v k. d v = Some k \<Longrightarrow> k \<le> Suc L"
    "\<And>v k. d v = Some k \<Longrightarrow> k < card (dom d)" "finite (dom d)"
    "\<And>v. v \<in> set q \<Longrightarrow> d v = Some L \<or> d v = Some (Suc L)" "\<And>v. v \<in> C \<Longrightarrow> d v = Some L"
    "sorted_wrt (\<lambda>x y. the (d x) \<le> the (d y)) q"
    "\<And>u k n. d u = Some k \<Longrightarrow> u \<notin> set q \<Longrightarrow> u \<notin> C \<Longrightarrow> n \<in> set (adj u) \<Longrightarrow> \<exists>j. d n = Some j \<and> j \<le> Suc k"
  shows "levels adj root C L d q"
  using assms by (simp add: levels_def)

lemma levels_init: "levels adj root {} 0 [root \<mapsto> 0] [root]"
  by (rule levelsI) (auto intro: walk_0 split: if_splits)

lemma levels_dequeue:
  assumes "levels adj root {} L d (v # q)"
  shows "\<exists>L'. d v = Some L' \<and> levels adj root {v} L' d q"
proof -
  note D = levelsD [OF assms]
  obtain L' where v: "d v = Some L'" "L' = L \<or> L' = Suc L" using D(6) [of v] by auto
  have "levels adj root {v} L' d q"
  proof (rule levelsI)
    show "k \<le> Suc L'" if "d u = Some k" for u k using D(3) [OF that] v(2) by auto
    show "d u = Some L' \<or> d u = Some (Suc L')" if "u \<in> set q" for u
      using D(6) [of u] D(8) that v by auto
    show "\<exists>j. d n = Some j \<and> j \<le> Suc k" if "d u = Some k" "u \<notin> set q" "u \<notin> {v}" "n \<in> set (adj u)" for u k n
      using D(9) [of u k n] that by simp
  qed (use D(1,2,4,5,8) v in auto)
  then show ?thesis using v by blast
qed

lemma levels_discover:
  assumes "levels adj root {v} L d q" "d n = None" "n \<in> set (adj v)"
  shows "levels adj root {v} L (d(n \<mapsto> Suc L)) (q @ [n])"
proof -
  note D = levelsD [OF assms(1)]
  let ?d = "d(n \<mapsto> Suc L)"
  have v: "d v = Some L" using D(7) by simp
  have c: "card (dom ?d) = Suc (card (dom d))" using D(5) assms(2) by (simp add: domIff)
  have nq: "n \<notin> set q" "n \<noteq> v" "n \<noteq> root" using assms(2) v D(1) D(6) [of n] by auto
  show ?thesis
  proof (rule levelsI)
    show "?d root = Some 0" using D(1) nq by simp
    show "walk adj root k u" if "?d u = Some k" for u k
      using that D(2) [of u k] walk_Suc [OF D(2) [OF v] assms(3)] by (auto split: if_splits)
    show "k \<le> Suc L" if "?d u = Some k" for u k using that D(3) [of u k] by (auto split: if_splits)
    show "k < card (dom ?d)" if "?d u = Some k" for u k
      using that D(4) [of u k] D(4) [OF v] unfolding c by (auto split: if_splits)
    show "finite (dom ?d)" using D(5) by simp
    show "?d u = Some L \<or> ?d u = Some (Suc L)" if "u \<in> set (q @ [n])" for u using that D(6) [of u] by auto
    show "?d u = Some L" if "u \<in> {v}" for u using that v nq by simp
    have "sorted_wrt (\<lambda>x y. the (?d x) \<le> the (?d y)) q"
      by (rule sorted_wrt_mono_rel [OF _ D(8)]) (use nq in auto)
    moreover have "the (d x) \<le> Suc L" if "x \<in> set q" for x using D(6) [OF that] by auto
    ultimately show "sorted_wrt (\<lambda>x y. the (?d x) \<le> the (?d y)) (q @ [n])"
      using nq by (auto simp: sorted_wrt_append)
    show "\<exists>j. ?d m = Some j \<and> j \<le> Suc k"
      if "?d u = Some k" "u \<notin> set (q @ [n])" "u \<notin> {v}" "m \<in> set (adj u)" for u k m
    proof -
      note h = that
      have "d u = Some k" "u \<notin> set q" using h by (auto split: if_splits)
      then obtain j where "d m = Some j" "j \<le> Suc k" using D(9) [of u k m] h(3,4) by blast
      then show ?thesis using assms(2) by (intro exI [of _ j]) auto
    qed
  qed
qed

lemma levels_scanned:
  assumes "levels adj root {v} L d q" "\<forall>n \<in> set (adj v). d n \<noteq> None"
  shows "levels adj root {} L d q"
proof -
  note D = levelsD [OF assms(1)]
  have v: "d v = Some L" using D(7) by simp
  show ?thesis
  proof (rule levelsI)
    show "\<exists>j. d n = Some j \<and> j \<le> Suc k" if "d u = Some k" "u \<notin> set q" "n \<in> set (adj u)" for u k n
      using D(9) [of u k n] D(3) [of n] that assms(2) v by (cases "u = v") auto
  qed (use D(1-6,8) in auto)
qed

text \<open>Every walk that is no longer than the level leads to a vertex that was discovered in time.\<close>

lemma levels_walks:
  assumes "levels adj root C L d q"
  shows "walk adj root j v \<Longrightarrow> j \<le> L \<or> q = [] \<and> C = {} \<Longrightarrow> \<exists>k \<le> j. d v = Some k"
proof (induction rule: walk.induct)
  case walk_0
  then show ?case using levelsD(1) [OF assms] by simp
next
  case (walk_Suc j u n)
  then obtain k where k: "k \<le> j" "d u = Some k" by force
  have "u \<notin> set q \<and> u \<notin> C"
    using walk_Suc.prems k levelsD(6,7) [OF assms, of u] by auto
  then obtain i where "d n = Some i" "i \<le> Suc k"
    using levelsD(9) [OF assms k(2)] walk_Suc.hyps(2) by blast
  then show ?case using k(1) by auto
qed

lemma levels_shortest:
  assumes "levels adj root {} L d []"
  shows "d v = Some k \<longleftrightarrow> shortest adj root v k" "d v = None \<longleftrightarrow> (\<nexists>k. walk adj root k v)"
proof -
  have b: "\<exists>k \<le> j. d v = Some k" if "walk adj root j v" for j
    using levels_walks [OF assms that] by blast
  have a: "shortest adj root v k" if "d v = Some k" for k
    using levelsD(2) [OF assms that] b that by (force simp: shortest_def)
  show "d v = Some k \<longleftrightarrow> shortest adj root v k"
  proof
    assume s: "shortest adj root v k"
    then obtain k' where k': "k' \<le> k" "d v = Some k'" using b by (auto simp: shortest_def)
    have "walk adj root k' v" using a [OF k'(2)] by (simp add: shortest_def)
    then have "\<not> k' < k" using s by (auto simp: shortest_def)
    then show "d v = Some k" using k' by simp
  qed (rule a)
  show "d v = None \<longleftrightarrow> (\<nexists>k. walk adj root k v)"
    using levelsD(2) [OF assms, of v] b by force
qed

section \<open>The searches follow the search on distance maps\<close>

text \<open>X holds the vertices whose records are not kept (the root of bfs_sequential).\<close>

definition dist_rel :: "nat set \<Rightarrow> graph \<Rightarrow> (nat \<Rightarrow> nat option) \<Rightarrow> graph \<Rightarrow> bool" where
  "dist_rel X g0 d g \<longleftrightarrow> length g = length g0 \<and> length g0 < no_distance \<and>
     dom d \<subseteq> {..<length g0} \<and> (\<forall>v < length g0. \<forall>n \<in> set (neighbors (g0 ! v)). n < length g0) \<and>
     (\<forall>v < length g0. v \<notin> X \<longrightarrow> neighbors (g ! v) = neighbors (g0 ! v) \<and>
        distance (g ! v) = (case d v of None \<Rightarrow> no_distance | Some k \<Rightarrow> k))"

lemma dist_relD:
  assumes "dist_rel X g0 d g"
  shows "length g = length g0" "length g0 < no_distance" "dom d \<subseteq> {..<length g0}"
    "v < length g0 \<Longrightarrow> n \<in> set (neighbors (g0 ! v)) \<Longrightarrow> n < length g0"
    "v < length g0 \<Longrightarrow> v \<notin> X \<Longrightarrow> neighbors (g ! v) = neighbors (g0 ! v)"
    "v < length g0 \<Longrightarrow> v \<notin> X \<Longrightarrow> distance (g ! v) = (case d v of None \<Rightarrow> no_distance | Some k \<Rightarrow> k)"
  using assms by (auto simp: dist_rel_def)

lemma dist_rel_update:
  assumes "dist_rel X g0 d g" "n < length g0" "n \<notin> X" "neighbors x = neighbors (g ! n)" "distance x = k"
  shows "dist_rel X g0 (d(n \<mapsto> k)) (g[n := x])"
  using assms by (auto simp: dist_rel_def nth_list_update)

lemma dist_rel_skip:
  assumes "dist_rel X g0 d g" "n \<in> X"
  shows "dist_rel X g0 d (g[n := x])"
proof -
  have "g[n := x] ! v = g ! v" if "v \<notin> X" for v using that assms(2) by (cases "n = v") auto
  then show ?thesis using assms(1) by (simp add: dist_rel_def)
qed

lemma dist_rel_init:
  assumes "fresh_graph g" "root < length g" "neighbors x = neighbors (g ! root)" "distance x = 0"
  shows "dist_rel X g [root \<mapsto> 0] (g[root := x])"
proof -
  have "length g < no_distance" "distance (g ! v) = no_distance" "\<forall>n \<in> set (neighbors (g ! v)). n < length g"
    if "v < length g" for v
    using assms(1) nth_mem [OF that] by (auto simp: fresh_graph_def list_all_iff)
  then show ?thesis using assms(2-4) by (auto simp: dist_rel_def nth_list_update)
qed

lemma levels_bound:
  assumes "levels adj root C L d q" "dist_rel X g0 d g" "d v = Some k"
  shows "k < length g0" "(k + 1) mod 2 ^ 64 = Suc k" "k \<noteq> no_distance"
proof -
  have "card (dom d) \<le> length g0"
    using card_mono [OF _ dist_relD(3) [OF assms(2)]] by simp
  then show "k < length g0" using levelsD(4) [OF assms(1,3)] by simp
  then have "Suc k < 2 ^ 64" using dist_relD(2) [OF assms(2)] by (simp add: no_distance_def)
  then show "(k + 1) mod 2 ^ 64 = Suc k" by simp
  show "k \<noteq> no_distance" using \<open>k < length g0\<close> dist_relD(2) [OF assms(2)] by simp
qed

text \<open>What a scan of the neighbors of v leaves: everything it saw is discovered.\<close>

definition scanned :: "graph \<Rightarrow> nat \<Rightarrow> nat \<Rightarrow> nat set \<Rightarrow> nat \<Rightarrow> nat list \<Rightarrow> (nat \<Rightarrow> nat option) \<Rightarrow> nat list
    \<Rightarrow> graph \<Rightarrow> (nat \<Rightarrow> nat option) \<Rightarrow> nat list \<Rightarrow> bool" where
  "scanned g0 root v X L ns d q g' d' q' \<longleftrightarrow>
     levels (adjacency g0) root {v} L d' q' \<and> dist_rel X g0 d' g' \<and> d \<subseteq>\<^sub>m d' \<and>
     (\<forall>n \<in> set ns. d' n \<noteq> None) \<and> length q' + card (dom d) = length q + card (dom d') \<and>
     set q \<subseteq> set q' \<and> dom d' \<subseteq> dom d \<union> set q' \<and>
     (root \<notin> set q \<longrightarrow> root \<notin> set q')"

lemma scanned_nil:
  "levels (adjacency g0) root {v} L d q \<Longrightarrow> dist_rel X g0 d g \<Longrightarrow> scanned g0 root v X L [] d q g d q"
  by (simp add: scanned_def)

lemma scanned_old:
  assumes "scanned g0 root v X L ns d q g' d' q'" "d n \<noteq> None"
  shows "scanned g0 root v X L (n # ns) d q g' d' q'"
proof -
  have "d' n \<noteq> None" using assms by (auto simp: scanned_def map_le_def dest: bspec [of _ _ n])
  then show ?thesis using assms(1) by (simp add: scanned_def)
qed

lemma scanned_new:
  assumes "scanned g0 root v X L ns (d(n \<mapsto> k)) (q @ [n]) g' d' q'" "d n = None" "n \<noteq> root" "finite (dom d)"
  shows "scanned g0 root v X L (n # ns) d q g' d' q'"
proof -
  have s: "d(n \<mapsto> k) \<subseteq>\<^sub>m d'" using assms(1) by (simp add: scanned_def)
  then have "d' n = Some k" by (auto simp: map_le_def dest: bspec [of _ _ n])
  moreover have "d \<subseteq>\<^sub>m d'" using s assms(2) by (force simp: map_le_def domIff split: if_splits)
  moreover have "card (dom (d(n \<mapsto> k))) = Suc (card (dom d))" using assms(2,4) by (simp add: domIff)
  moreover have "dom d' \<subseteq> dom d \<union> set q'" "set q \<subseteq> set q'" using assms(1) by (auto simp: scanned_def)
  ultimately show ?thesis using assms(1,3) by (simp add: scanned_def)
qed

lemma bfs_scan_ok:
  assumes "levels (adjacency g0) root {v} L d q" "dist_rel {root} g0 d g" "distance (g ! root) = L"
    "root < length g0" "set ns \<subseteq> set (adjacency g0 v)" "v < length g0"
  shows "\<exists>g' d' q'. bfs_scan root ns (g, q) = Inr (g', q') \<and> scanned g0 root v {root} L ns d q g' d' q' \<and>
    g' ! root = g ! root"
  using assms
proof (induction ns arbitrary: g d q)
  case Nil
  then show ?case using scanned_nil [OF Nil.prems(1,2)] by (intro exI conjI) simp_all
next
  case (Cons n ns)
  note D = levelsD [OF Cons.prems(1)] and R = dist_relD [OF Cons.prems(2)]
  have n: "n < length g0" using R(4) [of v n] Cons.prems(5,6) by (simp add: adjacency_def)
  have vL: "d v = Some L" using D(7) by simp
  note B = levels_bound [OF Cons.prems(1,2) vL]
  show ?case
  proof (cases "d n")
    case None
    then have nr: "n \<noteq> root" using D(1) by auto
    have dn: "distance (g ! n) = no_distance" using R(6) [of n] n nr None by simp
    let ?x = "(g ! n)\<lparr>distance := Suc L\<rparr>"
    have lv: "levels (adjacency g0) root {v} L (d(n \<mapsto> Suc L)) (q @ [n])"
      using levels_discover [OF Cons.prems(1) None] Cons.prems(5) by simp
    have rl: "dist_rel {root} g0 (d(n \<mapsto> Suc L)) (g[n := ?x])"
      using dist_rel_update [OF Cons.prems(2) n] nr by simp
    from Cons.IH [OF lv rl] Cons.prems(3-6) nr obtain g' d' q' where
      I: "bfs_scan root ns (g[n := ?x], q @ [n]) = Inr (g', q')"
        "scanned g0 root v {root} L ns (d(n \<mapsto> Suc L)) (q @ [n]) g' d' q'" "g' ! root = g ! root"
      by (auto simp del: fun_upd_apply)
    then show ?thesis using scanned_new [OF I(2) None nr D(5)] n R(1) dn B(2) Cons.prems(3)
      by (intro exI [of _ g'] exI [of _ d'] exI [of _ q']) (simp add: mult.commute)
  next
    case (Some k)
    have dn: "distance (g ! n) \<noteq> no_distance"
    proof (cases "n = root")
      case True
      then show ?thesis using Cons.prems(3) B(3) by simp
    next
      case False
      then show ?thesis using R(6) [of n] n Some levels_bound(3) [OF Cons.prems(1,2) Some] by simp
    qed
    from Cons.IH [OF Cons.prems(1-4)] Cons.prems(5,6) obtain g' d' q' where
      I: "bfs_scan root ns (g, q) = Inr (g', q')" "scanned g0 root v {root} L ns d q g' d' q'"
        "g' ! root = g ! root" by auto
    then show ?thesis using scanned_old [OF I(2)] Some n R(1) dn
      by (intro exI [of _ g'] exI [of _ d'] exI [of _ q']) simp
  qed
qed

text \<open>
  The record at the root is a copy of that of the vertex dequeued last, which is at the
  present level L; a vertex at a higher level is still in the queue.
\<close>

definition root_copy :: "graph \<Rightarrow> nat \<Rightarrow> nat \<Rightarrow> (nat \<Rightarrow> nat option) \<Rightarrow> nat list \<Rightarrow> graph \<Rightarrow> bool" where
  "root_copy g0 root L d q g \<longleftrightarrow> (\<exists>v. d v = Some L \<and> distance (g ! root) = L \<and> neighbors (g ! root) = adjacency g0 v) \<and>
     (\<forall>u k. d u = Some k \<longrightarrow> u \<notin> set q \<longrightarrow> k \<le> L)"

lemma bfs_loop_ok:
  assumes "levels (adjacency g0) root {} L d q" "dist_rel {root} g0 d g" "root < length g0"
    "root \<notin> set q \<or> q = [root] \<and> neighbors (g ! root) = neighbors (g0 ! root) \<and> distance (g ! root) = 0"
    "root_copy g0 root L d q g"
  shows "\<exists>g' L' d'. bfs_loop root (g, q) = Some (Inr g') \<and> levels (adjacency g0) root {} L' d' [] \<and>
    dist_rel {root} g0 d' g' \<and> root_copy g0 root L' d' [] g'"
  using assms
proof (induction "length q + (length g0 - card (dom d))" arbitrary: L d q g rule: less_induct)
  case less
  show ?case
  proof (cases q)
    case Nil
    then show ?thesis using less.prems(1,2,5) by (auto simp: bfs_loop.simps)
  next
    case (Cons v q1)
    obtain L' where v: "d v = Some L'" and lv: "levels (adjacency g0) root {v} L' d q1"
      using levels_dequeue less.prems(1) Cons by blast
    have LL: "L \<le> L'" using levelsD(6) [OF less.prems(1), of v] v Cons by auto
    note R = dist_relD [OF less.prems(2)]
    have vl: "v < length g0" using R(3) v by auto
    let ?g = "g[root := g ! v]"
    have root: "?g ! root = g ! v" using less.prems(3) R(1) by simp
    have nb: "neighbors (g ! v) = adjacency g0 v" "distance (g ! v) = L'"
      using R(5,6) [OF vl] less.prems(4) v Cons levelsD(1) [OF less.prems(1)]
      by (cases "v = root"; auto simp: adjacency_def)+
    obtain g' d' q' where S: "bfs_scan root (adjacency g0 v) (?g, q1) = Inr (g', q')"
      "scanned g0 root v {root} L' (adjacency g0 v) d q1 g' d' q'" "g' ! root = g ! v"
      using bfs_scan_ok [OF lv dist_rel_skip [OF less.prems(2)], of root "g ! v" "adjacency g0 v"]
        nb(2) root less.prems(3) vl by auto
    have st: "bfs_loop root (g, q) = bfs_loop root (g', q')"
      using S(1) root nb(1) vl R(1) Cons by (subst bfs_loop.simps) (simp add: Let_def)
    have lv': "levels (adjacency g0) root {} L' d' q'" and r': "dist_rel {root} g0 d' g'"
      and le: "length q' + card (dom d) = length q1 + card (dom d')" and nr: "root \<notin> set q'"
      using S(2) less.prems(4) Cons by (auto simp: scanned_def intro!: levels_scanned)
    have "card (dom d') \<le> length g0" using card_mono [OF _ dist_relD(3) [OF r']] by simp
    then have m: "length q' + (length g0 - card (dom d')) < length q + (length g0 - card (dom d))"
      using le Cons by simp
    have "root_copy g0 root L' d' q' g'" unfolding root_copy_def
    proof (intro conjI allI impI exI [of _ v])
      have sub: "d \<subseteq>\<^sub>m d'" "set q1 \<subseteq> set q'" "dom d' \<subseteq> dom d \<union> set q'" using S(2) by (simp_all add: scanned_def)
      have same: "d' u = d u" if "u \<in> dom d" for u using sub(1) that by (auto simp: map_le_def)
      show "d' v = Some L'" using same [of v] v by auto
      show "distance (g' ! root) = L'" "neighbors (g' ! root) = adjacency g0 v" using S(3) nb by simp_all
      fix u k assume u: "d' u = Some k" "u \<notin> set q'"
      then have du: "d u = Some k" using same [of u] sub(3) by fastforce
      show "k \<le> L'"
      proof (cases "u = v")
        case False
        then have "u \<notin> set q" using u(2) sub(2) Cons by auto
        then have "k \<le> L" using less.prems(5) du unfolding root_copy_def by blast
        then show ?thesis using LL by simp
      qed (use du v in simp)
    qed
    then show ?thesis unfolding st using less.hyps [OF m lv' r' less.prems(3)] nr by blast
  qed
qed

lemma bfs_sequential_ok:
  assumes "fresh_graph g" "root < length g"
  shows "\<exists>g' L d. bfs_sequential root g = Some (Inr g') \<and> levels (adjacency g) root {} L d [] \<and>
    dist_rel {root} g d g' \<and> root_copy g root L d [] g'"
proof -
  let ?g = "g[root := (g ! root)\<lparr>distance := 0\<rparr>]"
  have "root_copy g root 0 [root \<mapsto> 0] [root] ?g" using assms(2) by (auto simp: root_copy_def adjacency_def)
  then show ?thesis
    using bfs_loop_ok [OF levels_init dist_rel_init [OF assms], of "(g ! root)\<lparr>distance := 0\<rparr>"] assms(2)
    by (auto simp: bfs_sequential_def)
qed

text \<open>
  C19: bfs_sequential terminates, and every vertex other than the root ends with the length
  of a shortest walk from the root as its distance, or with no_distance when no walk leads to
  it; for graphs whose neighbor lists stay in range.
\<close>

theorem bfs_distances:
  assumes "fresh_graph g" "root < length g"
  shows "\<exists>g'. bfs_sequential root g = Some (Inr g') \<and> length g' = length g \<and>
    (\<forall>v < length g. v \<noteq> root \<longrightarrow>
       neighbors (g' ! v) = neighbors (g ! v) \<and>
       (\<forall>k. shortest (adjacency g) root v k \<longleftrightarrow> distance (g' ! v) = k \<and> k < no_distance) \<and>
       ((\<nexists>k. walk (adjacency g) root k v) \<longrightarrow> distance (g' ! v) = no_distance))"
proof -
  obtain g' L d where B: "bfs_sequential root g = Some (Inr g')" and
    L: "levels (adjacency g) root {} L d []" and R: "dist_rel {root} g d g'"
    using bfs_sequential_ok [OF assms] by blast
  show ?thesis
  proof (intro exI [of _ g'] conjI allI impI)
    show "bfs_sequential root g = Some (Inr g')" by (rule B)
    show "length g' = length g" using dist_relD(1) [OF R] .
    fix v assume v: "v < length g" "v \<noteq> root"
    then show "neighbors (g' ! v) = neighbors (g ! v)" using dist_relD(5) [OF R] by simp
    have dv: "distance (g' ! v) = (case d v of None \<Rightarrow> no_distance | Some k \<Rightarrow> k)"
      using dist_relD(6) [OF R] v by simp
    show "shortest (adjacency g) root v k \<longleftrightarrow> distance (g' ! v) = k \<and> k < no_distance" for k
      using levels_shortest(1) [OF L, of v] levels_bound(1) [OF L R, of v] dist_relD(2) [OF R] dv
      by (cases "d v") force+
    show "distance (g' ! v) = no_distance" if "\<nexists>k. walk (adjacency g) root k v"
      using that levels_shortest(2) [OF L, of v] dv by simp
  qed
qed

text \<open>A graph of three vertices for the witnesses: 0 to 1, 1 to 0.\<close>

definition sample :: graph where
  "sample = [new_vertex\<lparr>neighbors := [1]\<rparr>, new_vertex\<lparr>neighbors := [0]\<rparr>, new_vertex]"

lemma sample_fresh: "fresh_graph sample" "length sample = 3"
  by (simp_all add: sample_def fresh_graph_def new_vertex_def no_distance_def)

lemma sample_shortest: "shortest (adjacency sample) 0 1 1"
proof -
  have "walk (adjacency sample) 0 (Suc 0) 1"
    by (rule walk_Suc [OF walk_0]) (simp add: adjacency_def sample_def)
  moreover have "\<not> walk (adjacency sample) 0 0 1"
    by (auto elim: walk.cases)
  ultimately show ?thesis by (auto simp: shortest_def)
qed

theorem bfs_distances_witness:
  "fresh_graph sample \<and> (\<exists>g'. bfs_sequential 0 sample = Some (Inr g') \<and> distance (g' ! 1) = 1)"
  using bfs_distances [of sample 0] sample_fresh sample_shortest by auto

text \<open>
  C23: the root does not keep its record: cur_vertex refers to the root's vertex, into which
  every dequeued vertex is copied, so that the root ends with the distance and the neighbors
  of a vertex that is farthest from it; its distance is 0 only if no other vertex can be
  reached.
\<close>

theorem bfs_root_overwritten:
  assumes "fresh_graph g" "root < length g"
  shows "\<exists>g' v k. bfs_sequential root g = Some (Inr g') \<and> shortest (adjacency g) root v k \<and>
    distance (g' ! root) = k \<and> neighbors (g' ! root) = neighbors (g ! v) \<and>
    (\<forall>u j. shortest (adjacency g) root u j \<longrightarrow> j \<le> k)"
proof -
  obtain g' L d where B: "bfs_sequential root g = Some (Inr g')" and
    L: "levels (adjacency g) root {} L d []" and C: "root_copy g root L d [] g'"
    using bfs_sequential_ok [OF assms] by blast
  then show ?thesis using levels_shortest(1) [OF L] by (auto simp: root_copy_def adjacency_def)
qed

theorem bfs_root_overwritten_witness:
  "\<exists>g'. bfs_sequential 0 sample = Some (Inr g') \<and> distance (g' ! 0) = 1 \<and> neighbors (g' ! 0) = [0]"
proof -
  obtain g' v k where B: "bfs_sequential 0 sample = Some (Inr g')" "shortest (adjacency sample) 0 v k"
    "distance (g' ! 0) = k" "neighbors (g' ! 0) = neighbors (sample ! v)"
    "\<forall>u j. shortest (adjacency sample) 0 u j \<longrightarrow> j \<le> k"
    using bfs_root_overwritten [of sample 0] sample_fresh by auto
  have "g' = [(new_vertex\<lparr>neighbors := [0]\<rparr>)\<lparr>distance := 1\<rparr>, (new_vertex\<lparr>neighbors := [0]\<rparr>)\<lparr>distance := 1\<rparr>, new_vertex]"
    using B(1) by (simp add: bfs_sequential_def bfs_loop.simps sample_def new_vertex_def no_distance_def Let_def)
  then show ?thesis using B(1) by simp
qed

section \<open>The shortest path search\<close>

definition parents_ok :: "graph \<Rightarrow> (nat \<Rightarrow> nat option) \<Rightarrow> graph \<Rightarrow> bool" where
  "parents_ok g0 d g \<longleftrightarrow> (\<forall>v k. d v = Some (Suc k) \<longrightarrow> parent (g ! v) < length g0 \<and>
     d (parent (g ! v)) = Some k \<and> v \<in> set (neighbors (g0 ! parent (g ! v))))"

lemma parents_ok_update:
  assumes "parents_ok g0 d g" "d n = None" "n < length g" "d v = Some k" "v < length g0"
    "n \<in> set (neighbors (g0 ! v))" "parent x = v"
  shows "parents_ok g0 (d(n \<mapsto> Suc k)) (g[n := x])"
proof -
  have "v \<noteq> n" using assms(2,4) by auto
  moreover have "parent (g ! u) \<noteq> n" if "d u = Some (Suc j)" for u j
    using assms(1,2) that by (auto simp: parents_ok_def)
  ultimately show ?thesis using assms by (auto simp: parents_ok_def nth_list_update)
qed

definition spf_done :: "graph \<Rightarrow> nat \<Rightarrow> nat \<Rightarrow> nat \<Rightarrow> graph \<Rightarrow> (nat \<Rightarrow> nat option) \<Rightarrow> bool" where
  "spf_done g0 root target L g' d' \<longleftrightarrow> dist_rel {} g0 d' g' \<and> d' target = Some (Suc L) \<and>
     (\<exists>v q'. levels (adjacency g0) root {v} L d' q') \<and> shortest (adjacency g0) root target (Suc L)"

lemma spf_scan_ok:
  assumes "levels (adjacency g0) root {v} L d q" "dist_rel {} g0 d g" "bt \<longrightarrow> parents_ok g0 d g"
    "set ns \<subseteq> set (adjacency g0 v)" "v < length g0"
  shows "\<exists>g' d' q' stop. spf_scan bt target v ns (g, q) = Inr (stop, g', q') \<and> (bt \<longrightarrow> parents_ok g0 d' g') \<and>
    (if stop then spf_done g0 root target L g' d' else scanned g0 root v {} L ns d q g' d' q')"
  using assms
proof (induction ns arbitrary: g d q)
  case Nil
  then show ?case using scanned_nil [OF Nil.prems(1,2)] by (intro exI [of _ g] exI [of _ d] exI [of _ q] exI [of _ False]) simp
next
  case (Cons n ns)
  note D = levelsD [OF Cons.prems(1)] and R = dist_relD [OF Cons.prems(2)]
  have n: "n < length g0" using R(4) [of v n] Cons.prems(4,5) by (simp add: adjacency_def)
  have vL: "d v = Some L" using D(7) by simp
  note B = levels_bound [OF Cons.prems(1,2) vL]
  have dv: "distance (g ! v) = L" using R(6) [OF Cons.prems(5)] vL by simp
  show ?case
  proof (cases "d n")
    case None
    then have nr: "n \<noteq> root" using D(1) by auto
    have dn: "distance (g ! n) = no_distance" using R(6) [of n] n None by simp
    let ?x = "(g ! n)\<lparr>distance := Suc L, parent := (if bt then v else parent (g ! n))\<rparr>"
    have lv: "levels (adjacency g0) root {v} L (d(n \<mapsto> Suc L)) (q @ [n])"
      using levels_discover [OF Cons.prems(1) None] Cons.prems(4) by simp
    have rl: "dist_rel {} g0 (d(n \<mapsto> Suc L)) (g[n := ?x])"
      using dist_rel_update [OF Cons.prems(2) n] by simp
    have pa: "bt \<longrightarrow> parents_ok g0 (d(n \<mapsto> Suc L)) (g[n := ?x])"
      using parents_ok_update [OF _ None _ vL Cons.prems(5)] Cons.prems(3,4) n R(1) by (simp add: adjacency_def)
    have upd: "g[n := (g ! n)\<lparr>distance := (distance (g ! v) + 1) mod 2 ^ 64,
        parent := (if bt then v else parent (g ! n))\<rparr>] = g[n := ?x]" using dv B(2) by simp
    show ?thesis
    proof (cases "n = target")
      case True
      have "\<not> walk (adjacency g0) root j target" if "j < Suc L" for j
        using levels_walks [OF Cons.prems(1), of j target] that None True by auto
      moreover have "walk (adjacency g0) root (Suc L) target"
        using walk_Suc [OF D(2) [OF vL]] Cons.prems(4) True by simp
      ultimately have "spf_done g0 root target L (g[n := ?x]) (d(n \<mapsto> Suc L))"
        using rl lv True by (auto simp: spf_done_def shortest_def simp del: fun_upd_apply) auto
      then show ?thesis using True n R(1) dn dv B(2) pa
        by (intro exI [of _ "g[n := ?x]"] exI [of _ "d(n \<mapsto> Suc L)"] exI [of _ q] exI [of _ True])
          (simp add: Let_def del: fun_upd_apply)
    next
      case False
      from Cons.IH [OF lv rl pa] Cons.prems(4,5) obtain g' d' q' stop where
        I: "spf_scan bt target v ns (g[n := ?x], q @ [n]) = Inr (stop, g', q')" "bt \<longrightarrow> parents_ok g0 d' g'"
          "if stop then spf_done g0 root target L g' d'
           else scanned g0 root v {} L ns (d(n \<mapsto> Suc L)) (q @ [n]) g' d' q'"
        by (auto simp del: fun_upd_apply)
      have "if stop then spf_done g0 root target L g' d' else scanned g0 root v {} L (n # ns) d q g' d' q'"
        using I(3) scanned_new [OF _ None nr D(5)] by (cases stop) auto
      then show ?thesis using I(1,2) n R(1) dn upd False
        by (intro exI [of _ g'] exI [of _ d'] exI [of _ q'] exI [of _ stop]) (simp add: Let_def)
    qed
  next
    case (Some k)
    have dn: "distance (g ! n) \<noteq> no_distance"
      using R(6) [of n] n Some levels_bound(3) [OF Cons.prems(1,2) Some] by simp
    from Cons.IH [OF Cons.prems(1-3)] Cons.prems(4,5) obtain g' d' q' stop where
      I: "spf_scan bt target v ns (g, q) = Inr (stop, g', q')" "bt \<longrightarrow> parents_ok g0 d' g'"
        "if stop then spf_done g0 root target L g' d' else scanned g0 root v {} L ns d q g' d' q'" by auto
    have "if stop then spf_done g0 root target L g' d' else scanned g0 root v {} L (n # ns) d q g' d' q'"
      using I(3) scanned_old [of g0 root v "{}" L ns d q g' d' q' n] Some by (cases stop) auto
    then show ?thesis using I(1,2) n R(1) dn
      by (intro exI [of _ g'] exI [of _ d'] exI [of _ q'] exI [of _ stop]) simp
  qed
qed

lemma spf_loop_ok:
  assumes "levels (adjacency g0) root {} L d q" "dist_rel {} g0 d g" "bt \<longrightarrow> parents_ok g0 d g"
  shows "\<exists>g' L' d'. spf_loop bt target (g, q) = Some (Inr g') \<and> (bt \<longrightarrow> parents_ok g0 d' g') \<and>
    (spf_done g0 root target L' g' d' \<or> levels (adjacency g0) root {} L' d' [] \<and> dist_rel {} g0 d' g')"
  using assms
proof (induction "length q + (length g0 - card (dom d))" arbitrary: L d q g rule: less_induct)
  case less
  show ?case
  proof (cases q)
    case Nil
    then show ?thesis using less.prems by (auto simp: spf_loop.simps)
  next
    case (Cons v q1)
    obtain L' where v: "d v = Some L'" and lv: "levels (adjacency g0) root {v} L' d q1"
      using levels_dequeue less.prems(1) Cons by blast
    note R = dist_relD [OF less.prems(2)]
    have vl: "v < length g0" using R(3) v by auto
    have nb: "neighbors (g ! v) = adjacency g0 v" using R(5) [OF vl] by (simp add: adjacency_def)
    obtain g' d' q' stop where S: "spf_scan bt target v (adjacency g0 v) (g, q1) = Inr (stop, g', q')"
      "bt \<longrightarrow> parents_ok g0 d' g'" "if stop then spf_done g0 root target L' g' d'
       else scanned g0 root v {} L' (adjacency g0 v) d q1 g' d' q'"
      using spf_scan_ok [OF lv less.prems(2,3) subset_refl vl] by blast
    have st: "spf_loop bt target (g, q) = (if stop then Some (Inr g') else spf_loop bt target (g', q'))"
      using S(1) nb vl R(1) Cons by (subst spf_loop.simps) simp
    show ?thesis
    proof (cases stop)
      case True
      then show ?thesis using S st by auto
    next
      case False
      then have lv': "levels (adjacency g0) root {} L' d' q'" and r': "dist_rel {} g0 d' g'"
        and le: "length q' + card (dom d) = length q1 + card (dom d')"
        using S(3) by (auto simp: scanned_def intro!: levels_scanned)
      have "card (dom d') \<le> length g0" using card_mono [OF _ dist_relD(3) [OF r']] by simp
      then have m: "length q' + (length g0 - card (dom d')) < length q + (length g0 - card (dom d))"
        using le Cons by simp
      show ?thesis using less.hyps [OF m lv' r' S(2)] False st by simp
    qed
  qed
qed

lemma spf_result:
  assumes "fresh_graph g" "root < length g"
  shows "\<exists>g' L d. spf_sequential bt root target g = Some (Inr g') \<and> dist_rel {} g d g' \<and>
    (bt \<longrightarrow> parents_ok g d g') \<and> (\<exists>C q. levels (adjacency g) root C L d q) \<and>
    (\<forall>k. shortest (adjacency g) root target k \<longrightarrow> d target = Some k) \<and>
    ((\<nexists>k. walk (adjacency g) root k target) \<longrightarrow> d target = None)"
proof -
  let ?x = "(g ! root)\<lparr>distance := 0, parent := no_parent\<rparr>"
  let ?g = "g[root := ?x]"
  have pa: "bt \<longrightarrow> parents_ok g [root \<mapsto> 0] ?g" by (simp add: parents_ok_def)
  have rl: "dist_rel {} g [root \<mapsto> 0] ?g" by (rule dist_rel_init [OF assms]) simp_all
  obtain g' L d where B: "spf_loop bt target (?g, [root]) = Some (Inr g')" and P: "bt \<longrightarrow> parents_ok g d g'" and
    L: "spf_done g root target L g' d \<or> levels (adjacency g) root {} L d [] \<and> dist_rel {} g d g'"
    using spf_loop_ok [OF levels_init rl pa, of target] by blast
  have st: "spf_sequential bt root target g = Some (Inr g')"
    using B assms(2) by (cases bt) (simp_all add: spf_sequential_def analyze_def performance_def Let_def)
  from L show ?thesis
  proof
    assume D: "spf_done g root target L g' d"
    then have w: "shortest (adjacency g) root target (Suc L)" by (simp add: spf_done_def)
    then have u: "\<forall>k. shortest (adjacency g) root target k \<longrightarrow> d target = Some k"
      using D by (auto simp: spf_done_def dest: shortest_unique [OF w])
    have "\<not> (\<nexists>k. walk (adjacency g) root k target)" using w by (auto simp: shortest_def)
    moreover have "dist_rel {} g d g'" "\<exists>C q. levels (adjacency g) root C L d q"
      using D by (auto simp: spf_done_def)
    ultimately show ?thesis using st P u by (intro exI [of _ g'] exI [of _ L] exI [of _ d] conjI) simp_all
  next
    assume D: "levels (adjacency g) root {} L d [] \<and> dist_rel {} g d g'"
    then show ?thesis using st P levels_shortest [of "adjacency g" root L d target]
      by (intro exI [of _ g'] exI [of _ L] exI [of _ d]) auto
  qed
qed

text \<open>
  C20: spf_sequential terminates, with and without backtrace, and leaves at the end vertex the
  length of a shortest walk from the root, or no_distance when there is none.
\<close>

theorem spf_shortest:
  assumes "fresh_graph g" "root < length g" "target < length g"
  shows "\<exists>g'. spf_sequential bt root target g = Some (Inr g') \<and> length g' = length g \<and>
    (\<forall>k. shortest (adjacency g) root target k \<longrightarrow> distance (g' ! target) = k \<and> k < no_distance) \<and>
    ((\<nexists>k. walk (adjacency g) root k target) \<longrightarrow> distance (g' ! target) = no_distance)"
proof -
  obtain g' L d C q where S: "spf_sequential bt root target g = Some (Inr g')" and R: "dist_rel {} g d g'"
    and L: "levels (adjacency g) root C L d q" and
    T: "\<And>k. shortest (adjacency g) root target k \<Longrightarrow> d target = Some k"
      "(\<nexists>k. walk (adjacency g) root k target) \<Longrightarrow> d target = None"
    using spf_result [OF assms(1,2), of bt target] by blast
  have "distance (g' ! target) = (case d target of None \<Rightarrow> no_distance | Some k \<Rightarrow> k)"
    using dist_relD(6) [OF R] assms(3) by simp
  then show ?thesis using S T dist_relD(1,2) [OF R] levels_bound(1) [OF L R]
    by (intro exI [of _ g']) force
qed

theorem spf_shortest_witness:
  "fresh_graph sample \<and> (\<exists>g'. spf_sequential True 0 1 sample = Some (Inr g') \<and> distance (g' ! 1) = 1)"
  using spf_shortest [of sample 0 1 True] sample_fresh sample_shortest by auto

lemma print_backtrace_ok:
  assumes "parents_ok g0 d g" "d v = Some (Suc k)" "target < length g" "length g = length g0"
    "\<And>u j. d u = Some j \<Longrightarrow> j \<le> k \<Longrightarrow> h ! u = g ! u" "h ! target = g ! v" "length h = length g"
    "d root = Some 0" "\<And>u. d u = Some 0 \<Longrightarrow> u = root" "v = target \<or> Suc k < the (d target)"
  shows "\<exists>ps. print_backtrace root target h = Some (Inr ps) \<and> length ps = Suc k \<and> last ps = root \<and>
    (\<forall>i < Suc k. (v # ps) ! i \<in> set (neighbors (g0 ! (ps ! i))))"
  using assms(2,5-7,10)
proof (induction k arbitrary: v h)
  case 0
  then have "d (parent (g ! v)) = Some 0" "v \<in> set (neighbors (g0 ! parent (g ! v)))"
    using assms(1) by (auto simp: parents_ok_def)
  then have "parent (g ! v) = root" "v \<in> set (neighbors (g0 ! root))" using assms(9) by auto
  then show ?case using 0 by (subst print_backtrace.simps) (auto simp: Let_def)
next
  case (Suc k)
  let ?p = "parent (g ! v)"
  have p: "?p < length g0" "d ?p = Some (Suc k)" "v \<in> set (neighbors (g0 ! ?p))"
    using assms(1) Suc.prems(1) by (auto simp: parents_ok_def)
  then have pr: "?p \<noteq> root" using assms(8) by auto
  let ?h = "h[target := h ! ?p]"
  have tp: "the (d target) > Suc k" using Suc.prems(1,5) by auto
  have a: "?h ! u = g ! u" if "d u = Some j" "j \<le> k" for u j
    using Suc.prems(2) [OF that(1)] that tp by (cases "u = target") auto
  have b: "?h ! target = g ! ?p" using Suc.prems(2,4) p(2) assms(3) by simp
  have "\<exists>ps. print_backtrace root target ?h = Some (Inr ps) \<and> length ps = Suc k \<and> last ps = root \<and>
    (\<forall>i < Suc k. (?p # ps) ! i \<in> set (neighbors (g0 ! (ps ! i))))"
    by (rule Suc.IH) (use p(2) a b Suc.prems(4) tp in auto)
  then obtain ps where I: "print_backtrace root target ?h = Some (Inr ps)" "length ps = Suc k" "last ps = root"
    "\<forall>i < Suc k. (?p # ps) ! i \<in> set (neighbors (g0 ! (ps ! i)))" by blast
  have "\<forall>i < Suc (Suc k). (v # ?p # ps) ! i \<in> set (neighbors (g0 ! ((?p # ps) ! i)))"
    using I(4) p(3) by (auto simp: less_Suc_eq_0_disj)
  moreover have "print_backtrace root target h = Some (Inr (?p # ps))"
    using Suc.prems(3,4) pr p(1) I(1) assms(4) by (subst print_backtrace.simps) (simp add: Let_def)
  moreover have "last (?p # ps) = root" using I(2,3) by auto
  ultimately show ?case using I(2) by (intro exI [of _ "?p # ps"]) auto
qed

text \<open>
  C21: When a walk leads from the root to an end vertex other than the root, the backtrace
  that main prints after analyze terminates with the vertices of a shortest walk, from the
  parent of the end vertex back to the root, although it overwrites the end vertex on its way.
\<close>

theorem spf_backtrace:
  assumes "fresh_graph g" "root < length g" "target < length g"
    "shortest (adjacency g) root target (Suc k)"
  shows "\<exists>g' ps. spf_sequential True root target g = Some (Inr g') \<and>
    print_backtrace root target g' = Some (Inr ps) \<and> length ps = Suc k \<and> last ps = root \<and>
    (\<forall>i < Suc k. (target # ps) ! i \<in> set (adjacency g (ps ! i)))"
proof -
  obtain g' L d C q where S: "spf_sequential True root target g = Some (Inr g')" and R: "dist_rel {} g d g'"
    and P: "parents_ok g d g'" and L: "levels (adjacency g) root C L d q" and T: "d target = Some (Suc k)"
    using spf_result [OF assms(1,2), of True target] assms(4) by blast
  have z: "u = root" if "d u = Some 0" for u
    using levelsD(2) [OF L that] by (auto elim: walk.cases)
  show ?thesis
    using print_backtrace_ok [OF P T _ _ _ _ _ levelsD(1) [OF L], of target g'] S assms(3) dist_relD(1) [OF R] z
    by (auto simp: adjacency_def)
qed

theorem spf_backtrace_witness:
  "shortest (adjacency sample) 0 1 1 \<and>
   (\<exists>g' ps. spf_sequential True 0 1 sample = Some (Inr g') \<and> print_backtrace 0 1 g' = Some (Inr ps) \<and>
      length ps = 1 \<and> last ps = 0)"
  using spf_backtrace [of sample 0 1 0] sample_fresh sample_shortest by auto

text \<open>
  The backtrace of an end vertex no walk leads to, and of the root itself, indexes the
  vertices with no_parent.
\<close>

theorem spf_backtrace_unreachable:
  "\<exists>g'. spf_sequential True 0 2 sample = Some (Inr g') \<and>
     print_backtrace 0 2 g' = Some (Inl (Undefined ''vertices_[index]'')) \<and>
     print_backtrace 0 0 g' = Some (Inl (Undefined ''vertices_[index]''))"
  by (simp add: spf_sequential_def analyze_def spf_loop.simps print_backtrace.simps sample_def
      new_vertex_def no_distance_def no_parent_def Let_def)

section \<open>Graph files\<close>

text \<open>A printer for the format from_graph_file reads, and what the parser does on its output.\<close>

fun show_nat :: "nat \<Rightarrow> string" where
  "show_nat n = (if n < 10 then [char_of (48 + n)] else show_nat (n div 10) @ [char_of (48 + n mod 10)])"

declare show_nat.simps [simp del]

fun show_line :: "nat list \<Rightarrow> string" where
  "show_line [] = []"
| "show_line (n # ns) = show_nat (n + 1) @ CHR '' '' # show_line ns"

definition show_graph :: "nat \<Rightarrow> nat list list \<Rightarrow> string" where
  "show_graph edges adj = concat (map (\<lambda>l. l @ [newline])
     ((show_nat (length adj) @ CHR '' '' # show_nat edges) # map show_line adj))"

lemma digit_char_of: "n < 10 \<Longrightarrow> digit (char_of (48 + n)) = Some n"
  by (simp add: digit_def Let_def)

lemma show_nat_digits: "list_all (\<lambda>c. digit c \<noteq> None) (show_nat n) \<and> digits 0 (show_nat n) = n"
proof (induction n rule: show_nat.induct)
  case (1 n)
  then show ?case
    by (subst (1 2) show_nat.simps) (auto simp: digit_char_of digits_append)
qed

lemma show_nat_chars: "c \<in> set (show_nat n) \<Longrightarrow> c \<noteq> CHR '' '' \<and> c \<noteq> newline \<and> c \<noteq> CHR ''%''"
proof -
  assume "c \<in> set (show_nat n)"
  then have "digit c \<noteq> None" using show_nat_digits [of n] by (auto simp: list_all_iff)
  then show ?thesis by (auto simp: digit_def newline_def Let_def)
qed

lemma show_nat_free [simp]: "CHR '' '' \<notin> set (show_nat n)" "newline \<notin> set (show_nat n)"
    "CHR ''%'' \<notin> set (show_nat n)"
  using show_nat_chars by blast+

lemma show_small: "n < 10 \<Longrightarrow> show_nat n = [char_of (48 + n)]"
  by (subst show_nat.simps) simp

lemma show_nat_nonempty [simp]: "show_nat n \<noteq> []"
  by (subst show_nat.simps) simp

lemma atol_show: "n < 2 ^ 63 \<Longrightarrow> atol (show_nat n) = n"
  using show_nat_digits [of n] by (simp add: atol_def strtol_digits nat_mod_distrib)

lemma tokens_of_token: "CHR '' '' \<notin> set tok \<Longrightarrow> tokens_of cur (tok @ cs) = tokens_of (cur @ tok) cs"
  by (induction tok arbitrary: cur) auto

lemma tokenize_line: "\<forall>n \<in> set ns. n + 1 < 2 ^ 63 \<Longrightarrow> tokenize (show_line ns) = Inr ns"
proof (induction ns)
  case (Cons n ns)
  have "tokens_of [] (show_line (n # ns)) = show_nat (n + 1) # tokens_of [] (show_line ns)"
    by (simp add: tokens_of_token)
  then show ?case using Cons atol_show [of "n + 1"] by (simp add: tokenize_def)
qed (simp add: tokenize_def)

lemma tokenize_first:
  assumes "0 < n" "n < 2 ^ 63" "0 < m" "m < 2 ^ 63"
  shows "tokenize (show_nat n @ CHR '' '' # show_nat m) = Inr [n - 1, m - 1]"
proof -
  have "CHR '' '' \<notin> set (show_nat m)" using show_nat_chars by blast
  then have "tokens_of [] (show_nat m) = [show_nat m]"
    using tokens_of_token [of "show_nat m" "[]" "[]"] by simp
  moreover have "CHR '' '' \<notin> set (show_nat n)" using show_nat_chars by blast
  ultimately have "tokens_of [] (show_nat n @ CHR '' '' # show_nat m) = [show_nat n, show_nat m]"
    by (simp add: tokens_of_token)
  then show ?thesis using assms atol_show by (simp add: tokenize_def)
qed

lemma fgets_line:
  "newline \<notin> set l \<Longrightarrow> length l < room \<Longrightarrow>
    fgets_lines room cur (l @ newline # cs) = (cur @ l) # fgets_lines (BUFSIZ - 1) [] cs"
  by (induction l arbitrary: room cur) auto

lemma fgets_concat:
  "\<forall>l \<in> set ls. newline \<notin> set l \<and> length l < BUFSIZ - 1 \<Longrightarrow>
    fgets_lines (BUFSIZ - 1) [] (concat (map (\<lambda>l. l @ [newline]) ls)) = ls"
  by (induction ls) (auto simp: fgets_line)

lemma show_line_chars: "c \<in> set (show_line ns) \<Longrightarrow> c \<noteq> newline \<and> c \<noteq> CHR ''%''"
  by (induction ns) (auto dest: show_nat_chars simp: newline_def)

lemma read_adjacency_lines:
  assumes "\<forall>l \<in> set ls. \<forall>n \<in> set l. n + 1 < 2 ^ 63" "i + length ls = length g"
  shows "read_adjacency i (map show_line ls) g =
    Inr (take i g @ map2 (\<lambda>x l. x\<lparr>neighbors := l\<rparr>) (drop i g) ls)"
  using assms
proof (induction ls arbitrary: i g)
  case (Cons l ls)
  have "drop i g = g ! i # drop (i + 1) g" using Cons.prems(2) by (simp add: Cons_nth_drop_Suc)
  then show ?case using Cons by (simp add: tokenize_line take_Suc_conv_app_nth)
qed simp

text \<open>
  C22: from_graph_file reads back what the format's printer writes: the vertices with their
  neighbor lists, no distances and no parents; for a graph with at least one vertex and one
  edge whose lines fit into the buffer of fgets.
\<close>

theorem graph_file_roundtrip:
  assumes "adj \<noteq> []" "0 < edges" "edges < 2 ^ 63" "length adj < 2 ^ 63"
    "\<forall>l \<in> set adj. \<forall>n \<in> set l. n + 1 < 2 ^ 63" "\<forall>l \<in> set adj. length (show_line l) < BUFSIZ - 1"
    "length (show_nat (length adj)) + length (show_nat edges) + 1 < BUFSIZ - 1"
  shows "from_graph_file (show_graph edges adj) = Inr (map (\<lambda>l. new_vertex\<lparr>neighbors := l\<rparr>) adj)"
proof -
  let ?first = "show_nat (length adj) @ CHR '' '' # show_nat edges"
  have ch: "newline \<notin> set l \<and> \<not> is_comment l" if "l \<in> set (?first # map show_line adj)" for l
  proof -
    have "c \<noteq> newline \<and> c \<noteq> CHR ''%''" if "c \<in> set l" for c
      using that \<open>l \<in> _\<close> show_nat_chars show_line_chars by (auto simp: newline_def dest!: show_nat_chars)
    then show ?thesis by (auto simp: is_comment_def dest: list.set_sel(1))
  qed
  have "fgets_lines (BUFSIZ - 1) [] (show_graph edges adj) = ?first # map show_line adj"
    unfolding show_graph_def using ch assms(6,7) by (intro fgets_concat) auto
  then have "lines_of (show_graph edges adj) = ?first # map show_line adj"
    using ch by (simp add: lines_of_def filter_id_conv)
  moreover have "map2 (\<lambda>x l. x\<lparr>neighbors := l\<rparr>) (replicate (length adj) new_vertex) adj =
      map (\<lambda>l. new_vertex\<lparr>neighbors := l\<rparr>) adj"
    by (simp add: zip_replicate1 split_def)
  ultimately show ?thesis
    using tokenize_first [of "length adj" edges] assms(1-5)
      read_adjacency_lines [of adj 0 "replicate (length adj) new_vertex"]
    by (simp add: from_graph_file_def)
qed

theorem graph_file_roundtrip_witness:
  "from_graph_file (show_graph 2 [[1], [0]]) =
     Inr [new_vertex\<lparr>neighbors := [1]\<rparr>, new_vertex\<lparr>neighbors := [0]\<rparr>]"
  using graph_file_roundtrip [of "[[1], [0]]" 2] by (simp add: BUFSIZ_def show_small)

text \<open>
  From_mtx_file subtracts one from an index that tokenize already made zero based: the
  matrix of size 2 with the entry (2, 1) gets one vertex and not two, and the edge becomes
  one from vertex 0 to the index 2^64 - 1.
\<close>

theorem mtx_off_by_one:
  "from_mtx_file (''2 2 1'' @ [newline] @ ''2 1'') =
     Inr [new_vertex\<lparr>neighbors := [2 ^ 64 - 1]\<rparr>]"
  by (simp add: from_mtx_file_def lines_of_def newline_def BUFSIZ_def is_comment_def tokenize_def
      atol_def strtol_def digit_def blank_def Let_def new_vertex_def)

end
