(* ===== verification/Queue_Spec.thy ===== *)
theory Queue_Spec
  imports Rely_Guarantee
begin

text \<open>
  The sequential FIFO queue with a put and a get that the lock based queue and the flat
  combining queue are compared with, and the resource discipline of a lock: a lock is a
  resource that is in use, and owned, while it is taken.
\<close>

datatype 'a q_op = QEnq 'a | QDeq

datatype 'a q_res = QPut bool | QGot "'a option"

fun q_spec :: "'a list \<Rightarrow> 'a q_op \<Rightarrow> 'a q_res \<Rightarrow> 'a list \<Rightarrow> bool" where
  "q_spec xs (QEnq x) r ys \<longleftrightarrow> r = QPut True \<and> ys = xs @ [x]"
| "q_spec xs QDeq r ys \<longleftrightarrow> (case xs of
     [] \<Rightarrow> r = QGot None \<and> ys = [] | x # zs \<Rightarrow> r = QGot (Some x) \<and> ys = zs)"

datatype resource = Lock | Node addr

abbreviation lock_used :: "bool \<Rightarrow> resource set" where
  "lock_used l \<equiv> if l then {Lock} else {}"

end
