(* ===== verification/Lock_Queue.thy ===== *)
theory Lock_Queue
  imports Queue_Spec
begin

text \<open>
  The lock based queue of src/src/datastructures/lockbased_queue.h: a linked list behind
  one mutex, with a condition variable for the blocking and the timed dequeue. Every
  access inside a critical section is a step of its own. The lock is a resource that the
  thread in the critical section owns, so that mutual exclusion is part of the invariant
  of og_system.
\<close>

section \<open>Model\<close>

record 'a lnode =
  n_value :: 'a
  n_next :: addr

record 'a lbq =
  lb_head :: addr
  lb_tail :: addr
  lb_heap :: "'a lnode heap"
  lb_lock :: bool
  lb_wait :: "tid set"
  lb_mode :: nat
  lb_timeout :: u64

text \<open>The constructor: a dummy node at the address a, a free lock and nobody waiting.\<close>

definition lb_init :: "addr \<Rightarrow> nat \<Rightarrow> u64 \<Rightarrow> 'a::zero lbq" where
  "lb_init a dequeue_mode dequeue_timeout = \<lparr>lb_head = a, lb_tail = a, lb_heap = [a \<mapsto> \<lparr>n_value = 0, n_next = NULL\<rparr>],
     lb_lock = False, lb_wait = {}, lb_mode = dequeue_mode, lb_timeout = dequeue_timeout\<rparr>"

datatype deq_mode = Default | Blocking | Timed

datatype 'a lb_pc =
    EnqNode 'a | EnqLock addr | EnqTail addr | EnqLink addr addr | EnqSetTail addr | EnqCast | EnqUnlock
  | DeqSwitch | DeqLock deq_mode | DeqTest deq_mode | DeqSleep deq_mode | DeqWait deq_mode
  | DeqRelock deq_mode bool | DeqRead | DeqMove 'a | DeqUnlock "'a option"

type_synonym 'a lb_out = "'a lbq \<times> ('a lb_pc, 'a q_res) outcome"

fun lb_enqueue :: "nat \<Rightarrow> 'a lbq \<Rightarrow> 'a lb_pc \<Rightarrow> 'a lb_out" where
  "lb_enqueue n s (EnqNode item) = (if is_fresh (lb_heap s) n
     then (s\<lparr>lb_heap := (lb_heap s)(n \<mapsto> \<lparr>n_value = item, n_next = NULL\<rparr>)\<rparr>, Next (EnqLock n))
     else (s, Next (EnqNode item)))"
| "lb_enqueue n s (EnqLock node) = (if lb_lock s then (s, Next (EnqLock node))
     else (s\<lparr>lb_lock := True\<rparr>, Next (EnqTail node)))"
| "lb_enqueue n s (EnqTail node) = (s, Next (EnqLink node (lb_tail s)))"
| "lb_enqueue n s (EnqLink node tail_old) = (case lb_heap s tail_old of
     None \<Rightarrow> (s, Fault (fault_at tail_old))
   | Some nd \<Rightarrow> (s\<lparr>lb_heap := (lb_heap s)(tail_old \<mapsto> nd\<lparr>n_next := node\<rparr>)\<rparr>, Next (EnqSetTail node)))"
| "lb_enqueue n s (EnqSetTail node) = (s\<lparr>lb_tail := node\<rparr>, Next EnqCast)"
| "lb_enqueue n s EnqCast = (s\<lparr>lb_wait := {}\<rparr>, Next EnqUnlock)"
| "lb_enqueue n s EnqUnlock = (s\<lparr>lb_lock := False\<rparr>, Return (QPut True))"
| "lb_enqueue n s p = (s, Fault (Undefined ''enqueue''))"

definition dequeue_switch :: "nat \<Rightarrow> deq_mode" where
  "dequeue_switch mode = (if mode = 0 then Default else if mode = 1 then Blocking
     else if mode = 2 then Timed else Default)"

text \<open>
  The three dequeues. Only the waiting differs: pthread_cond_wait releases the lock and
  sleeps at once; the sleeper goes on after a broadcast, spuriously (n is odd), or, in
  the timed dequeue, when its time is over (n is even and not 0).
\<close>

fun lb_dequeue :: "tid \<Rightarrow> nat \<Rightarrow> 'a lbq \<Rightarrow> 'a lb_pc \<Rightarrow> 'a lb_out" where
  "lb_dequeue t n s DeqSwitch = (s, Next (DeqLock (dequeue_switch (lb_mode s))))"
| "lb_dequeue t n s (DeqLock m) = (if lb_lock s then (s, Next (DeqLock m))
     else (s\<lparr>lb_lock := True\<rparr>, Next (DeqTest m)))"
| "lb_dequeue t n s (DeqTest m) = (s, Next (if lb_head s = lb_tail s
     then (if m = Default then DeqUnlock None else DeqSleep m) else DeqRead))"
| "lb_dequeue t n s (DeqSleep m) = (s\<lparr>lb_lock := False, lb_wait := insert t (lb_wait s)\<rparr>, Next (DeqWait m))"
| "lb_dequeue t n s (DeqWait m) =
     (if t \<notin> lb_wait s then (s, Next (DeqRelock m False))
      else if odd n then (s\<lparr>lb_wait := lb_wait s - {t}\<rparr>, Next (DeqRelock m False))
      else if n \<noteq> 0 \<and> m = Timed then (s\<lparr>lb_wait := lb_wait s - {t}\<rparr>, Next (DeqRelock m True))
      else (s, Next (DeqWait m)))"
| "lb_dequeue t n s (DeqRelock m timedout) = (if lb_lock s then (s, Next (DeqRelock m timedout))
     else (s\<lparr>lb_lock := True\<rparr>, Next (if timedout then DeqUnlock None else DeqTest m)))"
| "lb_dequeue t n s DeqRead = (case lb_heap s (lb_head s) of
     None \<Rightarrow> (s, Fault (fault_at (lb_head s)))
   | Some hn \<Rightarrow> (case lb_heap s (n_next hn) of
       None \<Rightarrow> (s, Fault (fault_at (n_next hn)))
     | Some nd \<Rightarrow> (s, Next (DeqMove (n_value nd)))))"
| "lb_dequeue t n s (DeqMove item) = (case lb_heap s (lb_head s) of
     None \<Rightarrow> (s, Fault (fault_at (lb_head s)))
   | Some hn \<Rightarrow> (s\<lparr>lb_head := n_next hn\<rparr>, Next (DeqUnlock (Some item))))"
| "lb_dequeue t n s (DeqUnlock r) = (s\<lparr>lb_lock := False\<rparr>, Return (QGot r))"
| "lb_dequeue t n s p = (s, Fault (Undefined ''dequeue''))"

fun lb_start :: "'a q_op \<Rightarrow> 'a lb_pc" where
  "lb_start (QEnq x) = EnqNode x"
| "lb_start QDeq = DeqSwitch"

fun is_enq :: "'a lb_pc \<Rightarrow> bool" where
  "is_enq (EnqNode x) = True" | "is_enq (EnqLock a) = True" | "is_enq (EnqTail a) = True"
| "is_enq (EnqLink a b) = True" | "is_enq (EnqSetTail a) = True" | "is_enq EnqCast = True"
| "is_enq EnqUnlock = True" | "is_enq p = False"

definition lb_prog :: "('a lbq, 'a q_op, 'a q_res, 'a lb_pc) prog" where
  "lb_prog = \<lparr>start = lb_start,
     body = (\<lambda>t n s p. if is_enq p then lb_enqueue n s p else lb_dequeue t n s p)\<rparr>"

lemma lb_prog_simps [simp]:
  "start lb_prog = lb_start"
  "body lb_prog t n s p = (if is_enq p then lb_enqueue n s p else lb_dequeue t n s p)"
  by (simp_all add: lb_prog_def)

text \<open>
  The deadline of the timed dequeue: seconds and nanoseconds, from the time of the day in
  seconds and microseconds and a timeout in milliseconds, in 64 bit arithmetic.
\<close>

definition deadline :: "u64 \<Rightarrow> u64 \<Rightarrow> u64 \<Rightarrow> u64 \<times> u64" where
  "deadline tv_sec tv_usec timeout_ms = (let tmp_nsec = tv_usec * 1000 + timeout_ms * 1000000
     in if tmp_nsec \<ge> 1000000000 then (tv_sec + tmp_nsec div 1000000000, tmp_nsec mod 1000000000)
        else (tv_sec, tmp_nsec))"

section \<open>Abstraction and invariant\<close>

definition lb_addrs :: "'a lbq \<Rightarrow> addr list" where
  "lb_addrs s = the (chain n_next (lb_heap s) (lb_head s))"

definition lb_abs :: "'a lbq \<Rightarrow> 'a list" where
  "lb_abs s = map (\<lambda>a. n_value (the (lb_heap s a))) (tl (lb_addrs s))"

definition lb_inv :: "'a lbq \<Rightarrow> bool" where
  "lb_inv s \<longleftrightarrow> lb_heap s NULL = None \<and> finite (dom (lb_heap s)) \<and>
     path n_next (lb_heap s) (lb_head s) (lb_addrs s) NULL \<and> lb_addrs s \<noteq> [] \<and>
     (\<not> lb_lock s \<longrightarrow> last (lb_addrs s) = lb_tail s)"

fun lb_holds :: "'a lb_pc \<Rightarrow> bool" where
  "lb_holds (EnqTail a) = True" | "lb_holds (EnqLink a b) = True" | "lb_holds (EnqSetTail a) = True"
| "lb_holds EnqCast = True" | "lb_holds EnqUnlock = True" | "lb_holds (DeqTest m) = True"
| "lb_holds (DeqSleep m) = True" | "lb_holds DeqRead = True" | "lb_holds (DeqMove x) = True"
| "lb_holds (DeqUnlock r) = True" | "lb_holds p = False"

fun lb_own :: "'a lb_pc \<Rightarrow> resource set" where
  "lb_own (EnqLock a) = {Node a}"
| "lb_own (EnqTail a) = {Node a, Lock}"
| "lb_own (EnqLink a b) = {Node a, Lock}"
| "lb_own p = lock_used (lb_holds p)"

definition held :: "'a lbq \<Rightarrow> bool" where
  "held s \<longleftrightarrow> lb_lock s \<and> last (lb_addrs s) = lb_tail s"

definition posted :: "'a lbq \<Rightarrow> 'a q_op \<Rightarrow> addr \<Rightarrow> bool" where
  "posted s op a \<longleftrightarrow> (\<exists>nd. lb_heap s a = Some nd \<and> n_next nd = NULL \<and> op = QEnq (n_value nd))"

fun lb_pinv :: "'a lbq \<Rightarrow> tid \<Rightarrow> 'a q_op \<Rightarrow> 'a lb_pc \<Rightarrow> bool" where
  "lb_pinv s t op (EnqNode x) \<longleftrightarrow> op = QEnq x"
| "lb_pinv s t op (EnqLock a) \<longleftrightarrow> posted s op a"
| "lb_pinv s t op (EnqTail a) \<longleftrightarrow> posted s op a \<and> held s"
| "lb_pinv s t op (EnqLink a b) \<longleftrightarrow> posted s op a \<and> held s \<and> b = lb_tail s"
| "lb_pinv s t op (EnqSetTail a) \<longleftrightarrow> op \<noteq> QDeq \<and> lb_lock s \<and> last (lb_addrs s) = a"
| "lb_pinv s t op EnqCast \<longleftrightarrow> op \<noteq> QDeq \<and> held s"
| "lb_pinv s t op EnqUnlock \<longleftrightarrow> op \<noteq> QDeq \<and> held s"
| "lb_pinv s t op DeqSwitch \<longleftrightarrow> op = QDeq"
| "lb_pinv s t op (DeqLock m) \<longleftrightarrow> op = QDeq"
| "lb_pinv s t op (DeqTest m) \<longleftrightarrow> op = QDeq \<and> held s"
| "lb_pinv s t op (DeqSleep m) \<longleftrightarrow> op = QDeq \<and> held s \<and> lb_abs s = []"
| "lb_pinv s t op (DeqWait m) \<longleftrightarrow> op = QDeq"
| "lb_pinv s t op (DeqRelock m b) \<longleftrightarrow> op = QDeq \<and> (b \<longrightarrow> m = Timed)"
| "lb_pinv s t op DeqRead \<longleftrightarrow> op = QDeq \<and> held s \<and> lb_head s \<noteq> lb_tail s"
| "lb_pinv s t op (DeqMove x) \<longleftrightarrow> op = QDeq \<and> held s \<and> (\<exists>xs. lb_abs s = x # xs)"
| "lb_pinv s t op (DeqUnlock r) \<longleftrightarrow> op = QDeq \<and> held s"

fun lb_mark :: "'a lb_pc \<Rightarrow> 'a q_res mark" where
  "lb_mark (EnqSetTail a) = Fixed (QPut True)"
| "lb_mark EnqCast = Fixed (QPut True)"
| "lb_mark EnqUnlock = Fixed (QPut True)"
| "lb_mark (DeqSleep Timed) = Seen (QGot None)"
| "lb_mark (DeqWait Timed) = Seen (QGot None)"
| "lb_mark (DeqRelock Timed b) = Seen (QGot None)"
| "lb_mark (DeqUnlock r) = Fixed (QGot r)"
| "lb_mark p = Pend"

definition lb_rely :: "resource set \<Rightarrow> resource set \<Rightarrow> 'a lbq \<Rightarrow> 'a lbq \<Rightarrow> bool" where
  "lb_rely A B s s' \<longleftrightarrow> (\<forall>a. Node a \<in> A \<longrightarrow> lb_heap s' a = lb_heap s a) \<and>
     (Lock \<in> A \<longrightarrow> lb_head s' = lb_head s \<and> lb_tail s' = lb_tail s \<and> lb_lock s' = lb_lock s \<and>
        lb_addrs s' = lb_addrs s \<and> lb_abs s' = lb_abs s)"

lemma lb_invD:
  assumes "lb_inv s"
  shows "lb_heap s NULL = None" "finite (dom (lb_heap s))" "lb_addrs s \<noteq> []"
    "path n_next (lb_heap s) (lb_head s) (lb_addrs s) NULL" "\<not> lb_lock s \<Longrightarrow> last (lb_addrs s) = lb_tail s"
    "set (lb_addrs s) \<subseteq> dom (lb_heap s)" "distinct (lb_addrs s)" "hd (lb_addrs s) = lb_head s"
proof -
  show "lb_heap s NULL = None" "finite (dom (lb_heap s))" "lb_addrs s \<noteq> []"
    and p: "path n_next (lb_heap s) (lb_head s) (lb_addrs s) NULL"
    and "\<not> lb_lock s \<Longrightarrow> last (lb_addrs s) = lb_tail s"
    using assms by (simp_all add: lb_inv_def)
  then show "set (lb_addrs s) \<subseteq> dom (lb_heap s)" "distinct (lb_addrs s)" "hd (lb_addrs s) = lb_head s"
    using path_dom [OF p] path_distinct [OF p] by (cases "lb_addrs s"; simp)+
qed

lemma lb_addrsI: "path n_next (lb_heap s) (lb_head s) as NULL \<Longrightarrow> lb_heap s NULL = None \<Longrightarrow> lb_addrs s = as"
  by (simp add: lb_addrs_def path_chain)

lemma lb_same_list [simp]:
  "lb_addrs (s\<lparr>lb_lock := l\<rparr>) = lb_addrs s" "lb_abs (s\<lparr>lb_lock := l\<rparr>) = lb_abs s"
  "lb_addrs (s\<lparr>lb_wait := w\<rparr>) = lb_addrs s" "lb_abs (s\<lparr>lb_wait := w\<rparr>) = lb_abs s"
  "lb_addrs (s\<lparr>lb_tail := a\<rparr>) = lb_addrs s" "lb_abs (s\<lparr>lb_tail := a\<rparr>) = lb_abs s"
  by (simp_all add: lb_addrs_def lb_abs_def)

text \<open>How the steps change the list: a new node, a link behind the tail, a move of the head.\<close>

lemma lb_alloc:
  fixes s :: "'a lbq" and nd :: "'a lnode"
  assumes "lb_inv s" "is_fresh (lb_heap s) n"
  defines "s' \<equiv> s\<lparr>lb_heap := (lb_heap s)(n \<mapsto> nd)\<rparr>"
  shows "lb_addrs s' = lb_addrs s" "lb_abs s' = lb_abs s" "lb_inv s'"
proof -
  note D = lb_invD [OF assms(1)]
  have n: "n \<notin> set (lb_addrs s)" "n \<noteq> NULL" using D(6) assms(2) by (auto simp: is_fresh_def)
  show a: "lb_addrs s' = lb_addrs s"
    by (rule lb_addrsI) (use D(1,4) n in \<open>simp_all add: s'_def heap_simps\<close>)
  have "a \<noteq> n" if "a \<in> set (tl (lb_addrs s))" for a using n that by (cases "lb_addrs s") auto
  then show "lb_abs s' = lb_abs s" unfolding lb_abs_def a by (simp add: s'_def)
  show "lb_inv s'" unfolding lb_inv_def a using D n by (simp add: s'_def heap_simps)
qed

lemma lb_link:
  fixes s :: "'a lbq" and nd :: "'a lnode"
  assumes "lb_inv s" "last (lb_addrs s) = b" "lb_heap s a = Some an" "n_next an = NULL" "a \<notin> set (lb_addrs s)"
    "lb_heap s b = Some nd" "lb_lock s"
  defines "s' \<equiv> s\<lparr>lb_heap := (lb_heap s)(b \<mapsto> nd\<lparr>n_next := a\<rparr>)\<rparr>"
  shows "lb_addrs s' = lb_addrs s @ [a]" "lb_abs s' = lb_abs s @ [n_value an]" "lb_inv s'"
proof -
  note D = lb_invD [OF assms(1)]
  obtain bs where bs: "lb_addrs s = bs @ [b]" using D(3) assms(2) by (metis append_butlast_last_id)
  have "b \<noteq> NULL" using assms(6) D(1) by (cases "b = NULL") simp_all
  then have b: "b \<noteq> a" "b \<noteq> NULL" "b \<notin> set bs" using assms(5) bs D(7) by auto
  have "path n_next (lb_heap s) (lb_head s) bs b"
    using D(4) bs by (auto simp: path_append split: option.splits)
  then have "path n_next (lb_heap s') (lb_head s') bs b" using b by (simp add: s'_def heap_simps)
  then have "path n_next (lb_heap s') (lb_head s') (bs @ [b]) a"
    by (rule path_snoc [where n = "nd\<lparr>n_next := a\<rparr>"]) (use b in \<open>simp_all add: s'_def\<close>)
  then have p: "path n_next (lb_heap s') (lb_head s') ((bs @ [b]) @ [a]) NULL"
    by (rule path_snoc [where n = an]) (use b assms(3-5) bs in \<open>auto simp: s'_def\<close>)
  have n: "lb_heap s' NULL = None" using D(1) b by (simp add: s'_def)
  show a: "lb_addrs s' = lb_addrs s @ [a]" using lb_addrsI [OF p n] bs by simp
  have v: "map (\<lambda>x. n_value (the (lb_heap s' x))) zs = map (\<lambda>x. n_value (the (lb_heap s x))) zs" for zs
    using assms(6) by (simp add: s'_def)
  show "lb_abs s' = lb_abs s @ [n_value an]"
    unfolding lb_abs_def a v using D(3) assms(3) by simp
  show "lb_inv s'" unfolding lb_inv_def a using D p n bs assms(7) by (simp add: s'_def)
qed

lemma lb_move:
  assumes "lb_inv s" "last (lb_addrs s) = lb_tail s" "lb_abs s = x # xs"
  shows "\<exists>hn. lb_heap s (lb_head s) = Some hn \<and> lb_addrs (s\<lparr>lb_head := n_next hn\<rparr>) = tl (lb_addrs s) \<and>
    lb_abs (s\<lparr>lb_head := n_next hn\<rparr>) = xs \<and> lb_inv (s\<lparr>lb_head := n_next hn\<rparr>) \<and>
    last (tl (lb_addrs s)) = lb_tail s \<and> (\<exists>nd. lb_heap s (n_next hn) = Some nd \<and> n_value nd = x)"
proof -
  note D = lb_invD [OF assms(1)]
  obtain a b bs where as: "lb_addrs s = a # b # bs" and x: "x = n_value (the (lb_heap s b))"
  proof -
    obtain a l where l: "lb_addrs s = a # l" using D(3) by (cases "lb_addrs s") auto
    then obtain b bs where "l = b # bs" using assms(3) by (cases l) (auto simp: lb_abs_def)
    then show ?thesis using that [of a b bs] l assms(3) by (simp add: lb_abs_def)
  qed
  have p: "path n_next (lb_heap s) (lb_head s) (a # b # bs) NULL" using D(4) unfolding as .
  then obtain hn where h1: "lb_heap s a = Some hn" "lb_head s = a" "path n_next (lb_heap s) (n_next hn) (b # bs) NULL"
    by (simp split: option.splits)
  then obtain nd where "n_next hn = b" "lb_heap s b = Some nd" by (simp split: option.splits)
  then have h: "lb_heap s a = Some hn" "a = lb_head s" "n_next hn = b" "lb_heap s b = Some nd"
      "path n_next (lb_heap s) b (b # bs) NULL" using h1 by simp_all
  let ?s = "s\<lparr>lb_head := b\<rparr>"
  have a: "lb_addrs ?s = b # bs" by (rule lb_addrsI) (use h D(1) in simp_all)
  have "lb_abs ?s = xs" using assms(3) unfolding lb_abs_def a as by simp
  moreover have "lb_inv ?s" unfolding lb_inv_def a using D h as by (auto split: option.splits)
  ultimately show ?thesis using h a as x assms(2) by auto
qed

lemma lb_empty_iff:
  assumes "lb_inv s" "last (lb_addrs s) = lb_tail s"
  shows "lb_head s = lb_tail s \<longleftrightarrow> lb_abs s = []"
proof -
  note D = lb_invD [OF assms(1)]
  obtain bs where "lb_addrs s = lb_head s # bs" using D(3,8) by (cases "lb_addrs s") auto
  then show ?thesis using D(7) assms(2) by (cases bs rule: rev_cases) (auto simp: lb_abs_def)
qed

section \<open>The obligations of the interface\<close>

definition lb_used :: "'a lbq \<Rightarrow> resource set" where
  "lb_used s = Node ` dom (lb_heap s) \<union> lock_used (lb_lock s)"

definition lb_common :: "'a lbq \<Rightarrow> resource set" where
  "lb_common s = Node ` set (lb_addrs s)"

text \<open>One case analysis of a step, shared by all obligations.\<close>

lemma lb_step:
  assumes "lb_inv s" "lb_pinv s t op p" "lb_own p \<inter> (lb_common s \<union> {}) = {}" "body lb_prog t n s p = (s', out)"
  shows "lb_inv s' \<and> (\<forall>e. out \<noteq> Fault e) \<and> (\<forall>p'. out = Next p' \<longrightarrow> lb_pinv s' t op p' \<and> lb_own p' \<subseteq> lb_own p \<union> - lb_used s) \<and>
    lb_common s' \<subseteq> lb_common s \<union> lb_own p \<and> (\<forall>p'. out = Next p' \<longrightarrow> lb_own p' \<inter> lb_common s' = {}) \<and>
    lin_own q_spec op (lb_abs s) (lb_mark p) (lb_abs s') (out_mark lb_mark out)"
proof -
  note D = lb_invD [OF assms(1)] and b = assms(4)
  note defs = held_def posted_def lb_used_def lb_common_def
  show ?thesis
  proof (cases p)
    case (EnqNode x)
    then show ?thesis
    proof (cases "is_fresh (lb_heap s) n")
      case True
      note A = lb_alloc [OF assms(1) True, of "\<lparr>n_value = x, n_next = NULL\<rparr>"]
      show ?thesis using b EnqNode True A assms(2) D(6) by (auto simp: defs is_fresh_def)
    qed (use b assms(1,2) in auto)
  next
    case (EnqLink a c)
    then obtain an where an: "lb_heap s a = Some an" "n_next an = NULL" "op = QEnq (n_value an)"
      and h: "lb_lock s" "last (lb_addrs s) = lb_tail s" "c = lb_tail s"
      using assms(2) by (auto simp: defs)
    have "c \<in> set (lb_addrs s)" using D(3) h by (metis last_in_set)
    then obtain nd where nd: "lb_heap s c = Some nd" using D(6) by auto
    have a: "a \<notin> set (lb_addrs s)" using assms(3) EnqLink by (auto simp: defs)
    note A = lb_link [OF assms(1) _ an(1,2) a nd h(1)]
    show ?thesis using b EnqLink A nd h an D(6)
      by (auto simp: defs lin_own_def)
  next
    case (DeqMove x)
    then obtain xs where h: "lb_lock s" "last (lb_addrs s) = lb_tail s" "lb_abs s = x # xs" "op = QDeq"
      using assms(2) by (auto simp: defs)
    have "set (tl (lb_addrs s)) \<subseteq> set (lb_addrs s)" by (cases "lb_addrs s") auto
    then show ?thesis using b DeqMove lb_move [OF assms(1) h(2,3)] h
      by (auto simp: defs lin_own_def)
  next
    case DeqRead
    then have h: "held s" "op = QDeq" "lb_abs s \<noteq> []" "last (lb_addrs s) = lb_tail s"
      using assms(2) lb_empty_iff [OF assms(1)] by (auto simp: defs)
    then obtain x xs where "lb_abs s = x # xs" by (cases "lb_abs s") auto
    then show ?thesis using b DeqRead lb_move [OF assms(1) h(4), of x xs] h assms(1) by (auto simp: defs lin_own_def)
  next
    case (DeqTest m)
    then have h: "held s" "op = QDeq" "last (lb_addrs s) = lb_tail s" using assms(2) by (auto simp: defs)
    note e = lb_empty_iff [OF assms(1) h(3)]
    show ?thesis using b DeqTest h assms(1) e
      by (cases m) (auto simp: defs lin_own_def split: if_splits)
  next
    case (EnqLock a)
    then show ?thesis using b assms by (auto simp: defs lb_inv_def split: if_splits)
  next
    case (EnqTail a)
    then show ?thesis using b assms by (auto simp: defs)
  next
    case (EnqSetTail a)
    then show ?thesis using b assms D by (auto simp: defs lb_inv_def)
  next
    case EnqCast
    then show ?thesis using b assms by (auto simp: defs lb_inv_def)
  next
    case EnqUnlock
    then show ?thesis using b assms by (auto simp: defs lb_inv_def)
  next
    case DeqSwitch
    then show ?thesis using b assms by (auto simp: defs)
  next
    case (DeqLock m)
    then show ?thesis using b assms by (cases m) (auto simp: defs lb_inv_def split: if_splits)
  next
    case (DeqSleep m)
    then show ?thesis using b assms by (cases m) (auto simp: defs lb_inv_def)
  next
    case (DeqWait m)
    then show ?thesis using b assms by (cases m) (auto simp: defs lb_inv_def split: if_splits)
  next
    case (DeqRelock m to)
    then show ?thesis using b assms by (cases m) (auto simp: defs lb_inv_def split: if_splits)
  next
    case (DeqUnlock r)
    then show ?thesis using b assms by (auto simp: defs lb_inv_def)
  qed
qed

lemma lb_guarantee:
  assumes "lb_inv s" "lb_pinv s t op p" "body lb_prog t n s p = (s', out)"
    and "A \<subseteq> lb_used s - lb_own p" "A \<inter> lb_common s = {}"
  shows "lb_rely A B s s'"
proof -
  note D = lb_invD [OF assms(1)] and b = assms(3)
  have lock: "lb_lock s" "\<not> lb_holds p" if "Lock \<in> A"
    using that assms(4) by (cases p; auto simp: lb_used_def split: if_splits)+
  have node: "a \<notin> set (lb_addrs s)" "lb_heap s a \<noteq> None" if "Node a \<in> A" for a
    using that assms(4,5) by (auto simp: lb_used_def lb_common_def split: if_splits)
  show ?thesis
  proof (cases p)
    case (EnqNode x)
    then show ?thesis
    proof (cases "is_fresh (lb_heap s) n")
      case True
      then show ?thesis using b EnqNode lb_alloc(1,2) [OF assms(1) True] node
        by (auto simp: lb_rely_def is_fresh_def dest: node(2))
    qed (use b in \<open>auto simp: lb_rely_def\<close>)
  next
    case (EnqLink a c)
    have "c \<in> set (lb_addrs s)" using EnqLink assms(2) D(3) last_in_set by (fastforce simp: held_def)
    then have "Node c \<notin> A" using node by blast
    moreover have "Lock \<notin> A" using lock(2) EnqLink by auto
    ultimately show ?thesis using b EnqLink by (auto simp: lb_rely_def split: option.splits)
  qed (use b lock in \<open>auto simp: lb_rely_def split: if_splits option.splits\<close>)
qed

lemma lb_stable:
  assumes "lb_rely (lb_own p) {} s s'" "lb_pinv s t op p"
  shows "lb_pinv s' t op p"
  using assms by (cases p) (auto simp: lb_rely_def held_def posted_def)

lemma lb_pinv_used: "lb_pinv s t op p \<Longrightarrow> lb_own p \<subseteq> lb_used s"
  by (cases p) (auto simp: lb_used_def held_def posted_def)

lemma lb_init_addrs: "a \<noteq> NULL \<Longrightarrow> lb_addrs (lb_init a mode to) = [a]"
  by (rule lb_addrsI) (simp_all add: lb_init_def)

interpretation lb: lf_object lb_prog "lb_init (Suc a) mode to :: 'a::zero lbq" "\<lambda>_ _. True" lb_inv lb_pinv
    lb_used lb_common "\<lambda>_. {}" lb_own "\<lambda>_. {}" lb_rely "\<lambda>_ _. True" lb_abs q_spec "\<lambda>_. lb_mark" for a mode to
proof (unfold_locales, goal_cases)
  case 1 show ?case by (simp add: lb_inv_def lb_init_addrs) (simp add: lb_init_def)
next
  case (2 s t op) then show ?case by (cases op) simp_all
next
  case (3 op) then show ?case by (cases op) simp_all
next
  case (6 s t op p) then show ?case using lb_pinv_used by blast
next
  case (7 s) then show ?case using lb_invD(6) [OF 7] by (auto simp: lb_common_def lb_used_def intro!: imageI)
next
  case (8 s t op p n s' out) then show ?case using lb_step [OF 8] by blast
next
  case (9 s t op p n s' p') then show ?case using lb_step [OF 9] by auto
next
  case (10 s t op p n s' e)
  have False if "body lb_prog t n s p = (s', Fault e)" using lb_step [OF 10 that] by simp
  then show ?case by blast
next
  case (11 s t op p n s' out A u B) show ?case by (rule lb_guarantee [OF 11(1,2,4)]) (use 11(5,6) in auto)
next
  case (12 s s' t p op) then show ?case using lb_stable by simp
next
  case (16 s op) then show ?case by (cases op) simp_all
next
  case (17 s t op p n s' out) then show ?case using lb_step [OF 17] by blast
qed simp_all

section \<open>Properties\<close>

abbreviation lb_run :: "addr \<Rightarrow> nat \<Rightarrow> u64 \<Rightarrow> 'a q_op sched \<Rightarrow> ('a::zero lbq, 'a q_op, 'a q_res, 'a lb_pc) config" where
  "lb_run a mode to es \<equiv> exec lb_prog es (init (lb_init (Suc a) mode to))"

text \<open>
  C24: the lock based queue is linearizable to a FIFO queue in each of its dequeue modes: a
  blocking dequeue never returns without an item, and a timed dequeue that gives up takes
  effect at a moment at which it saw the queue empty, although it does not look again after
  its time is over.
\<close>

theorem lock_queue_linearizable:
  "linearizable_to q_spec [] (history lb_prog es (init (lb_init (Suc a) mode to)))
     (lb_abs (shared (lb_run a mode to es)))"
  using lb.linearizable_exec [of es a mode to] by (simp add: lb_abs_def lb_init_addrs)

text \<open>
  C25: no thread of the lock based queue ever follows NULL or an address without a node,
  whatever the interleaving, the spurious wake-ups and the time outs; and at most one thread is
  between the lock and the unlock of the global lock.
\<close>

theorem lock_queue_exclusion:
  "(\<forall>t op e. threads (lb_run a mode to es) t \<noteq> Dead op e) \<and>
   (\<forall>t u op op' p q. threads (lb_run a mode to es) t = Run op p \<and> lb_holds p \<and>
      threads (lb_run a mode to es) u = Run op' q \<and> lb_holds q \<longrightarrow> t = u)"
proof -
  have inv: "lb.og_inv (lb_run a mode to es)" by (rule lb.og_reachable) simp
  have h: "Lock \<in> lb_own p" if "lb_holds p" for p :: "'a lb_pc" using that by (cases p) auto
  have "t = u" if "threads (lb_run a mode to es) t = Run op p" "lb_holds p"
    "threads (lb_run a mode to es) u = Run op' q" "lb_holds q" for t u op op' p q
    using lb.og_own [OF inv that(1,3)] h [OF that(2)] h [OF that(4)] by blast
  then show ?thesis using lb.og_alive [OF inv] by blast
qed

definition lb_contended :: "nat q_op sched" where
  "lb_contended = [(0, Call (QEnq 7)), (0, Go 2), (1, Call QDeq), (1, Go 0), (0, Go 0), (1, Go 0), (0, Go 0)]"

theorem lock_queue_exclusion_witness:
  "{t. \<exists>op p. threads (lb_run 0 1 0 lb_contended) t = Run op p \<and> lb_holds p} = {0} \<and>
   (\<forall>v op e. threads (lb_run 0 1 0 lb_contended) v \<noteq> Dead op e)"
proof -
  have a: "threads (lb_run 0 1 0 lb_contended) 0 = Run (QEnq 7) (EnqLink 2 1)"
    by (simp add: lb_contended_def lb_init_def step_def init_def is_fresh_def dequeue_switch_def)
  have h: "lb_holds (EnqLink 2 1 :: nat lb_pc)" by simp
  note E = lock_queue_exclusion [of lb_contended 0 1 0]
  have "t = 0" if "threads (lb_run 0 1 0 lb_contended) t = Run op p" "lb_holds p" for t op p
    using E that a h by blast
  then show ?thesis using a h E by blast
qed

text \<open>
  The sleepers: while a thread sleeps on the condition variable, the queue is empty or
  somebody is between the link of a new node and the broadcast.
\<close>

fun announces :: "'a lb_pc \<Rightarrow> bool" where
  "announces (EnqSetTail a) = True" | "announces EnqCast = True" | "announces p = False"

definition wakeup_ok :: "('a lbq, 'a q_op, 'a q_res, 'a lb_pc) config \<Rightarrow> bool" where
  "wakeup_ok c \<longleftrightarrow> lb_wait (shared c) = {} \<or> lb_abs (shared c) = [] \<or>
     (\<exists>u op p. threads c u = Run op p \<and> announces p)"

lemma lb_stays_empty:
  assumes "lb_inv s" "lb_pinv s t op p" "body lb_prog t n s p = (s', out)" "lb_abs s = []"
  shows "lb_abs s' = [] \<or> (\<exists>a. out = Next (EnqSetTail a)) \<or> (\<exists>e. out = Fault e)"
proof (cases p)
  case (EnqNode x)
  then show ?thesis using assms lb_alloc(2) [OF assms(1)] by (cases "is_fresh (lb_heap s) n") auto
qed (use assms in \<open>auto split: if_splits option.splits\<close>)

lemma lb_wait_step:
  assumes "lb_pinv s t op p" "body lb_prog t n s p = (s', out)" "lb_wait s = {}"
  shows "lb_wait s' = {} \<or> lb_abs s' = []"
  using assms by (cases p) (auto split: if_splits option.splits)

lemma announces_step:
  assumes "body lb_prog t n s p = (s', out)" "announces p"
  shows "lb_wait s' = {} \<or> (\<exists>q. out = Next q \<and> announces q)"
  using assms by (cases p) auto

lemma wakeup_step:
  assumes "lb.og_inv c" "wakeup_ok c"
  shows "wakeup_ok (step lb_prog e c)"
proof (cases rule: step_cases [of e c lb_prog])
  case (go t n op p s' out)
  note I = lb.og_sinv [OF assms(1)] lb.og_pinv [OF assms(1) go(2)]
  have nf: "\<forall>e. out \<noteq> Fault e"
    using lb_step [OF I _ go(3)] lb.og_common [OF assms(1) go(2)] by blast
  have new: "wakeup_ok (step lb_prog e c)" if "out = Next q" "announces q" for q
    using that go(4) by (auto simp: wakeup_ok_def)
  consider "lb_wait (shared c) = {}" | "lb_abs (shared c) = []" | "announces p"
    | u op' q where "u \<noteq> t" "threads c u = Run op' q" "announces q"
    using assms(2) go(2) by (auto simp: wakeup_ok_def) (metis tstate.inject(1))
  then show ?thesis
  proof cases
    case 1
    then show ?thesis using lb_wait_step [OF I(2) go(3)] go(4) by (auto simp: wakeup_ok_def)
  next
    case 2
    then show ?thesis using lb_stays_empty [OF I go(3)] nf go(4) new by (auto simp: wakeup_ok_def)
  next
    case 3
    then show ?thesis using announces_step [OF go(3)] go(4) new by (auto simp: wakeup_ok_def)
  next
    case 4
    then have "threads (step lb_prog e c) u = Run op' q" using go(4) by simp
    then show ?thesis using 4 by (auto simp: wakeup_ok_def)
  qed
next
  case (call t op)
  then show ?thesis using assms(2) unfolding wakeup_ok_def by (auto split: if_splits) (metis tstate.distinct(1))
next
  case (leave t op r)
  then show ?thesis using assms(2) unfolding wakeup_ok_def by (auto split: if_splits) (metis tstate.distinct(7))
qed (use assms(2) in simp)

text \<open>
  C26: no wakeup is lost: whenever a thread sleeps in a blocking or timed dequeue, the queue
  is empty or an enqueue that has linked its node is about to wake all sleepers.
\<close>

theorem lock_queue_wakeup:
  "lb_wait (shared (lb_run a mode to es)) = {} \<or> lb_abs (shared (lb_run a mode to es)) = [] \<or>
   (\<exists>u op p. threads (lb_run a mode to es) u = Run op p \<and> announces p)"
proof -
  have "lb.og_inv (exec lb_prog es c) \<and> wakeup_ok (exec lb_prog es c)" if "lb.og_inv c" "wakeup_ok c"
    for c :: "('a lbq, 'a q_op, 'a q_res, 'a lb_pc) config"
    using that by (induction es arbitrary: c) (simp_all add: lb.og_step wakeup_step)
  moreover have "wakeup_ok (init (lb_init (Suc a) mode to) :: ('a lbq, 'a q_op, 'a q_res, 'a lb_pc) config)"
    by (simp add: wakeup_ok_def lb_init_def)
  ultimately have "wakeup_ok (lb_run a mode to es)" using lb.og_init by blast
  then show ?thesis by (simp add: wakeup_ok_def)
qed

text \<open>
  C27: the deadline of a timed dequeue is the time of the day plus the timeout, with less than
  10^9 nanoseconds, as long as the timeout in nanoseconds and the seconds fit 64 bits.
\<close>

theorem deadline_exact:
  assumes "unat us < 1000000" "unat ms < 18446000000000" "unat sec + 18446744074 < 2 ^ 64"
  shows "case deadline sec us ms of (s, ns) \<Rightarrow> unat ns < 1000000000 \<and>
    unat s * 1000000000 + unat ns = unat sec * 1000000000 + unat us * 1000 + unat ms * 1000000"
proof -
  define tmp where "tmp = us * 1000 + ms * 1000000"
  have u: "unat (us * 1000) = unat us * 1000" and m: "unat (ms * 1000000) = unat ms * 1000000"
    using assms(1,2) by (simp_all add: unat_word_ariths)
  have t: "unat tmp = unat us * 1000 + unat ms * 1000000"
    unfolding tmp_def by (subst unat_add_no_overflow) (use assms(1,2) u m in simp_all)
  have "unat tmp < 18446744073709551616" using unsigned_less [of tmp] by simp
  then have q: "unat tmp div 1000000000 \<le> 18446744073" by simp
  have qs: "unat (sec + tmp div 1000000000) = unat sec + unat tmp div 1000000000"
    by (subst unat_add_no_overflow) (use assms(3) q in \<open>simp_all add: unat_div\<close>)
  have le: "tmp \<ge> 1000000000 \<longleftrightarrow> unat tmp \<ge> 1000000000" by (simp add: word_le_nat_alt)
  have md: "unat (tmp mod 1000000000) = unat tmp mod 1000000000" by (simp add: unat_mod)
  have dm: "unat tmp div 1000000000 * 1000000000 + unat tmp mod 1000000000 = unat tmp"
    by (rule div_mult_mod_eq)
  have d: "deadline sec us ms = (if unat tmp \<ge> 1000000000 then (sec + tmp div 1000000000, tmp mod 1000000000)
      else (sec, tmp))"
    unfolding deadline_def Let_def tmp_def [symmetric] le ..
  show ?thesis
  proof (cases "unat tmp \<ge> 1000000000")
    case True
    have "(unat sec + unat tmp div 1000000000) * 1000000000 + unat tmp mod 1000000000 =
        unat sec * 1000000000 + unat tmp" using dm by (simp only: add_mult_distrib add.assoc)
    then show ?thesis unfolding d if_P [OF True] prod.case qs md using t by simp
  next
    case False
    then show ?thesis unfolding d if_not_P [OF False] prod.case using t by simp
  qed
qed

theorem deadline_exact_witness:
  "deadline 7 999999 1500 = (9, 499999000) \<and> unat (499999000 :: u64) < 1000000000"
  using deadline_exact [of 999999 1500 7] by (simp add: deadline_def)

end
