(* ===== verification/Flat_Combining.thy ===== *)
theory Flat_Combining
  imports Queue_Spec Single_List
begin

text \<open>
  The flat combining queue of src/src/datastructures/flatcombining_queue.h: a thread posts
  its operation in its slot, and whoever takes the global lock applies every posted
  operation to a SingleList (the model of Single_List). An operation takes effect by a step
  of the combiner, so the linearization point of a thread is a step of another one, and the
  proof uses the interface of linearizable systems with marks that look at all threads.
\<close>

section \<open>Model\<close>

datatype opcode = Done | Enqueue | Dequeue

record 'a fcq =
  fc_num :: nat
  fc_code :: "nat \<Rightarrow> opcode"
  fc_data :: "nat \<Rightarrow> 'a"
  fc_queue :: "'a slist"
  fc_lock :: bool

text \<open>The constructor: zeroed operations (Done is 0), an empty list with its first node at a.\<close>

definition fc_init :: "nat \<Rightarrow> addr \<Rightarrow> 'a::zero fcq" where
  "fc_init num_ops a = \<lparr>fc_num = num_ops, fc_code = (\<lambda>_. Done), fc_data = (\<lambda>_. 0),
     fc_queue = sl_new a, fc_lock = False\<rparr>"

text \<open>
  The program counters: set_op writes the data and then the opcode of a slot; the scan
  looks at one slot after the other; k tells whether the combiner is an enqueue.
\<close>

datatype 'a fc_pc =
    PutData 'a | PutCode | PutTry | PutCheck
  | GetData | GetCode | GetTry | GetCheck | GetRead | GetClear 'a | GetDone 'a
  | ScanEnq bool nat | ScanDeq bool nat | ApplyEnq bool nat | ApplyDeq bool nat
  | WriteData bool nat 'a | WriteCode bool nat | Unlock bool

type_synonym 'a fc_out = "'a fcq \<times> ('a fc_pc, 'a q_res) outcome"

definition write_data :: "nat \<Rightarrow> 'a \<Rightarrow> 'a fcq \<Rightarrow> 'a fc_pc \<Rightarrow> 'a fc_out" where
  "write_data index data s p = (if index < fc_num s
     then (s\<lparr>fc_data := (fc_data s)(index := data)\<rparr>, Next p)
     else (s, Fault (Undefined ''operations_[index]'')))"

definition write_code :: "nat \<Rightarrow> opcode \<Rightarrow> 'a fcq \<Rightarrow> ('a fc_pc, 'a q_res) outcome \<Rightarrow> 'a fc_out" where
  "write_code index code s out = (if index < fc_num s
     then (s\<lparr>fc_code := (fc_code s)(index := code)\<rparr>, out)
     else (s, Fault (Undefined ''operations_[index]'')))"

fun scan_combine_apply :: "nat \<Rightarrow> 'a::zero fcq \<Rightarrow> 'a fc_pc \<Rightarrow> 'a fc_out" where
  "scan_combine_apply n s (ScanEnq k i) = (s, Next (if i < fc_num s
     then (if fc_code s i = Enqueue then ApplyEnq k i else ScanDeq k i) else Unlock k))"
| "scan_combine_apply n s (ScanDeq k i) = (s, Next (if fc_code s i = Dequeue then ApplyDeq k i else ScanEnq k (i + 1)))"
| "scan_combine_apply n s (ApplyEnq k i) = (if is_fresh (l_heap (fc_queue s)) n
     then (case sl_enqueue n (fc_data s i) (fc_queue s) of
         Inl e \<Rightarrow> (s, Fault e)
       | Inr q \<Rightarrow> (s\<lparr>fc_queue := q\<rparr>, Next (WriteData k i 0)))
     else (s, Next (ApplyEnq k i)))"
| "scan_combine_apply n s (ApplyDeq k i) = (if \<not> sl_is_empty (fc_queue s)
     then (case sl_dequeue (fc_queue s) of
         Inl e \<Rightarrow> (s, Fault e)
       | Inr ((b, item), q) \<Rightarrow> (s\<lparr>fc_queue := q\<rparr>, Next (WriteData k i item)))
     else (s, Next (WriteData k i 0)))"
| "scan_combine_apply n s (WriteData k i item) = write_data i item s (WriteCode k i)"
| "scan_combine_apply n s (WriteCode k i) = write_code i Done s (Next (ScanEnq k (i + 1)))"
| "scan_combine_apply n s (Unlock k) = (s\<lparr>fc_lock := False\<rparr>, if k then Return (QPut True) else Next GetRead)"
| "scan_combine_apply n s p = (s, Fault (Undefined ''scan_combine_apply''))"

fun fc_enqueue :: "tid \<Rightarrow> 'a fcq \<Rightarrow> 'a fc_pc \<Rightarrow> 'a fc_out" where
  "fc_enqueue t s (PutData item) = write_data t item s PutCode"
| "fc_enqueue t s PutCode = write_code t Enqueue s (Next PutTry)"
| "fc_enqueue t s PutTry = (if fc_lock s then (s, Next PutCheck)
     else (s\<lparr>fc_lock := True\<rparr>, Next (ScanEnq True 0)))"
| "fc_enqueue t s PutCheck = (s, if fc_code s t = Done then Return (QPut True) else Next PutTry)"
| "fc_enqueue t s p = (s, Fault (Undefined ''enqueue''))"

fun fc_dequeue :: "tid \<Rightarrow> 'a::zero fcq \<Rightarrow> 'a fc_pc \<Rightarrow> 'a fc_out" where
  "fc_dequeue t s GetData = write_data t 0 s GetCode"
| "fc_dequeue t s GetCode = write_code t Dequeue s (Next GetTry)"
| "fc_dequeue t s GetTry = (if fc_lock s then (s, Next GetCheck)
     else (s\<lparr>fc_lock := True\<rparr>, Next (ScanEnq False 0)))"
| "fc_dequeue t s GetCheck = (s, Next (if fc_code s t = Done then GetRead else GetTry))"
| "fc_dequeue t s GetRead = (s, Next (GetClear (fc_data s t)))"
| "fc_dequeue t s (GetClear item) = write_data t 0 s (GetDone item)"
| "fc_dequeue t s (GetDone item) = write_code t Done s
     (Return (QGot (if item = 0 then None else Some item)))"
| "fc_dequeue t s p = (s, Fault (Undefined ''dequeue''))"

fun is_put :: "'a fc_pc \<Rightarrow> bool" where
  "is_put (PutData x) = True" | "is_put PutCode = True" | "is_put PutTry = True" | "is_put PutCheck = True"
| "is_put p = False"

fun is_get :: "'a fc_pc \<Rightarrow> bool" where
  "is_get GetData = True" | "is_get GetCode = True" | "is_get GetTry = True" | "is_get GetCheck = True"
| "is_get GetRead = True" | "is_get (GetClear x) = True" | "is_get (GetDone x) = True"
| "is_get p = False"

fun fc_start :: "'a q_op \<Rightarrow> 'a fc_pc" where
  "fc_start (QEnq x) = PutData x"
| "fc_start QDeq = GetData"

definition fc_prog :: "('a::zero fcq, 'a q_op, 'a q_res, 'a fc_pc) prog" where
  "fc_prog = \<lparr>start = fc_start, body = (\<lambda>t n s p. if is_put p then fc_enqueue t s p
     else if is_get p then fc_dequeue t s p else scan_combine_apply n s p)\<rparr>"

lemma fc_prog_simps [simp]:
  "start fc_prog = fc_start"
  "body fc_prog t n s p = (if is_put p then fc_enqueue t s p
     else if is_get p then fc_dequeue t s p else scan_combine_apply n s p)"
  by (simp_all add: fc_prog_def)

section \<open>Assertions\<close>

datatype fc_res = Lock_Token | Slot nat

fun combining :: "'a fc_pc \<Rightarrow> bool" where
  "combining (ScanEnq k i) = True" | "combining (ScanDeq k i) = True" | "combining (ApplyEnq k i) = True"
| "combining (ApplyDeq k i) = True" | "combining (WriteData k i x) = True" | "combining (WriteCode k i) = True"
| "combining (Unlock k) = True" | "combining p = False"

text \<open>The operation is in the slot, or was and has been applied.\<close>

fun posted :: "'a fc_pc \<Rightarrow> bool" where
  "posted PutTry = True" | "posted PutCheck = True" | "posted GetTry = True" | "posted GetCheck = True"
| "posted p = combining p"

definition opcode_of :: "'a q_op \<Rightarrow> opcode" where
  "opcode_of op = (case op of QEnq x \<Rightarrow> Enqueue | QDeq \<Rightarrow> Dequeue)"

fun scanned_own :: "'a fcq \<Rightarrow> tid \<Rightarrow> 'a fc_pc \<Rightarrow> bool" where
  "scanned_own s t (ScanEnq k i) = (t < i \<longrightarrow> fc_code s t = Done)"
| "scanned_own s t (ScanDeq k i) = ((t < i \<longrightarrow> fc_code s t = Done) \<and> (t = i \<longrightarrow> fc_code s i \<noteq> Enqueue))"
| "scanned_own s t (ApplyEnq k i) = (t < i \<longrightarrow> fc_code s t = Done)"
| "scanned_own s t (ApplyDeq k i) = (t < i \<longrightarrow> fc_code s t = Done)"
| "scanned_own s t (WriteData k i x) = (t < i \<longrightarrow> fc_code s t = Done)"
| "scanned_own s t (WriteCode k i) = (t < i \<longrightarrow> fc_code s t = Done)"
| "scanned_own s t (Unlock k) = (fc_code s t = Done)"
| "scanned_own s t p = True"

fun busy :: "'a fcq \<Rightarrow> 'a fc_pc \<Rightarrow> bool" where
  "busy s (ScanEnq k i) = (i \<le> fc_num s)"
| "busy s (ScanDeq k i) = (i < fc_num s)"
| "busy s (ApplyEnq k i) = (i < fc_num s \<and> fc_code s i = Enqueue)"
| "busy s (ApplyDeq k i) = (i < fc_num s \<and> fc_code s i = Dequeue)"
| "busy s (WriteData k i x) = (i < fc_num s \<and> fc_code s i \<noteq> Done)"
| "busy s (WriteCode k i) = (i < fc_num s \<and> fc_code s i \<noteq> Done)"
| "busy s p = True"

fun kind_of :: "'a fc_pc \<Rightarrow> bool option" where
  "kind_of (ScanEnq k i) = Some k" | "kind_of (ScanDeq k i) = Some k" | "kind_of (ApplyEnq k i) = Some k"
| "kind_of (ApplyDeq k i) = Some k" | "kind_of (WriteData k i x) = Some k" | "kind_of (WriteCode k i) = Some k"
| "kind_of (Unlock k) = Some k"
| "kind_of p = (if is_put p then Some True else Some False)"

definition fc_pinv :: "'a::zero fcq \<Rightarrow> tid \<Rightarrow> 'a q_op \<Rightarrow> 'a fc_pc \<Rightarrow> bool" where
  "fc_pinv s t op p \<longleftrightarrow> t < fc_num s \<and> op \<noteq> QEnq 0 \<and> kind_of p = Some (op \<noteq> QDeq) \<and>
     (case p of PutData x \<Rightarrow> op = QEnq x | PutCode \<Rightarrow> op = QEnq (fc_data s t) | _ \<Rightarrow> True) \<and>
     (if posted p then fc_code s t = Done \<or> fc_code s t = opcode_of op else fc_code s t = Done) \<and>
     (combining p \<longrightarrow> fc_lock s \<and> scanned_own s t p \<and> busy s p)"

fun fc_own :: "'a fc_pc \<Rightarrow> fc_res set" where
  "fc_own p = (if combining p then {Lock_Token} else {})"

definition fc_used :: "'a fcq \<Rightarrow> fc_res set" where
  "fc_used s = range Slot \<union> (if fc_lock s then {Lock_Token} else {})"

definition fc_inv :: "'a::zero fcq \<Rightarrow> bool" where
  "fc_inv s \<longleftrightarrow> sl_inv (fc_queue s)"

text \<open>
  What a thread relies on: a combiner, that posted operations stay and the lock is its own;
  a thread, that only its posted operation is touched, and only to be marked Done.
\<close>

definition fc_rely :: "fc_res set \<Rightarrow> fc_res set \<Rightarrow> 'a fcq \<Rightarrow> 'a fcq \<Rightarrow> bool" where
  "fc_rely A B s s' \<longleftrightarrow> fc_num s' = fc_num s \<and>
     (Lock_Token \<in> A \<longrightarrow> fc_lock s' = fc_lock s \<and> (\<forall>i. fc_code s i \<noteq> Done \<longrightarrow> fc_code s' i = fc_code s i)) \<and>
     (\<forall>i. Slot i \<in> A \<longrightarrow> (fc_code s i = Done \<longrightarrow> fc_code s' i = Done \<and> fc_data s' i = fc_data s i) \<and>
        (fc_code s' i = Done \<or> fc_code s' i = fc_code s i))"

lemma fc_sl:
  assumes "fc_inv s"
  shows "is_fresh (l_heap (fc_queue s)) n \<Longrightarrow> \<exists>q. sl_enqueue n x (fc_queue s) = Inr q \<and> sl_inv q \<and>
      sl_items q = sl_items (fc_queue s) @ [x]"
    and "\<exists>q b. sl_dequeue (fc_queue s) = Inr ((b, case sl_items (fc_queue s) of [] \<Rightarrow> 0 | x # xs \<Rightarrow> x), q) \<and>
      sl_inv q \<and> sl_items q = tl (sl_items (fc_queue s))"
    and "sl_is_empty (fc_queue s) \<longleftrightarrow> sl_items (fc_queue s) = []"
proof -
  obtain as where as: "sl_chain (fc_queue s) as" using assms by (auto simp: fc_inv_def sl_inv_def)
  show "\<exists>q. sl_enqueue n x (fc_queue s) = Inr q \<and> sl_inv q \<and> sl_items q = sl_items (fc_queue s) @ [x]"
    if "is_fresh (l_heap (fc_queue s)) n"
    using sl_enqueue_ok [OF as, of n x] that by (auto simp: is_fresh_def sl_inv_def)
  show "\<exists>q b. sl_dequeue (fc_queue s) = Inr ((b, case sl_items (fc_queue s) of [] \<Rightarrow> 0 | x # xs \<Rightarrow> x), q) \<and>
      sl_inv q \<and> sl_items q = tl (sl_items (fc_queue s))"
    using sl_dequeue_ok [OF as] by (auto simp: sl_inv_def split: list.splits)
  show "sl_is_empty (fc_queue s) \<longleftrightarrow> sl_items (fc_queue s) = []"
    using sl_empty_ok [OF as] sl_items_eq [OF as] by (simp add: sl_is_empty_def)
qed

text \<open>What a step does: it writes its own idle slot, takes or leaves the lock, or it is the combiner's.\<close>

lemma fc_step:
  assumes "fc_pinv s t op p" "body fc_prog t n s p = (s', out)" "fc_inv s"
    "\<not> (\<exists>k i. p = ApplyEnq k i \<or> p = ApplyDeq k i)"
  shows "fc_queue s' = fc_queue s \<and> fc_num s' = fc_num s \<and> (\<forall>e. out \<noteq> Fault e) \<and>
    (\<forall>p'. out = Next p' \<longrightarrow> fc_pinv s' t op p' \<and> (combining p' \<longrightarrow> combining p \<or> \<not> fc_lock s))"
proof (cases p)
  case (PutData x)
  then show ?thesis using assms by (cases op) (auto simp: fc_pinv_def write_data_def write_code_def opcode_of_def split: if_splits)
next
  case PutCode
  then show ?thesis using assms by (cases op) (auto simp: fc_pinv_def write_data_def write_code_def opcode_of_def split: if_splits)
next
  case PutTry
  then show ?thesis using assms by (cases op) (auto simp: fc_pinv_def write_data_def write_code_def opcode_of_def split: if_splits)
next
  case PutCheck
  then show ?thesis using assms by (cases op) (auto simp: fc_pinv_def write_data_def write_code_def opcode_of_def split: if_splits)
next
  case GetData
  then show ?thesis using assms by (cases op) (auto simp: fc_pinv_def write_data_def write_code_def opcode_of_def split: if_splits)
next
  case GetCode
  then show ?thesis using assms by (cases op) (auto simp: fc_pinv_def write_data_def write_code_def opcode_of_def split: if_splits)
next
  case GetTry
  then show ?thesis using assms by (cases op) (auto simp: fc_pinv_def write_data_def write_code_def opcode_of_def split: if_splits)
next
  case GetCheck
  then show ?thesis using assms by (cases op) (auto simp: fc_pinv_def write_data_def write_code_def opcode_of_def split: if_splits)
next
  case GetRead
  then show ?thesis using assms by (cases op) (auto simp: fc_pinv_def write_data_def write_code_def opcode_of_def split: if_splits)
next
  case (GetClear x)
  then show ?thesis using assms by (cases op) (auto simp: fc_pinv_def write_data_def write_code_def opcode_of_def split: if_splits)
next
  case (GetDone x)
  then show ?thesis using assms by (cases op) (auto simp: fc_pinv_def write_data_def write_code_def opcode_of_def split: if_splits)
next
  case (ScanEnq k i)
  then show ?thesis using assms by (cases op) (auto simp: fc_pinv_def write_data_def write_code_def opcode_of_def split: if_splits)
next
  case (ScanDeq k i)
  then show ?thesis using assms by (cases op) (auto simp: less_Suc_eq fc_pinv_def write_data_def write_code_def opcode_of_def split: if_splits)
next
  case (WriteData k i x)
  then show ?thesis using assms by (cases op) (auto simp: fc_pinv_def write_data_def write_code_def opcode_of_def split: if_splits)
next
  case (WriteCode k i)
  then show ?thesis using assms by (cases op) (auto simp: fc_pinv_def write_data_def write_code_def opcode_of_def split: if_splits)
next
  case (Unlock k)
  then show ?thesis using assms by (cases op) (auto simp: fc_pinv_def write_data_def write_code_def opcode_of_def split: if_splits)
next
qed (use assms in auto)

lemma fc_apply:
  assumes "fc_pinv s t op p" "body fc_prog t n s p = (s', out)" "fc_inv s"
    "p = ApplyEnq k i \<or> p = ApplyDeq k i"
  shows "(s' = s \<and> out = Next p \<and> p = ApplyEnq k i) \<or>
    (\<exists>q x. s' = s\<lparr>fc_queue := q\<rparr> \<and> out = Next (WriteData k i x) \<and> sl_inv q \<and>
      fc_pinv s' t op (WriteData k i x) \<and>
      (if p = ApplyEnq k i then x = 0 \<and> sl_items q = sl_items (fc_queue s) @ [fc_data s i]
       else case sl_items (fc_queue s) of [] \<Rightarrow> x = 0 \<and> sl_items q = [] | y # ys \<Rightarrow> x = y \<and> sl_items q = ys))"
proof -
  note Q = fc_sl [OF assms(3)]
  have keep: "fc_pinv (s\<lparr>fc_queue := q\<rparr>) t op (WriteData k i x)" for q x
    using assms(1,4) by (auto simp: fc_pinv_def)
  from assms(4) show ?thesis
  proof
    assume p: "p = ApplyEnq k i"
    show ?thesis
    proof (cases "is_fresh (l_heap (fc_queue s)) n")
      case True
      then obtain q where "sl_enqueue n (fc_data s i) (fc_queue s) = Inr q" "sl_inv q"
        "sl_items q = sl_items (fc_queue s) @ [fc_data s i]" using Q(1) by blast
      then show ?thesis using assms(2) p True keep by auto
    qed (use assms(2) p in auto)
  next
    assume p: "p = ApplyDeq k i"
    show ?thesis
    proof (cases "sl_items (fc_queue s)")
      case Nil
      then have "s' = s" "out = Next (WriteData k i 0)" using assms(2) p Q(3) by simp_all
      moreover have "fc_pinv s t op (WriteData k i 0)" using keep [of "fc_queue s"] by simp
      moreover have "sl_inv (fc_queue s)" using assms(3) by (simp add: fc_inv_def)
      ultimately show ?thesis using Nil p
        by (intro disjI2 exI [of _ "fc_queue s"] exI [of _ 0]) simp
    next
      case (Cons y ys)
      obtain q b where "sl_dequeue (fc_queue s) = Inr ((b, y), q)" "sl_inv q" "sl_items q = ys"
        using Q(2) Cons by auto
      then show ?thesis using assms(2) p keep Q(3) Cons by auto
    qed
  qed
qed

lemma fc_effect:
  assumes "fc_pinv s t op p" "body fc_prog t n s p = (s', out)"
    "\<not> (\<exists>k i. p = ApplyEnq k i \<or> p = ApplyDeq k i)"
  obtains (same) "s' = s"
  | (acquire) "\<not> fc_lock s" "s' = s\<lparr>fc_lock := True\<rparr>"
  | (release) "combining p" "s' = s\<lparr>fc_lock := False\<rparr>"
  | (own) x c where "\<not> combining p" "fc_code s t = Done"
      "s' = s\<lparr>fc_data := (fc_data s)(t := x)\<rparr> \<or> s' = s\<lparr>fc_code := (fc_code s)(t := c)\<rparr>"
  | (data) i x where "combining p" "fc_code s i \<noteq> Done" "s' = s\<lparr>fc_data := (fc_data s)(i := x)\<rparr>"
  | (code) i where "combining p" "fc_code s i \<noteq> Done" "s' = s\<lparr>fc_code := (fc_code s)(i := Done)\<rparr>"
proof (cases p)
  case (PutData x)
  then show thesis using assms(1,2) by (intro own) (auto simp: fc_pinv_def write_data_def write_code_def)
next
  case PutCode
  then show thesis using assms(1,2) by (intro own) (auto simp: fc_pinv_def write_data_def write_code_def)
next
  case PutTry
  then show thesis using assms(2) same acquire by (simp split: if_splits)
next
  case GetTry
  then show thesis using assms(2) same acquire by (simp split: if_splits)
next
  case PutCheck
  then show thesis using assms(2) same by simp
next
  case GetData
  then show thesis using assms(1,2) by (intro own) (auto simp: fc_pinv_def write_data_def write_code_def)
next
  case GetCode
  then show thesis using assms(1,2) by (intro own) (auto simp: fc_pinv_def write_data_def write_code_def)
next
  case GetCheck
  then show thesis using assms(2) same by simp
next
  case GetRead
  then show thesis using assms(2) same by simp
next
  case (GetClear x)
  then show thesis using assms(1,2) by (intro own) (auto simp: fc_pinv_def write_data_def write_code_def)
next
  case (GetDone x)
  then show thesis using assms(1,2) by (intro own) (auto simp: fc_pinv_def write_data_def write_code_def)
next
  case (ScanEnq k i)
  then show thesis using assms(2) same by simp
next
  case (ScanDeq k i)
  then show thesis using assms(2) same by simp
next
  case (WriteData k i x)
  then show thesis using assms(1,2) by (intro data [of i x]) (auto simp: fc_pinv_def write_data_def write_code_def)
next
  case (WriteCode k i)
  then show thesis using assms(1,2) by (intro code [of i]) (auto simp: fc_pinv_def write_data_def write_code_def)
next
  case (Unlock k)
  then show thesis using assms(1,2) release by (simp add: fc_pinv_def write_data_def write_code_def)
qed (use assms(3) in simp_all)

lemma fc_guarantee:
  assumes "fc_pinv s t op p" "body fc_prog t n s p = (s', out)" "fc_inv s"
    "A \<subseteq> fc_used s - ({Slot t} \<union> fc_own p)"
  shows "fc_rely A B s s'"
proof (cases "\<exists>k i. p = ApplyEnq k i \<or> p = ApplyDeq k i")
  case True
  then obtain k i where p: "p = ApplyEnq k i \<or> p = ApplyDeq k i" by blast
  obtain q where "s' = s \<or> s' = s\<lparr>fc_queue := q\<rparr>" using fc_apply [OF assms(1-3) p] by blast
  then show ?thesis by (auto simp: fc_rely_def)
next
  case False
  have lock: "Lock_Token \<in> A \<Longrightarrow> fc_lock s" "Lock_Token \<in> A \<Longrightarrow> \<not> combining p"
    using assms(4) by (auto simp: fc_used_def split: if_splits)
  have slot: "Slot t \<notin> A" using assms(4) by auto
  show ?thesis
    using assms(1,2) False
  proof (cases rule: fc_effect)
    case (own x c)
    then show ?thesis using slot by (cases "s' = s\<lparr>fc_data := (fc_data s)(t := x)\<rparr>") (auto simp: fc_rely_def)
  qed (use lock in \<open>auto simp: fc_rely_def\<close>)
qed

lemma fc_stable:
  assumes "fc_rely ({Slot t} \<union> fc_own p) B s s'" "fc_pinv s t op p"
  shows "fc_pinv s' t op p"
proof -
  have c: "fc_code s i \<noteq> Done \<Longrightarrow> fc_code s' i = fc_code s i" "fc_lock s' = fc_lock s" if "combining p" for i
    using assms(1) that by (auto simp: fc_rely_def)
  have r: "fc_num s' = fc_num s" "fc_code s t = Done \<Longrightarrow> fc_code s' t = Done \<and> fc_data s' t = fc_data s t"
    "fc_code s' t = Done \<or> fc_code s' t = fc_code s t"
    using assms(1) by (auto simp: fc_rely_def)
  show ?thesis
  proof (cases "combining p")
    case True
    have o: "opcode_of op \<noteq> Done" by (simp add: opcode_of_def split: q_op.splits)
    show ?thesis using assms(2) True c [OF True] r
      by (cases p) (auto simp: fc_pinv_def)
  next
    case False
    then show ?thesis using assms(2) r by (cases p) (auto simp: fc_pinv_def)
  qed
qed

lemma fc_body:
  assumes "fc_pinv s t op p" "body fc_prog t n s p = (s', out)" "fc_inv s"
  shows "fc_inv s' \<and> (\<forall>e. out \<noteq> Fault e) \<and>
    (\<forall>p'. out = Next p' \<longrightarrow> fc_pinv s' t op p' \<and> (combining p' \<longrightarrow> combining p \<or> \<not> fc_lock s))"
proof (cases "\<exists>k i. p = ApplyEnq k i \<or> p = ApplyDeq k i")
  case True
  then obtain k i where p: "p = ApplyEnq k i \<or> p = ApplyDeq k i" by blast
  from fc_apply [OF assms(1-3) p] show ?thesis
    using p assms(1,3) by (auto simp: fc_inv_def)
next
  case False
  then show ?thesis using fc_step [OF assms(1-3)] assms(3) by (auto simp: fc_inv_def)
qed

lemma fc_return:
  assumes "fc_pinv s t op p" "body fc_prog t n s p = (s', Return r)"
  shows "fc_code s' t = Done"
  using assms by (cases p) (auto simp: fc_pinv_def write_data_def write_code_def split: if_splits option.splits sum.splits)

definition fc_ok :: "nat \<Rightarrow> tid \<Rightarrow> 'a::zero q_op \<Rightarrow> bool" where
  "fc_ok num t op \<longleftrightarrow> t < num \<and> op \<noteq> QEnq 0"

definition fc_sinv :: "nat \<Rightarrow> 'a::zero fcq \<Rightarrow> bool" where
  "fc_sinv num s \<longleftrightarrow> fc_inv s \<and> fc_num s = num"

interpretation fc: og_system fc_prog "fc_init num (Suc a) :: 'a::zero fcq" "fc_ok num" "fc_sinv num" fc_pinv
    fc_used "\<lambda>_. {}" "\<lambda>t. {Slot t}" fc_own "\<lambda>_. {}" fc_rely "\<lambda>s t. fc_code s t = Done" for num a
proof (unfold_locales, goal_cases)
  case 1 show ?case using sl_new_ok [of "Suc a"] by (auto simp: fc_sinv_def fc_inv_def fc_init_def sl_inv_def)
next
  case (2 s t op)
  then show ?case by (cases op) (auto simp: fc_pinv_def fc_ok_def fc_sinv_def)
next
  case (3 op) then show ?case by (cases op) simp_all
next
  case (4 s t) then show ?case by (simp add: fc_used_def)
next
  case (6 s t op p) then show ?case by (auto simp: fc_used_def fc_pinv_def)
next
  case (8 s t op p n s' out)
  have "fc_num s' = fc_num s" using fc_guarantee [OF 8(2,4), of "{}"] 8(1) by (simp add: fc_sinv_def fc_rely_def)
  then show ?case using fc_body [OF 8(2,4)] 8(1) by (simp add: fc_sinv_def)
next
  case (9 s t op p n s' p')
  have "fc_inv s" using 9(1) by (simp add: fc_sinv_def)
  from fc_body [OF 9(2,4) this] show ?case by (auto simp: fc_used_def)
next
  case (10 s t op p n s' e)
  have "fc_inv s" using 10(1) by (simp add: fc_sinv_def)
  then have False if "body fc_prog t n s p = (s', Fault e)" using fc_body [OF 10(2) that] by simp
  then show ?case by blast
next
  case (11 s t op p n s' out A u B)
  show ?case by (rule fc_guarantee [OF 11(2,4)]) (use 11(1,5) in \<open>auto simp: fc_sinv_def\<close>)
next
  case (12 s s' t p op) then show ?case using fc_stable by blast
next
  case (13 t) then show ?case by (simp add: fc_init_def)
next
  case (14 s t op p n s' r) then show ?case using fc_return [OF 14(2,4)] by simp
next
  case (15 s s' t) then show ?case by (simp add: fc_rely_def)
qed simp_all

section \<open>Linearization points\<close>

text \<open>
  What the combiner has in hand for a slot: the result that it is about to write there, or
  has written already while the opcode is not yet Done.
\<close>

type_synonym 'a fc_config = "('a fcq, 'a q_op, 'a q_res, 'a fc_pc) config"

definition at_pc :: "'a fc_config \<Rightarrow> 'a fc_pc \<Rightarrow> bool" where
  "at_pc c q \<longleftrightarrow> (\<exists>u op. threads c u = Run op q)"

definition pending :: "'a fc_config \<Rightarrow> tid \<Rightarrow> 'a \<Rightarrow> bool" where
  "pending c t y \<longleftrightarrow> (\<exists>k. at_pc c (WriteData k t y)) \<or>
     (\<exists>k. at_pc c (WriteCode k t)) \<and> y = fc_data (shared c) t"

fun result_of :: "'a::zero q_op \<Rightarrow> 'a \<Rightarrow> 'a q_res" where
  "result_of (QEnq x) y = QPut True"
| "result_of QDeq y = QGot (if y = 0 then None else Some y)"

definition slot_mark :: "'a::zero fcq \<Rightarrow> ('a \<Rightarrow> bool) \<Rightarrow> tid \<Rightarrow> 'a q_op \<Rightarrow> 'a fc_pc \<Rightarrow> 'a q_res mark" where
  "slot_mark s pend t op p = (if posted p
     then (if \<exists>y. pend y then Fixed (result_of op (THE y. pend y))
       else if fc_code s t = Done then Fixed (result_of op (fc_data s t)) else Pend)
     else case p of GetRead \<Rightarrow> Fixed (result_of op (fc_data s t))
       | GetClear y \<Rightarrow> Fixed (result_of op y) | GetDone y \<Rightarrow> Fixed (result_of op y) | _ \<Rightarrow> Pend)"

definition fc_mark :: "'a::zero fc_config \<Rightarrow> tid \<Rightarrow> 'a q_op \<Rightarrow> 'a fc_pc \<Rightarrow> 'a q_res mark" where
  "fc_mark c t = slot_mark (shared c) (pending c t) t"

text \<open>No item is NULL, and a posted operation is that of its thread until it is applied.\<close>

definition fc_conf :: "'a::zero fc_config \<Rightarrow> bool" where
  "fc_conf c \<longleftrightarrow> 0 \<notin> set (sl_items (fc_queue (shared c))) \<and>
     (\<forall>t. fc_code (shared c) t \<noteq> Done \<longrightarrow> (\<exists>op p. threads c t = Run op p \<and> posted p \<and>
        (\<forall>x. op = QEnq x \<longrightarrow> fc_data (shared c) t = x \<or> (\<exists>k. at_pc c (WriteCode k t)))))"

definition fc_all :: "nat \<Rightarrow> 'a::zero fc_config \<Rightarrow> bool" where
  "fc_all num c \<longleftrightarrow> fc.og_inv num c \<and> fc_conf c"

lemma at_pc_same:
  assumes "threads c' = (threads c)(t := l)" "\<And>op. threads c t \<noteq> Run op q" "\<And>op. l \<noteq> Run op q"
  shows "at_pc c' q = at_pc c q"
  using assms unfolding at_pc_def by (metis fun_upd_apply)

lemma sole_combiner:
  assumes "fc.og_inv num c" "threads c t = Run op p" "combining p" "at_pc c q" "combining q"
  shows "q = p"
proof -
  obtain u op' where u: "threads c u = Run op' q" using assms(4) by (auto simp: at_pc_def)
  have "u = t" using fc.og_own [OF assms(1) assms(2) u] assms(3,5) by auto
  then show ?thesis using assms(2) u by simp
qed

lemma pending_busy:
  assumes "fc.og_inv num c" "pending c t y"
  shows "fc_code (shared c) t \<noteq> Done"
  using assms fc.og_pinv [OF assms(1)] by (fastforce simp: pending_def at_pc_def fc_pinv_def)

lemma pending_unique:
  assumes "fc.og_inv num c" "pending c t y" "pending c t z"
  shows "y = z"
proof -
  obtain q where q: "at_pc c q" "combining q" "(\<exists>k. q = WriteData k t y) \<or> (\<exists>k. q = WriteCode k t) \<and> y = fc_data (shared c) t"
    using assms(2) by (auto simp: pending_def)
  obtain r where r: "at_pc c r" "combining r" "(\<exists>k. r = WriteData k t z) \<or> (\<exists>k. r = WriteCode k t) \<and> z = fc_data (shared c) t"
    using assms(3) by (auto simp: pending_def)
  obtain u op where "threads c u = Run op q" using q(1) by (auto simp: at_pc_def)
  from sole_combiner [OF assms(1) this q(2) r(1,2)] show ?thesis using q(3) r(3) by auto
qed

fun writes :: "'a fc_pc \<Rightarrow> bool" where
  "writes (WriteData k i x) = True" | "writes (WriteCode k i) = True" | "writes p = False"

lemma own_step_shape:
  assumes "fc_pinv s t op p" "body fc_prog t n s p = (s', out)" "\<not> combining p"
  shows "fc_queue s' = fc_queue s" "v \<noteq> t \<Longrightarrow> fc_code s' v = fc_code s v \<and> fc_data s' v = fc_data s v"
    "out = Next q \<Longrightarrow> \<not> writes q" "\<not> writes p"
proof -
  have "fc_queue s' = fc_queue s \<and> (v \<noteq> t \<longrightarrow> fc_code s' v = fc_code s v \<and> fc_data s' v = fc_data s v) \<and>
      (\<forall>q. out = Next q \<longrightarrow> \<not> writes q)"
    using assms by (cases p) (auto simp: write_data_def write_code_def split: if_splits)
  then show "fc_queue s' = fc_queue s" "v \<noteq> t \<Longrightarrow> fc_code s' v = fc_code s v \<and> fc_data s' v = fc_data s v"
    "out = Next q \<Longrightarrow> \<not> writes q" by simp_all
  show "\<not> writes p" using assms(3) by (cases p) auto
qed

lemma own_step_mark:
  assumes "fc_pinv s t op p" "body fc_prog t n s p = (s', out)" "\<not> combining p"
    and "fc_code s t = Done \<Longrightarrow> pend = (\<lambda>_. False) \<and> pend' = (\<lambda>_. False)"
    and "fc_data s' t = fc_data s t \<Longrightarrow> pend' = pend"
  shows "evolves (slot_mark s pend t op p)
    (case out of Next q \<Rightarrow> slot_mark s' pend' t op q | Return r \<Rightarrow> Fixed r | Fault e \<Rightarrow> Pend)"
proof -
  have o: "opcode_of op \<noteq> Done" by (simp add: opcode_of_def split: q_op.splits)
  show ?thesis
    using assms(1-3) assms(4,5) o
    by (cases p; cases op) (auto simp: slot_mark_def fc_pinv_def write_data_def write_code_def opcode_of_def
        split: if_splits)
qed

abbreviation fc_items :: "'a fcq \<Rightarrow> 'a list" where
  "fc_items s \<equiv> sl_items (fc_queue s)"

lemma silent_lin_step:
  assumes "fc_items (shared c') = fc_items (shared c)" "\<And>v. evolves (cmark fc_mark c v) (cmark fc_mark c' v)"
  shows "lin_step q_spec fc_items fc_mark c c'"
  using assms by (simp add: lin_step_def silent_marks_def)

lemma slot_mark_cong:
  assumes "fc_code s' t = fc_code s t" "fc_data s' t = fc_data s t"
  shows "slot_mark s' pend t op p = slot_mark s pend t op p"
  unfolding slot_mark_def assms ..

lemma mark_same:
  assumes "threads c' v = threads c v" "fc_code (shared c') v = fc_code (shared c) v"
    "fc_data (shared c') v = fc_data (shared c) v" "pending c' v = pending c v"
  shows "cmark fc_mark c' v = cmark fc_mark c v"
  unfolding cmark_def fc_mark_def assms(1,4) slot_mark_cong [OF assms(2,3)] ..

lemma own_go:
  assumes "fc_all num c" "threads c t = Run op p" "body fc_prog t n (shared c) p = (s', out)" "\<not> combining p"
  shows "fc_conf \<lparr>shared = s', threads = (threads c)(t := resume op out)\<rparr> \<and>
    lin_step q_spec fc_items fc_mark c \<lparr>shared = s', threads = (threads c)(t := resume op out)\<rparr>"
proof -
  let ?c = "\<lparr>shared = s', threads = (threads c)(t := resume op out)\<rparr>"
  have og: "fc.og_inv num c" and conf: "fc_conf c" using assms(1) by (simp_all add: fc_all_def)
  have pi: "fc_pinv (shared c) t op p" using fc.og_pinv [OF og assms(2)] .
  note S = own_step_shape [OF pi assms(3,4)]
  have nofault: "\<forall>e. out \<noteq> Fault e"
    using fc_body [OF pi assms(3)] fc.og_sinv [OF og] by (simp add: fc_sinv_def)
  have at: "at_pc ?c q = at_pc c q" if "writes q" for q
    by (rule at_pc_same [where t = t and l = "resume op out"])
      (use assms(2) S(3,4) that in \<open>auto elim: resume.elims\<close>)
  have pend: "pending ?c v = pending c v" if "fc_data s' v = fc_data (shared c) v" for v
    using that at by (auto simp: pending_def fun_eq_iff)
  have none: "pending c t = (\<lambda>_. False) \<and> pending ?c t = (\<lambda>_. False)" if "fc_code (shared c) t = Done"
  proof -
    have "\<not> at_pc c (WriteData k t y) \<and> \<not> at_pc c (WriteCode k t)" for k y
      using pending_busy [OF og, of t] that unfolding pending_def by blast
    then show ?thesis using at by (auto simp: pending_def fun_eq_iff)
  qed
  have own: "evolves (slot_mark (shared c) (pending c t) t op p)
    (case out of Next q \<Rightarrow> slot_mark s' (pending ?c t) t op q | Return r \<Rightarrow> Fixed r | Fault e \<Rightarrow> Pend)"
    by (rule own_step_mark [OF pi assms(3,4)]) (use none pend in auto)
  have mk: "evolves (cmark fc_mark c v) (cmark fc_mark ?c v)" for v
  proof (cases "v = t")
    case True
    then show ?thesis using own assms(2) nofault by (cases out) (simp_all add: fc_mark_def cmark_def)
  next
    case False
    then have "cmark fc_mark ?c v = cmark fc_mark c v"
      using S(2) [of v] pend by (intro mark_same) simp_all
    then show ?thesis by simp
  qed
  have "\<exists>op' q. threads ?c v = Run op' q \<and> posted q \<and>
      (\<forall>x. op' = QEnq x \<longrightarrow> fc_data s' v = x \<or> (\<exists>k. at_pc ?c (WriteCode k v)))"
    if v: "fc_code s' v \<noteq> Done" for v
  proof (cases "v = t")
    case False
    then show ?thesis using conf v S(2) [of v] at by (auto simp: fc_conf_def)
  next
    case True
    show ?thesis
    proof (cases "fc_code (shared c) t = Done")
      case c: True
      then show ?thesis using v pi assms(3,4) True
        by (cases p) (auto simp: fc_pinv_def write_data_def write_code_def split: if_splits)
    next
      case c: False
      then obtain "posted p" "\<forall>x. op = QEnq x \<longrightarrow> fc_data (shared c) t = x \<or> (\<exists>k. at_pc c (WriteCode k t))"
        using conf assms(2) by (auto simp: fc_conf_def)
      then show ?thesis using v c pi assms(3,4) True at
        by (cases p) (auto simp: fc_pinv_def write_data_def write_code_def split: if_splits)
    qed
  qed
  then have "fc_conf ?c" using conf S(1) by (simp add: fc_conf_def)
  then show ?thesis using silent_lin_step [of ?c c] mk S(1) by simp
qed

text \<open>A step of the combiner.\<close>

definition slot_val :: "'a::zero fcq \<Rightarrow> ('a \<Rightarrow> bool) \<Rightarrow> tid \<Rightarrow> 'a q_op \<Rightarrow> 'a q_res mark" where
  "slot_val s pend t op = (if \<exists>y. pend y then Fixed (result_of op (THE y. pend y))
     else if fc_code s t = Done then Fixed (result_of op (fc_data s t)) else Pend)"

lemma slot_mark_posted: "posted p \<Longrightarrow> slot_mark s pend t op p = slot_val s pend t op"
  by (simp add: slot_mark_def slot_val_def)

lemma slot_mark_idle:
  assumes "\<not> posted p" "fc_data s' t = fc_data s t"
  shows "slot_mark s' pend' t op p = slot_mark s pend t op p"
  unfolding slot_mark_def assms(2) using assms(1) by (simp only: if_False)

lemma combining_posted: "combining p \<Longrightarrow> posted p"
  by (cases p) auto

lemma writes_combining: "writes p \<Longrightarrow> combining p"
  by (cases p) auto

lemma comb_pending:
  assumes "fc.og_inv num c" "threads c t = Run op p" "combining p"
  shows "pending c v y \<longleftrightarrow> (\<exists>k. p = WriteData k v y) \<or> (\<exists>k. p = WriteCode k v) \<and> y = fc_data (shared c) v"
    and "at_pc c q \<and> combining q \<longleftrightarrow> q = p"
proof -
  show a: "at_pc c q \<and> combining q \<longleftrightarrow> q = p" for q
    using sole_combiner [OF assms(1-3)] assms(2,3) by (auto simp: at_pc_def)
  have "at_pc c q \<longleftrightarrow> q = p" if "combining q" for q using a that by blast
  then show "pending c v y \<longleftrightarrow> (\<exists>k. p = WriteData k v y) \<or> (\<exists>k. p = WriteCode k v) \<and> y = fc_data (shared c) v"
    by (auto simp: pending_def)
qed

lemma comb_pending_after:
  fixes c :: "'a::zero fc_config" and s' :: "'a fcq"
  assumes "fc.og_inv num c" "threads c t = Run op p" "combining p"
  defines "c' \<equiv> \<lambda>out :: ('a fc_pc, 'a q_res) outcome. \<lparr>shared = s', threads = (threads c)(t := resume op out)\<rparr>"
  shows "combining q \<Longrightarrow> at_pc (c' out) q \<longleftrightarrow> out = Next q"
    and "pending (c' out) v y \<longleftrightarrow> (\<exists>k. out = Next (WriteData k v y)) \<or>
      (\<exists>k. out = Next (WriteCode k v)) \<and> y = fc_data s' v"
proof -
  have o: "\<not> combining q" if "threads c u = Run op' q" "u \<noteq> t" for u op' q
    using fc.og_own [OF assms(1,2) that(1)] that(2) assms(3) by auto
  show a: "at_pc (c' out) q \<longleftrightarrow> out = Next q" if "combining q" for q
    using o that unfolding at_pc_def c'_def by (cases out) auto
  show "pending (c' out) v y \<longleftrightarrow> (\<exists>k. out = Next (WriteData k v y)) \<or>
      (\<exists>k. out = Next (WriteCode k v)) \<and> y = fc_data s' v"
    unfolding pending_def using a by (simp add: c'_def)
qed

text \<open>The steps of the combiner that do not apply an operation.\<close>

lemma comb_silent:
  assumes "fc_pinv s t op p" "body fc_prog t n s p = (s', out)" "combining p"
    "\<not> (\<exists>k i. p = ApplyEnq k i \<or> p = ApplyDeq k i)"
    "\<And>y. pend y \<longleftrightarrow> (\<exists>k. p = WriteData k v y) \<or> (\<exists>k. p = WriteCode k v) \<and> y = fc_data s v"
    "\<And>y. pend' y \<longleftrightarrow> (\<exists>k. out = Next (WriteData k v y)) \<or> (\<exists>k. out = Next (WriteCode k v)) \<and> y = fc_data s' v"
  shows "slot_val s' pend' v op' = slot_val s pend v op'"
    and "fc_code s v = Done \<Longrightarrow> fc_code s' v = Done \<and> fc_data s' v = fc_data s v"
    and "out = Next q \<Longrightarrow> combining q \<or> q = GetRead \<and> fc_code s t = Done"
    and "out = Return r \<Longrightarrow> r = QPut True \<and> op \<noteq> QDeq \<and> fc_code s t = Done"
    and "fc_code s' v \<noteq> Done \<Longrightarrow> fc_code s v \<noteq> Done \<and> (fc_data s' v = fc_data s v \<or> (\<exists>k. out = Next (WriteCode k v)))"
proof -
  have pe: "pend = (\<lambda>y. (\<exists>k. p = WriteData k v y) \<or> (\<exists>k. p = WriteCode k v) \<and> y = fc_data s v)"
    "pend' = (\<lambda>y. (\<exists>k. out = Next (WriteData k v y)) \<or> (\<exists>k. out = Next (WriteCode k v)) \<and> y = fc_data s' v)"
    using assms(5,6) by (simp_all add: fun_eq_iff)
  have "slot_val s' (\<lambda>y. (\<exists>k. out = Next (WriteData k v y)) \<or> (\<exists>k. out = Next (WriteCode k v)) \<and> y = fc_data s' v) v op' =
      slot_val s (\<lambda>y. (\<exists>k. p = WriteData k v y) \<or> (\<exists>k. p = WriteCode k v) \<and> y = fc_data s v) v op'"
    (is ?same)
  proof (cases p)
    case (WriteData k i x)
    then have "s' = s\<lparr>fc_data := (fc_data s)(i := x)\<rparr>" "out = Next (WriteCode k i)" "fc_code s i \<noteq> Done"
      using assms(1,2) by (auto simp: fc_pinv_def write_data_def)
    then show ?same
      using WriteData by (cases "v = i") (simp_all add: slot_val_def)
  next
    case (WriteCode k i)
    then have "s' = s\<lparr>fc_code := (fc_code s)(i := Done)\<rparr>" "out = Next (ScanEnq k (i + 1))" "fc_code s i \<noteq> Done"
      using assms(1,2) by (auto simp: fc_pinv_def write_code_def)
    then show ?same
      using WriteCode by (cases "v = i") (simp_all add: slot_val_def)
  next
    case (ScanEnq k i)
    then have "s' = s" "\<And>k i x. out \<noteq> Next (WriteData k i x)" "\<And>k i. out \<noteq> Next (WriteCode k i)"
      using assms(1,2) by (auto split: if_splits)
    then show ?same
      using ScanEnq by simp
  next
    case (ScanDeq k i)
    then have "s' = s" "\<And>k i x. out \<noteq> Next (WriteData k i x)" "\<And>k i. out \<noteq> Next (WriteCode k i)"
      using assms(1,2) by (auto split: if_splits)
    then show ?same
      using ScanDeq by simp
  next
    case (Unlock k)
    then have "s' = s\<lparr>fc_lock := False\<rparr>" "\<And>k i x. out \<noteq> Next (WriteData k i x)" "\<And>k i. out \<noteq> Next (WriteCode k i)"
      using assms(1,2) by (auto split: if_splits)
    then show ?same
      using Unlock by (simp add: slot_val_def)
  qed (use assms(3,4) in simp_all)
  then show "slot_val s' pend' v op' = slot_val s pend v op'" unfolding pe .
  show "fc_code s v = Done \<Longrightarrow> fc_code s' v = Done \<and> fc_data s' v = fc_data s v"
    using assms(1-4) by (cases p) (auto simp: fc_pinv_def write_data_def write_code_def split: if_splits)
  have U: "fc_code s t = Done" "k = (op \<noteq> QDeq)" if "p = Unlock k" for k
    using assms(1) that by (simp_all add: fc_pinv_def)
  show "combining q \<or> q = GetRead \<and> fc_code s t = Done" if "out = Next q"
  proof (cases "\<exists>k. p = Unlock k")
    case True
    then show ?thesis using U assms(2) that by (auto split: if_splits)
  next
    case False
    then show ?thesis using assms(2-4) that by (cases p) (auto simp: write_data_def write_code_def split: if_splits)
  qed
  show "r = QPut True \<and> op \<noteq> QDeq \<and> fc_code s t = Done" if "out = Return r"
  proof (cases "\<exists>k. p = Unlock k")
    case True
    then show ?thesis using U assms(2) that by (auto split: if_splits)
  next
    case False
    then show ?thesis using assms(2-4) that by (cases p) (auto simp: write_data_def write_code_def split: if_splits)
  qed
  have "(fc_data s' v = fc_data s v \<or> (\<exists>k. out = Next (WriteCode k v))) \<and>
    (fc_code s' v = Done \<or> fc_code s' v = fc_code s v)"
  proof (cases p)
    case (WriteData k i x)
    then have "s' = s\<lparr>fc_data := (fc_data s)(i := x)\<rparr> \<and> out = Next (WriteCode k i) \<or> s' = s"
      using assms(2) by (simp add: write_data_def split: if_splits)
    then show ?thesis by (elim disjE conjE) simp_all
  next
    case (WriteCode k i)
    then have "s' = s\<lparr>fc_code := (fc_code s)(i := Done)\<rparr> \<or> s' = s"
      using assms(2) by (simp add: write_code_def split: if_splits)
    then show ?thesis by (elim disjE conjE) simp_all
  next
    case (ScanEnq k i)
    then show ?thesis using assms(2) by simp
  next
    case (ScanDeq k i)
    then show ?thesis using assms(2) by simp
  next
    case (Unlock k)
    then show ?thesis using assms(2) by auto
  qed (use assms(3,4) in simp_all)
  then show "fc_code s' v \<noteq> Done \<Longrightarrow> fc_code s v \<noteq> Done \<and> (fc_data s' v = fc_data s v \<or> (\<exists>k. out = Next (WriteCode k v)))"
    by auto
qed

lemma run_mark:
  assumes "threads c v = Run op p"
  shows "cmark fc_mark c v = slot_mark (shared c) (pending c v) v op p"
  using assms by (simp add: fc_mark_def)

lemma comb_go:
  assumes "fc_all num c" "threads c t = Run op p" "body fc_prog t n (shared c) p = (s', out)" "combining p"
    "\<not> (\<exists>k i. p = ApplyEnq k i \<or> p = ApplyDeq k i)"
  shows "fc_conf \<lparr>shared = s', threads = (threads c)(t := resume op out)\<rparr> \<and>
    lin_step q_spec fc_items fc_mark c \<lparr>shared = s', threads = (threads c)(t := resume op out)\<rparr>"
proof -
  let ?c = "\<lparr>shared = s', threads = (threads c)(t := resume op out)\<rparr>"
  have og: "fc.og_inv num c" and conf: "fc_conf c" using assms(1) by (simp_all add: fc_all_def)
  have pi: "fc_pinv (shared c) t op p" using fc.og_pinv [OF og assms(2)] .
  have si: "fc_inv (shared c)" using fc.og_sinv [OF og] by (simp add: fc_sinv_def)
  note P = comb_pending [OF og assms(2,4)] and P' = comb_pending_after [OF og assms(2,4), where s' = s' and out = out]
  note S = comb_silent [OF pi assms(3-5) P(1) P'(2)]
  have st: "fc_queue s' = fc_queue (shared c)" "\<forall>e. out \<noteq> Fault e"
    using fc_step [OF pi assms(3) si assms(5)] by simp_all
  have nopend: "\<not> pending c v y" if "fc_code (shared c) v = Done" for v y
    using pending_busy [OF og, of v y] that by blast
  have mk: "evolves (cmark fc_mark c v) (cmark fc_mark ?c v)" for v
  proof (cases "v = t")
    case False
    show ?thesis
    proof (cases "threads c v")
      case (Run op' q)
      then have r: "threads ?c v = Run op' q" using False by simp
      show ?thesis
      proof (cases "posted q")
        case True
        then show ?thesis
          using S(1) [of v op'] run_mark [OF r] run_mark [OF Run] by (simp add: slot_mark_posted)
      next
        case np: False
        then have "fc_code (shared c) v = Done" using fc.og_pinv [OF og Run] by (simp add: fc_pinv_def)
        then have d: "fc_data s' v = fc_data (shared c) v" using S(2) by blast
        then show ?thesis using run_mark [OF r] run_mark [OF Run]
          by (simp add: slot_mark_idle [OF np d, of "pending ?c v" op' "pending c v"])
      qed
    qed (use False in \<open>simp_all add: cmark_def\<close>)
  next
    case True
    have m: "cmark fc_mark c t = slot_val (shared c) (pending c t) t op"
      using run_mark [OF assms(2)] slot_mark_posted [OF combining_posted [OF assms(4)]] by simp
    have d: "cmark fc_mark c t = Fixed (result_of op (fc_data (shared c) t))" if "fc_code (shared c) t = Done"
      using m nopend [OF that] that by (simp add: slot_val_def)
    show ?thesis
    proof (cases out)
      case (Next q)
      then have r: "threads ?c t = Run op q" by simp
      consider "combining q" | "q = GetRead" "fc_code (shared c) t = Done" using S(3) Next by blast
      then show ?thesis
      proof cases
        case 1
        then show ?thesis using S(1) [of t op] m run_mark [OF r] True
          by (simp add: slot_mark_posted combining_posted)
      next
        case 2
        then show ?thesis using d run_mark [OF r] True S(2) [of t] by (simp add: slot_mark_def)
      qed
    next
      case (Return r)
      then have "r = QPut True" "op \<noteq> QDeq" "fc_code (shared c) t = Done" using S(4) by simp_all
      then show ?thesis using d Return True by (cases op) simp_all
    qed (use st in simp)
  qed
  have "\<exists>op' q. threads ?c v = Run op' q \<and> posted q \<and>
      (\<forall>x. op' = QEnq x \<longrightarrow> fc_data s' v = x \<or> (\<exists>k. at_pc ?c (WriteCode k v)))"
    if v: "fc_code s' v \<noteq> Done" for v
  proof -
    have o: "fc_code (shared c) v \<noteq> Done" and w: "fc_data s' v = fc_data (shared c) v \<or> (\<exists>k. at_pc ?c (WriteCode k v))"
      using S(5) [OF v] P'(1) by auto
    obtain op' q where q: "threads c v = Run op' q" "posted q"
      "\<forall>x. op' = QEnq x \<longrightarrow> fc_data (shared c) v = x \<or> (\<exists>k. at_pc c (WriteCode k v))"
      using conf o by (auto simp: fc_conf_def)
    have nw: "\<not> at_pc c (WriteCode k v)" for k
    proof
      assume "at_pc c (WriteCode k v)"
      then have "p = WriteCode k v" using P(2) [of "WriteCode k v"] by auto
      then show False using assms(3) pi v by (auto simp: fc_pinv_def write_code_def)
    qed
    have t: "\<exists>q'. threads ?c v = Run op' q' \<and> posted q'"
    proof (cases "v = t")
      case True
      have "out \<noteq> Return r" for r using S(4) o True by auto
      then obtain q' where "out = Next q'" using st by (cases out) auto
      then show ?thesis using S(3) [of q'] o True q(1) assms(2) by (auto simp: combining_posted)
    qed (use q in simp)
    then show ?thesis using q(3) nw w by auto
  qed
  then have "fc_conf ?c" using conf st(1) by (simp add: fc_conf_def)
  then show ?thesis using silent_lin_step [of ?c c] mk st(1) by simp
qed

text \<open>The combiner applies the operation of slot i: the linearization point of thread i.\<close>

lemma apply_go:
  assumes "fc_all num c" "threads c t = Run op p" "body fc_prog t n (shared c) p = (s', out)"
    "p = ApplyEnq k i \<or> p = ApplyDeq k i"
  shows "fc_conf \<lparr>shared = s', threads = (threads c)(t := resume op out)\<rparr> \<and>
    lin_step q_spec fc_items fc_mark c \<lparr>shared = s', threads = (threads c)(t := resume op out)\<rparr>"
proof -
  let ?s = "shared c"
  let ?c = "\<lparr>shared = s', threads = (threads c)(t := resume op out)\<rparr>"
  have og: "fc.og_inv num c" and conf: "fc_conf c" using assms(1) by (simp_all add: fc_all_def)
  have pi: "fc_pinv ?s t op p" using fc.og_pinv [OF og assms(2)] .
  have si: "fc_inv ?s" using fc.og_sinv [OF og] by (simp add: fc_sinv_def)
  have cb: "combining p" "posted p" using assms(4) by auto
  note P = comb_pending [OF og assms(2) cb(1)] and P' = comb_pending_after [OF og assms(2) cb(1), where s' = s' and out = out]
  have pn: "pending c v = (\<lambda>_. False)" for v using P(1) assms(4) by (auto simp: fun_eq_iff)
  have nw: "\<not> at_pc c (WriteCode k' v)" for k' v using P(2) [of "WriteCode k' v"] assms(4) by auto
  from fc_apply [OF pi assms(3) si assms(4)] consider
      "s' = ?s" "out = Next p"
    | q x where "s' = ?s\<lparr>fc_queue := q\<rparr>" "out = Next (WriteData k i x)" "sl_inv q"
        "if p = ApplyEnq k i then x = 0 \<and> sl_items q = fc_items ?s @ [fc_data ?s i]
         else case fc_items ?s of [] \<Rightarrow> x = 0 \<and> sl_items q = [] | y # ys \<Rightarrow> x = y \<and> sl_items q = ys"
    by blast
  then show ?thesis
  proof cases
    case 1
    then have "?c = c" using assms(2) by (cases c) (simp add: fun_upd_idem)
    then show ?thesis using conf by (simp add: silent_lin_step)
  next
    case (2 q x)
    have code: "fc_code ?s i = (if p = ApplyEnq k i then Enqueue else Dequeue)"
      using pi assms(4) by (auto simp: fc_pinv_def)
    then have nd: "fc_code ?s i \<noteq> Done" by simp
    obtain op' r where i: "threads c i = Run op' r" "posted r" "\<forall>y. op' = QEnq y \<longrightarrow> fc_data ?s i = y"
      using conf nd nw by (auto simp: fc_conf_def)
    have op': "opcode_of op' = fc_code ?s i" "op' \<noteq> QEnq 0"
      using fc.og_pinv [OF og i(1)] i(2) nd by (auto simp: fc_pinv_def)
    have kind: "p = ApplyEnq k i \<longleftrightarrow> op' = QEnq (fc_data ?s i)" "p \<noteq> ApplyEnq k i \<longleftrightarrow> op' = QDeq"
      using op'(1) code i(3) by (cases op'; simp add: opcode_of_def split: if_splits)+
    have pa: "pending ?c v y \<longleftrightarrow> v = i \<and> y = x" for v y using P'(2) 2(2) by auto
    then have pa': "pending ?c v = (\<lambda>y. v = i \<and> y = x)" for v by (simp add: fun_eq_iff)
    have z: "0 \<notin> set (fc_items ?s)" using conf by (simp add: fc_conf_def)
    have spec: "q_spec (fc_items ?s) op' (result_of op' x) (fc_items s')"
      using 2(1,4) kind z by (cases op') (auto split: list.splits)
    have items: "0 \<notin> set (sl_items q)"
      using 2(4) z op'(2) kind by (auto split: if_splits list.splits)
    have pend: "cmark fc_mark c i = Pend"
      using i run_mark [OF i(1)] pn nd by (simp add: slot_mark_posted slot_val_def)
    have thr: "\<exists>r'. threads ?c v = Run op2 r' \<and> posted r'" if "threads c v = Run op2 r2" "posted r2" for v op2 r2
      using that 2(2) assms(2) by (cases "v = t") auto
    obtain r' where r': "threads ?c i = Run op' r'" "posted r'" using thr [OF i(1,2)] by blast
    have fixed: "cmark fc_mark ?c i = Fixed (result_of op' x)"
      using run_mark [OF r'(1)] r'(2) pa' by (simp add: slot_mark_posted slot_val_def)
    have other: "cmark fc_mark ?c v = cmark fc_mark c v" if "v \<noteq> i" for v
    proof (cases "v = t")
      case True
      then have "threads ?c t = Run op (WriteData k i x)" using 2(2) by simp
      then show ?thesis using run_mark [of ?c t op] run_mark [OF assms(2)] True that pa' pn cb(2) 2(1)
        by (simp add: slot_mark_posted slot_val_def)
    next
      case False
      then show ?thesis using 2(1) pa' pn that by (intro mark_same) (auto simp: fun_eq_iff)
    qed
    have "lin_step q_spec fc_items fc_mark c ?c"
      unfolding lin_step_def silent_marks_def
      by (intro disjI2 exI [of _ i] exI [of _ op'] exI [of _ r] exI [of _ "result_of op' x"])
        (use i pend spec fixed other in simp)
    moreover have "\<exists>op2 r2. threads ?c v = Run op2 r2 \<and> posted r2 \<and>
        (\<forall>y. op2 = QEnq y \<longrightarrow> fc_data s' v = y \<or> (\<exists>k. at_pc ?c (WriteCode k v)))"
      if v: "fc_code s' v \<noteq> Done" for v
    proof -
      obtain op2 r2 where "threads c v = Run op2 r2" "posted r2" "\<forall>y. op2 = QEnq y \<longrightarrow> fc_data ?s v = y"
        using conf v nw 2(1) by (auto simp: fc_conf_def)
      then show ?thesis using thr [of v op2 r2] 2(1) by auto
    qed
    ultimately show ?thesis using items 2(1) by (simp add: fc_conf_def)
  qed
qed

lemma fc_conf_idle:
  assumes "fc_all num c" "threads c' = (threads c)(t := l)" "shared c' = shared c"
    "\<And>op p. threads c t \<noteq> Run op p" "\<And>op p. l = Run op p \<Longrightarrow> \<not> combining p"
  shows "fc_conf c'" "pending c' = pending c"
proof -
  have og: "fc.og_inv num c" and conf: "fc_conf c" using assms(1) by (simp_all add: fc_all_def)
  have at: "at_pc c' q = at_pc c q" if "combining q" for q
    by (rule at_pc_same [OF assms(2)]) (use assms(4,5) that in auto)
  then show "pending c' = pending c" using assms(3) by (simp add: pending_def fun_eq_iff)
  have "fc_code (shared c) t = Done" using fc.og_idle [OF og assms(4)] by simp
  then show "fc_conf c'" using conf at assms(2,3) by (auto simp: fc_conf_def)
qed

lemma fc_go:
  assumes "fc_all num c" "threads c t = Run op p"
  shows "fc_conf (step fc_prog (t, Go n) c) \<and> lin_step q_spec fc_items fc_mark c (step fc_prog (t, Go n) c)"
proof -
  obtain s' out where b: "body fc_prog t n (shared c) p = (s', out)" by fastforce
  show ?thesis unfolding step_Go [OF assms(2) b]
    using own_go [OF assms b] comb_go [OF assms b] apply_go [OF assms b] by blast
qed

lemma fc_all_step:
  assumes "fc_all num c" "valid_call (fc_ok num) e"
  shows "fc_all num (step fc_prog e c)"
proof -
  have og: "fc.og_inv num c" and conf: "fc_conf c" using assms(1) by (simp_all add: fc_all_def)
  have "fc_conf (step fc_prog e c)"
  proof (cases rule: step_cases [of e c fc_prog])
    case (call t op)
    show ?thesis
      by (rule fc_conf_idle(1) [OF assms(1), where t = t and l = "Run op (fc_start op)"])
        (use call in \<open>cases op; simp\<close>)+
  next
    case (go t n op p s' out)
    show ?thesis unfolding go(1) using fc_go [OF assms(1) go(2)] by (rule conjunct1)
  next
    case (leave t op r)
    show ?thesis
      by (rule fc_conf_idle(1) [OF assms(1), where t = t and l = Idle]) (use leave in simp_all)
  next
    case stutter
    then show ?thesis using conf by simp
  qed
  then show ?thesis using fc.og_step [OF og assms(2)] by (simp add: fc_all_def)
qed

lemma fc_init_items: "fc_items (fc_init num (Suc a) :: 'a::zero fcq) = []"
  using sl_items_eq [OF sl_new_ok, of "Suc a"] by (simp add: fc_init_def)

interpretation fcl: lin_system fc_prog "fc_init num (Suc a) :: 'a::zero fcq" "fc_ok num" "fc_all num"
    fc_items q_spec fc_mark for num a
proof (unfold_locales, goal_cases)
  case 1
  show ?case using fc_init_items [of num a, where 'a = 'a] by (simp add: fc_all_def fc.og_init fc_conf_def) (simp add: fc_init_def)
next
  case (2 c e) then show ?case by (rule fc_all_step)
next
  case (3 c t op f) then show ?case using fc.og_alive [of num c t op f] by (auto simp: fc_all_def)
next
  case (4 c t op c' u)
  have "pending c' = pending c"
    by (rule fc_conf_idle(2) [OF 4(1), where t = t and l = "Run op (fc_start op)"])
      (use 4(3,4) in \<open>cases op; simp\<close>)+
  then show ?case using 4(3,4) by (cases op) (auto simp: cmark_def fc_mark_def slot_mark_def split: tstate.splits)
next
  case (5 c t op r c' u)
  have "pending c' = pending c"
    by (rule fc_conf_idle(2) [OF 5(1), where t = t and l = Idle]) (use 5(2,3) in simp_all)
  then show ?case using 5(2-4) by (simp add: cmark_def fc_mark_def split: tstate.splits)
next
  case (6 c t op p n) then show ?case using fc_go by blast
qed

section \<open>Properties\<close>

text \<open>
  C28: the flat combining queue with num_ops slots is linearizable to a FIFO queue for threads
  with ids below num_ops and items other than NULL: every operation takes effect when some
  combiner applies it, and the list ends with the items of the sequential queue.
\<close>

theorem flat_combining_linearizable:
  assumes "list_all (valid_call (fc_ok num)) es"
  shows "linearizable_to q_spec [] (history fc_prog es (init (fc_init num (Suc a))))
    (fc_items (shared (exec fc_prog es (init (fc_init num (Suc a))))))"
  using fcl.linearizable_exec [OF assms, of a] unfolding fc_init_items .

text \<open>
  Thread 0 posts an item, thread 1 posts a dequeue and combines both operations.
\<close>

definition fc_helped :: "nat q_op sched" where
  "fc_helped = [(0, Call (QEnq 7)), (0, Go 0), (0, Go 0), (1, Call QDeq), (1, Go 0), (1, Go 0), (1, Go 0),
     (1, Go 0), (1, Go 2), (1, Go 0), (1, Go 0), (1, Go 0), (1, Go 0), (1, Go 0), (1, Go 0), (1, Go 0),
     (1, Go 0), (1, Go 0), (0, Go 0), (0, Go 0), (0, Leave), (1, Go 0), (1, Go 0), (1, Go 0), (1, Leave)]"

theorem flat_combining_linearizable_witness:
  "linearizable_to q_spec [] (history fc_prog fc_helped (init (fc_init 2 1)))
    (fc_items (shared (exec fc_prog fc_helped (init (fc_init 2 1)))))"
  using flat_combining_linearizable [of 2 fc_helped 0] by (simp add: fc_helped_def fc_ok_def)

text \<open>
  An enqueued NULL is lost: thread 0 enqueues NULL and 7 and dequeues; the dequeue takes the
  NULL out of the list, which holds NULL and 7 before it and only 7 after it, but returns false,
  as if the queue were empty.
\<close>

definition fc_null_put :: "nat q_op sched" where
  "fc_null_put = (0, Call (QEnq 0)) # alone 0 [0, 0, 0, 0, 2, 0, 0, 0, 0] @ (0, Leave) #
     (0, Call (QEnq 7)) # alone 0 [0, 0, 0, 0, 3, 0, 0, 0, 0] @ [(0, Leave)]"

definition fc_null_get :: "nat q_op sched" where
  "fc_null_get = (0, Call QDeq) # alone 0 [0, 0, 0, 0, 0, 0, 0, 0, 0, 0, 0, 0, 0]"

lemma flat_combining_null_item:
  "(case fc_queue (shared (exec fc_prog fc_null_put (init (fc_init 1 1)))) of q \<Rightarrow>
     path l_next (l_heap q) (l_head q) [1, 2, 3] NULL \<and>
     map (\<lambda>a. map_option l_value (l_heap q a)) [2, 3] = [Some 0, Some 7]) \<and>
   (case fc_queue (shared (exec fc_prog (fc_null_put @ fc_null_get) (init (fc_init 1 1)))) of q \<Rightarrow>
     path l_next (l_heap q) (l_head q) [2, 3] NULL) \<and>
   threads (exec fc_prog (fc_null_put @ fc_null_get) (init (fc_init 1 1))) 0 = Resp QDeq (QGot None)"
  by code_simp

end
