(* ===== verification/Slots.thy ===== *)
theory Slots
  imports Item_Pool
begin

text \<open>
  The arrays of slots that the k-relaxed structures keep their items in (boundedsize_kfifo.h,
  unboundedsize_kfifo.h, kstack.h): a slot is an AtomicValue, it is free while its value is
  NULL, and an item moves in and out with a compare-and-swap that counts the ABA counter up.
  The lemmas say what such a step does to the multiset of the items in the slots.
\<close>

type_synonym slot = "u64 acell"

definition item_of :: "u64 \<Rightarrow> u64 option" where
  "item_of x = (if x = 0 then None else Some x)"

lemma item_of_simps [simp]: "item_of 0 = None" "x \<noteq> 0 \<Longrightarrow> item_of x = Some x"
  by (simp_all add: item_of_def)

definition slot_items :: "slot list \<Rightarrow> u64 multiset" where
  "slot_items xs = filter_mset (\<lambda>x. x \<noteq> 0) (mset (map val xs))"

definition free_slots :: "nat \<Rightarrow> slot list" where
  "free_slots n = replicate n (cell 0 0)"

text \<open>An access to the array with an index of the source.\<close>

definition slot_at :: "slot list \<Rightarrow> u64 \<Rightarrow> slot option" where
  "slot_at xs i = (if unat i < length xs then Some (xs ! unat i) else None)"

definition slot_cas :: "slot list \<Rightarrow> u64 \<Rightarrow> slot \<Rightarrow> slot \<Rightarrow> (slot list \<times> bool) option" where
  "slot_cas xs i old new = (case slot_at xs i of None \<Rightarrow> None
     | Some c \<Rightarrow> let (c', b) = cas c old new in Some (xs[unat i := c'], b))"

text \<open>
  One iteration of the loop of find_index: the slot at the index is copied and tested; the
  loop goes on with the next i, ends with the slot found, or ends with none.
\<close>

datatype scan = Hit u64 slot | More u64 | Miss | Wild

definition scan_slot :: "slot list \<Rightarrow> bool \<Rightarrow> u64 \<Rightarrow> u64 \<Rightarrow> u64 \<Rightarrow> scan" where
  "scan_slot xs free k index i = (if i < k then case slot_at xs index of None \<Rightarrow> Wild
     | Some old \<Rightarrow> if free \<and> val old = 0 \<or> \<not> free \<and> val old \<noteq> 0 then Hit index old else More (i + 1)
     else Miss)"

lemma slot_at_Some [simp]: "slot_at xs i = Some c \<longleftrightarrow> unat i < length xs \<and> c = xs ! unat i"
  by (auto simp: slot_at_def)

lemma slot_at_None [simp]: "slot_at xs i = None \<longleftrightarrow> length xs \<le> unat i"
  by (auto simp: slot_at_def)

lemma scan_Hit: "scan_slot xs e k index i = Hit j c \<Longrightarrow>
    j = index \<and> unat j < length xs \<and> (e \<longleftrightarrow> val c = 0)"
  by (auto simp: scan_slot_def split: if_splits option.splits)

lemma scan_Wild: "unat index < length xs \<Longrightarrow> scan_slot xs e k index i \<noteq> Wild"
  by (auto simp: scan_slot_def split: option.splits)

lemma slot_items_free [simp]: "slot_items (free_slots n) = {#}"
  by (simp add: slot_items_def free_slots_def)

lemma length_free_slots [simp]: "length (free_slots n) = n"
  by (simp add: free_slots_def)

lemma slot_items_upd:
  assumes "i < length xs"
  shows "slot_items (xs[i := c]) + one (item_of (val (xs ! i))) = slot_items xs + one (item_of (val c))"
proof -
  have "val (xs ! i) \<in># mset (map val xs)" using nth_mem [OF assms] by (simp only: set_mset_mset set_map) (rule imageI)
  from multi_member_split [OF this] obtain M where M: "mset (map val xs) = add_mset (val (xs ! i)) M"
    by (elim exE)
  have "mset (map val (xs[i := c])) = add_mset (val c) (mset (map val xs) - {#val (xs ! i)#})"
    using assms mset_update [of i "map val xs" "val c"] by (simp only: map_update length_map nth_map)
  then have U: "mset (map val (xs[i := c])) = add_mset (val c) M" unfolding M by simp
  show ?thesis unfolding slot_items_def M U by (simp add: item_of_def)
qed

lemma slot_cas_cases [consumes 1, case_names hit miss]:
  assumes "slot_cas xs i old new = Some (ys, b)"
  obtains (hit) "b" "unat i < length xs" "xs ! unat i = old" "ys = xs[unat i := new]"
      "slot_items ys + one (item_of (val old)) = slot_items xs + one (item_of (val new))"
    | (miss) "\<not> b" "unat i < length xs" "xs ! unat i \<noteq> old" "ys = xs"
proof (cases "unat i < length xs")
  case True
  then have "slot_cas xs i old new = Some (if xs ! unat i = old then (xs[unat i := new], True) else (xs, False))"
    by (simp add: slot_cas_def slot_at_def cas_def)
  then show thesis
    using assms slot_items_upd [OF True, of new] hit miss True by (cases "xs ! unat i = old") simp_all
next
  case False
  then show thesis using assms by (simp add: slot_cas_def slot_at_def)
qed

lemma slot_cas_None [simp]: "slot_cas xs i old new = None \<longleftrightarrow> length xs \<le> unat i"
  by (auto simp: slot_cas_def split: option.splits prod.splits)

lemma slot_cas_length: "slot_cas xs i old new = Some (ys, b) \<Longrightarrow> length ys = length xs"
  by (erule slot_cas_cases) simp_all

text \<open>Two balances in a row.\<close>

lemma balance_chain:
  fixes a :: "'a multiset"
  assumes "a + l = b + y" "y + c = l + d"
  shows "a + c = b + d"
proof -
  have "(a + c) + (l + y) = (b + d) + (l + y)"
    using arg_cong2 [OF assms, of "(+)"] by (simp add: ac_simps)
  then show ?thesis by simp
qed

end
