(* ===== verification/Solo.thy ===== *)
theory Solo
  imports Slots
begin

text \<open>
  A method that runs alone: returns P t adm Q s p says that a thread t at p, scheduled alone
  in the state s, returns after finitely many steps whatever admissible numbers its steps
  draw, without a fault, and with a result and a state that satisfy Q. It is the total
  correctness of the method as sequential code, and the rules below are its calculus.
\<close>

section \<open>Total correctness of a thread that runs alone\<close>

inductive returns :: "('s, 'op, 'r, 'p) prog \<Rightarrow> tid \<Rightarrow> ('s \<Rightarrow> nat \<Rightarrow> bool) \<Rightarrow> ('r \<Rightarrow> 's \<Rightarrow> bool) \<Rightarrow> 's \<Rightarrow> 'p \<Rightarrow> bool"
  for P :: "('s, 'op, 'r, 'p) prog" and t adm Q where
  returnsI: "\<exists>n. adm s n \<Longrightarrow>
    (\<And>n s' e. adm s n \<Longrightarrow> body P t n s p \<noteq> (s', Fault e)) \<Longrightarrow>
    (\<And>n s' r. adm s n \<Longrightarrow> body P t n s p = (s', Return r) \<Longrightarrow> Q r s') \<Longrightarrow>
    (\<And>n s' p'. adm s n \<Longrightarrow> body P t n s p = (s', Next p') \<Longrightarrow> returns P t adm Q s' p') \<Longrightarrow>
    returns P t adm Q s p"

inductive_cases returnsE: "returns P t adm Q s p"

text \<open>Steps that do not depend on the number drawn.\<close>

lemma returns_next:
  assumes "\<exists>n. adm s n" "\<And>n. adm s n \<Longrightarrow> \<exists>s' p'. body P t n s p = (s', Next p') \<and> returns P t adm Q s' p'"
  shows "returns P t adm Q s p"
  by (rule returnsI) (use assms in fastforce)+

lemma returns_done:
  assumes "\<exists>n. adm s n" "\<And>n. adm s n \<Longrightarrow> \<exists>s' r. body P t n s p = (s', Return r) \<and> Q r s'"
  shows "returns P t adm Q s p"
  by (rule returnsI) (use assms in fastforce)+

lemma returns_mono:
  assumes "returns P t adm Q s p" "\<And>r s. Q r s \<Longrightarrow> Q' r s"
  shows "returns P t adm Q' s p"
  using assms(1) by (induction rule: returns.induct) (rule returnsI; use assms(2) in blast)

text \<open>What the predicate says of executions: there is one that returns, and all that return are right.\<close>

fun admissible :: "('s, 'op, 'r, 'p) prog \<Rightarrow> tid \<Rightarrow> ('s \<Rightarrow> nat \<Rightarrow> bool) \<Rightarrow> nat list \<Rightarrow> ('s, 'op, 'r, 'p) config \<Rightarrow> bool" where
  "admissible P t adm [] c = True"
| "admissible P t adm (n # ns) c = (adm (shared c) n \<and> admissible P t adm ns (step P (t, Go n) c))"

lemma returns_terminates:
  assumes "returns P t adm Q s p" "shared c = s" "threads c t = Run op p"
  shows "\<exists>ns r. admissible P t adm ns c \<and> threads (exec P (alone t ns) c) t = Resp op r \<and>
    Q r (shared (exec P (alone t ns) c))"
  using assms
proof (induction arbitrary: c rule: returns.induct)
  case (returnsI s p)
  then obtain n where n: "adm s n" by blast
  obtain s' out where b: "body P t n s p = (s', out)" by (cases "body P t n s p")
  let ?c = "\<lparr>shared = s', threads = (threads c)(t := resume op out)\<rparr>"
  have c: "step P (t, Go n) c = ?c" using b returnsI.prems by (simp add: step_Go)
  show ?case
  proof (cases out)
    case (Next p')
    obtain ns r where "admissible P t adm ns ?c" "threads (exec P (alone t ns) ?c) t = Resp op r"
      "Q r (shared (exec P (alone t ns) ?c))"
      using returnsI.IH [OF n, of s' p' ?c] b Next by auto
    then show ?thesis using n returnsI.prems(1) by (intro exI [of _ "n # ns"] exI [of _ r]) (simp add: c)
  next
    case (Return r)
    then show ?thesis using n returnsI.hyps(3) [OF n] b returnsI.prems(1)
      by (intro exI [of _ "[n]"] exI [of _ r]) (simp add: c)
  next
    case (Fault e)
    then show ?thesis using returnsI.hyps(2) [OF n, of s' e] b by simp
  qed
qed

lemma admissible_stutter: "threads c t = Resp op r \<Longrightarrow> exec P (alone t ns) c = c"
  by (induction ns) (simp_all add: step_same)

lemma returns_correct:
  assumes "returns P t adm Q s p" "shared c = s" "threads c t = Run op p" "admissible P t adm ns c"
  shows "(\<exists>q. threads (exec P (alone t ns) c) t = Run op q) \<or>
    (\<exists>r. threads (exec P (alone t ns) c) t = Resp op r \<and> Q r (shared (exec P (alone t ns) c)))"
  using assms
proof (induction arbitrary: c ns rule: returns.induct)
  case (returnsI s p)
  show ?case
  proof (cases ns)
    case Nil
    then show ?thesis using returnsI.prems by simp
  next
    case (Cons n ms)
    then have n: "adm s n" using returnsI.prems by simp
    obtain s' out where b: "body P t n s p = (s', out)" by (cases "body P t n s p")
    let ?c = "\<lparr>shared = s', threads = (threads c)(t := resume op out)\<rparr>"
    have c: "step P (t, Go n) c = ?c" using b returnsI.prems by (simp add: step_Go)
    show ?thesis
    proof (cases out)
      case (Next p')
      then show ?thesis using returnsI.IH [OF n, of s' p' ?c ms] b returnsI.prems(3) Cons c by auto
    next
      case (Return r)
      then show ?thesis using returnsI.hyps(3) [OF n] b Cons c by (simp add: admissible_stutter)
    next
      case (Fault e)
      then show ?thesis using returnsI.hyps(2) [OF n, of s' e] b by simp
    qed
  qed
qed

text \<open>Whatever the draws, the run cannot go on for ever.\<close>

lemma returns_always:
  assumes "returns P t adm Q s p" "shared c = s" "threads c t = Run op p"
    and "\<And>n. admissible P t adm (map f [0..<n]) c"
  shows "\<exists>n r. threads (exec P (alone t (map f [0..<n])) c) t = Resp op r"
  using assms
proof (induction arbitrary: c f rule: returns.induct)
  case (returnsI s p)
  have up: "map f [0..<Suc n] = f 0 # map (\<lambda>i. f (Suc i)) [0..<n]" for n
    by (simp add: upt_rec [of 0] map_Suc_upt [symmetric] del: upt_Suc)
  have n: "adm s (f 0)" using returnsI.prems(3) [of 1] returnsI.prems(1) by simp
  obtain s' out where b: "body P t (f 0) s p = (s', out)" by (cases "body P t (f 0) s p")
  let ?c = "\<lparr>shared = s', threads = (threads c)(t := resume op out)\<rparr>"
  have c: "step P (t, Go (f 0)) c = ?c" using b returnsI.prems by (simp add: step_Go)
  show ?case
  proof (cases out)
    case (Next p')
    have "\<exists>n r. threads (exec P (alone t (map (\<lambda>i. f (Suc i)) [0..<n])) ?c) t = Resp op r"
    proof (rule returnsI.IH [OF n, of s' p'])
      show "admissible P t adm (map (\<lambda>i. f (Suc i)) [0..<n]) ?c" for n
        using returnsI.prems(3) [of "Suc n"] unfolding up by (simp add: c)
    qed (use b Next in simp_all)
    then obtain n r where "threads (exec P (alone t (map (\<lambda>i. f (Suc i)) [0..<n])) ?c) t = Resp op r" by blast
    then show ?thesis by (intro exI [of _ "Suc n"] exI [of _ r]) (simp only: up alone_simps exec.simps c)
  next
    case (Return r)
    then show ?thesis by (intro exI [of _ 1] exI [of _ r]) (simp add: c)
  next
    case (Fault e)
    then show ?thesis using returnsI.hyps(2) [OF n, of s' e] b by simp
  qed
qed

section \<open>Sequential use of an object\<close>

text \<open>
  One call after the other, each run to its end by one thread with admissible draws: the
  results of the calls and the state they end in.
\<close>

definition called :: "('s, 'op, 'r, 'p) prog \<Rightarrow> tid \<Rightarrow> 'op \<Rightarrow> 's \<Rightarrow> ('s, 'op, 'r, 'p) config" where
  "called P t op s = \<lparr>shared = s, threads = (\<lambda>_. Idle)(t := Run op (start P op))\<rparr>"

inductive seq_run :: "('s, 'op, 'r, 'p) prog \<Rightarrow> tid \<Rightarrow> ('s \<Rightarrow> nat \<Rightarrow> bool) \<Rightarrow> 's \<Rightarrow> ('op \<times> 'r) list \<Rightarrow> 's \<Rightarrow> bool"
  for P :: "('s, 'op, 'r, 'p) prog" and t adm where
  seq_nil: "seq_run P t adm s [] s"
| seq_call: "admissible P t adm ns (called P t op s) \<Longrightarrow>
    threads (exec P (alone t ns) (called P t op s)) t = Resp op r \<Longrightarrow>
    seq_run P t adm (shared (exec P (alone t ns) (called P t op s))) l s' \<Longrightarrow>
    seq_run P t adm s ((op, r) # l) s'"

inductive_cases seq_callE: "seq_run P t adm s ((op, r) # l) s'"

fun seq_legal :: "('q \<Rightarrow> 'op \<Rightarrow> 'r \<Rightarrow> 'q \<Rightarrow> bool) \<Rightarrow> 'q \<Rightarrow> ('op \<times> 'r) list \<Rightarrow> 'q \<Rightarrow> bool" where
  "seq_legal spec q [] q' \<longleftrightarrow> q' = q"
| "seq_legal spec q ((op, r) # l) q' \<longleftrightarrow> (\<exists>q1. spec q op r q1 \<and> seq_legal spec q1 l q')"

locale sequential_object =
  fixes P :: "('s, 'op, 'r, 'p) prog"
    and t :: tid
    and adm :: "'s \<Rightarrow> nat \<Rightarrow> bool"
    and s0 :: 's
    and ok :: "'op \<Rightarrow> bool"
    and sinv :: "'s \<Rightarrow> bool"
    and abs_of :: "'s \<Rightarrow> 'q"
    and spec :: "'q \<Rightarrow> 'op \<Rightarrow> 'r \<Rightarrow> 'q \<Rightarrow> bool"
  assumes sinv_init: "sinv s0"
    and call_returns: "sinv s \<Longrightarrow> ok op \<Longrightarrow>
      returns P t adm (\<lambda>r s'. sinv s' \<and> spec (abs_of s) op r (abs_of s')) s (start P op)"
begin

lemma seq_correct:
  assumes "seq_run P t adm s l s'" "sinv s" "list_all ok (map fst l)"
  shows "sinv s' \<and> seq_legal spec (abs_of s) l (abs_of s')"
  using assms
proof (induction rule: seq_run.induct)
  case (seq_call ns op s r l s')
  let ?c = "exec P (alone t ns) (called P t op s)"
  have "sinv (shared ?c) \<and> spec (abs_of s) op r (abs_of (shared ?c))"
    using returns_correct [OF call_returns [OF seq_call.prems(1), of op] _ _ seq_call.hyps(1), of op] seq_call
    by (simp add: called_def)
  then show ?case using seq_call by auto
qed simp

lemma seq_total:
  assumes "sinv s" "list_all ok ops"
  shows "\<exists>l s'. map fst l = ops \<and> seq_run P t adm s l s'"
  using assms
proof (induction ops arbitrary: s)
  case Nil
  show ?case by (intro exI [of _ "[]"] exI [of _ s]) (simp add: seq_nil)
next
  case (Cons op ops)
  have "returns P t adm (\<lambda>r s'. sinv s' \<and> spec (abs_of s) op r (abs_of s')) s (start P op)"
    by (rule call_returns) (use Cons.prems in simp_all)
  from returns_terminates [OF this, of "called P t op s" op]
  obtain ns r where c: "admissible P t adm ns (called P t op s)"
    "threads (exec P (alone t ns) (called P t op s)) t = Resp op r"
    "sinv (shared (exec P (alone t ns) (called P t op s)))" by (auto simp: called_def)
  obtain l s' where "map fst l = ops" "seq_run P t adm (shared (exec P (alone t ns) (called P t op s))) l s'"
    using Cons.IH [OF c(3)] Cons.prems by auto
  then show ?case using seq_call [OF c(1,2)] by (intro exI [of _ "(op, r) # l"] exI [of _ s']) simp
qed

text \<open>No call goes on for ever, whatever it draws and whatever the calls before it drew.\<close>

lemma seq_ends:
  assumes "seq_run P t adm s0 l s'" "list_all ok (map fst l)" "ok op"
    and "\<And>n. admissible P t adm (map f [0..<n]) (called P t op s')"
  shows "\<exists>n r. threads (exec P (alone t (map f [0..<n])) (called P t op s')) t = Resp op r"
proof -
  have "sinv s'" using seq_correct [OF assms(1) sinv_init assms(2)] by simp
  from returns_always [OF call_returns [OF this assms(3)], of "called P t op s'" op f]
  show ?thesis using assms(4) by (simp add: called_def)
qed

theorem sequential_use:
  assumes "list_all ok ops"
  shows "(\<exists>l s'. map fst l = ops \<and> seq_run P t adm s0 l s') \<and>
    (\<forall>l s'. map fst l = ops \<longrightarrow> seq_run P t adm s0 l s' \<longrightarrow> seq_legal spec (abs_of s0) l (abs_of s'))"
  using seq_total [OF sinv_init assms] seq_correct [OF _ sinv_init] assms by blast

end

section \<open>The loop of find_index\<close>

text \<open>An index loop that starts at a random place visits every slot.\<close>

lemma rotation_covers:
  fixes k r j :: u64
  assumes "r < k" "j < k" "unat k < 2 ^ 63"
  shows "\<exists>i < k. (r + i) mod k = j"
proof (cases "r \<le> j")
  case True
  then have "r + (j - r) = j" by simp
  moreover have "j - r < k" using True assms(2) by (meson order_le_less_trans word_sub_le)
  ultimately show ?thesis using assms(2) by (intro exI [of _ "j - r"]) (simp add: mod_word_less)
next
  case False
  have u: "unat r < unat k" "unat j < unat r" "unat j < unat k"
    using False assms by (simp_all add: word_less_nat_alt not_le)
  let ?i = "k - r + j"
  have kr: "unat (k - r) = unat k - unat r" using assms(1) by (simp add: unat_sub less_imp_le)
  have i: "unat ?i = unat k - unat r + unat j"
    using kr u assms(3) by (subst unat_add_no_overflow) simp_all
  have "unat (r + ?i) = unat k + unat j"
    using i u assms(3) by (subst unat_add_no_overflow) simp_all
  then have "unat ((r + ?i) mod k) = unat j"
    using u by (simp add: unat_mod)
  moreover have "?i < k" using i u by (simp add: word_less_nat_alt)
  ultimately show ?thesis by (intro exI [of _ ?i]) (simp add: word_unat_eq_iff)
qed

lemma word_up_induct [consumes 1, case_names last step]:
  fixes k i :: u64
  assumes "i \<le> k" and last: "Q k" and step: "\<And>j. i \<le> j \<Longrightarrow> j < k \<Longrightarrow> Q (j + 1) \<Longrightarrow> Q j"
  shows "Q i"
proof -
  have "i \<le> j \<Longrightarrow> j \<le> k \<Longrightarrow> Q j" for j
  proof (induction "unat k - unat j" arbitrary: j)
    case 0
    then have "j = k" by (simp add: word_le_nat_alt word_unat_eq_iff)
    then show ?case using last by simp
  next
    case (Suc d)
    then have l: "j < k" by (simp add: word_less_nat_alt)
    then have n: "unat (j + 1) = Suc (unat j)" by (rule unat_incr)
    have "Q (j + 1)"
    proof (rule Suc.hyps(1))
      show "d = unat k - unat (j + 1)" using Suc.hyps(2) n by simp
      show "i \<le> j + 1" using Suc.prems(1) n by (simp add: word_le_nat_alt)
      show "j + 1 \<le> k" using l n by (simp add: word_le_nat_alt word_less_nat_alt)
    qed
    then show ?case using step [OF Suc.prems(1) l] by simp
  qed
  then show ?thesis using assms(1) by simp
qed

lemma returns_find:
  fixes k :: u64
  assumes adm: "\<exists>n. adm s n"
    and len: "\<And>i. unat (ix i) < length xs"
    and step: "\<And>n i. adm s n \<Longrightarrow> body P t n s (pc i) = (s, case scan_slot xs free k (ix i) i of
      Wild \<Rightarrow> Fault e | More j \<Rightarrow> Next (pc j) | Hit j c \<Rightarrow> Next (hit j c) | Miss \<Rightarrow> Next miss)"
    and found: "\<And>i. i < k \<Longrightarrow> free = (val (xs ! unat (ix i)) = 0) \<Longrightarrow>
      returns P t adm Q s (hit (ix i) (xs ! unat (ix i)))"
    and none: "(\<And>i. i < k \<Longrightarrow> free = (val (xs ! unat (ix i)) \<noteq> 0)) \<Longrightarrow> returns P t adm Q s miss"
  shows "returns P t adm Q s (pc 0)"
proof -
  have "(\<forall>i < j. free = (val (xs ! unat (ix i)) \<noteq> 0)) \<longrightarrow> returns P t adm Q s (pc j)" if "j \<le> k" for j
    using that
  proof (induction rule: word_up_induct)
    case last
    have "scan_slot xs free k (ix k) k = Miss" by (simp add: scan_slot_def)
    then show ?case using none assms(3) [of _ k] by (intro impI returns_next) (simp_all add: adm)
  next
    case (step j)
    let ?c = "xs ! unat (ix j)"
    have scan: "scan_slot xs free k (ix j) j = (if free = (val ?c = 0) then Hit (ix j) ?c else More (j + 1))"
      using step(2) len [of j] by (auto simp: scan_slot_def slot_at_def)
    show ?case
    proof (intro impI returns_next)
      show "\<exists>n. adm s n" by (rule adm)
      fix n
      assume v: "\<forall>i < j. free = (val (xs ! unat (ix i)) \<noteq> 0)" and n: "adm s n"
      show "\<exists>s' p'. body P t n s (pc j) = (s', Next p') \<and> returns P t adm Q s' p'"
      proof (cases "free = (val ?c = 0)")
        case True
        then show ?thesis using found [OF step(2)] assms(3) [OF n, of j] scan by simp
      next
        case False
        have "i < j \<or> i = j" if "i < j + 1" for i
          using that unat_incr [OF step(2)] by (auto simp: word_less_nat_alt word_unat_eq_iff less_Suc_eq)
        then have "returns P t adm Q s (pc (j + 1))" using step(3) v False by blast
        then show ?thesis using assms(3) [OF n, of j] scan False by simp
      qed
    qed
  qed
  from this [of 0] show ?thesis by simp
qed

end
