(* ===== verification/K_Stack.thy ===== *)
theory K_Stack
  imports Solo
begin

text \<open>
  The k-stack, src/src/datastructures/kstack.h: a stack of segments of k slots each. push
  fills a free slot of the top segment or puts a new segment on top, pop empties a used slot
  of the top segment or takes an empty segment off; committed and the remove counter of a
  segment keep an item from getting into a segment that is being taken off.
\<close>

section \<open>State and methods\<close>

record kseg =
  sg_remove :: u64
  sg_next :: "addr acell"
  sg_items :: "slot list"

record kstack =
  ks_top :: "addr acell"
  ks_heap :: "kseg heap"
  ks_records :: "slot list list"
  ks_k :: u64
  ks_threads :: nat

text \<open>The constructor of a segment, and that of the stack, with its first segment at a.\<close>

definition new_kseg :: "u64 \<Rightarrow> kseg" where
  "new_kseg K = \<lparr>sg_remove = 0, sg_next = cell NULL 0, sg_items = free_slots (unat K)\<rparr>"

definition ks_init :: "u64 \<Rightarrow> nat \<Rightarrow> addr \<Rightarrow> kstack" where
  "ks_init k num_threads a = \<lparr>ks_top = cell a 0, ks_heap = [a \<mapsto> new_kseg k],
     ks_records = replicate num_threads (free_slots (unat k)), ks_k = k, ks_threads = num_threads\<rparr>"

datatype ks_op = KPush u64 | KPop

datatype ks_res = KPushed bool | KPopped "u64 option"

type_synonym found = "(u64 \<times> slot) option"

text \<open>is_empty is called on the last segment, and before a segment is removed.\<close>

datatype purpose = Last | Removal

datatype ks_pc =
    PushTop u64
  | PushFind u64 "addr acell" u64 u64
  | PushCheck u64 "addr acell" found
  | PushCas u64 "addr acell" u64 slot
  | ComItem u64 "addr acell" u64 slot
  | ComZero u64 "addr acell" u64 slot
  | ComOne u64 "addr acell" u64 slot
  | ComTop u64 "addr acell" u64 slot
  | ComBump u64 "addr acell" u64 slot
  | ComUndo u64 "addr acell" u64 slot
  | AddCheck u64 "addr acell"
  | AddAlloc u64 "addr acell"
  | AddNext u64 "addr acell" addr
  | AddCas u64 "addr acell" addr
  | PopTop
  | PopFind "addr acell" u64 u64
  | PopCheck "addr acell" found
  | PopSegment u64 slot
  | PopCas addr u64 slot
  | PopNext "addr acell"
  | LastCheck "addr acell"
  | Collect purpose "addr acell" u64 u64
  | Recollect purpose "addr acell" u64 u64
  | RemTop "addr acell"
  | RemNext "addr acell" addr
  | RemCheck "addr acell" addr
  | RemInc "addr acell"
  | RemLink "addr acell"
  | RemCas "addr acell" addr
  | RemDec "addr acell"

type_synonym ks_out = "kstack \<times> (ks_pc, ks_res) outcome"

text \<open>An access to the segment at an address.\<close>

definition with_seg :: "kstack \<Rightarrow> addr \<Rightarrow> (kseg \<Rightarrow> ks_out) \<Rightarrow> ks_out" where
  "with_seg s a f = (case ks_heap s a of None \<Rightarrow> (s, Fault (fault_at a)) | Some sg \<Rightarrow> f sg)"

definition set_seg :: "kstack \<Rightarrow> addr \<Rightarrow> kseg \<Rightarrow> kstack" where
  "set_seg s a sg = s\<lparr>ks_heap := (ks_heap s)(a \<mapsto> sg)\<rparr>"

definition seg_cas :: "kstack \<Rightarrow> addr \<Rightarrow> u64 \<Rightarrow> slot \<Rightarrow> slot \<Rightarrow> (bool \<Rightarrow> (ks_pc, ks_res) outcome) \<Rightarrow> ks_out" where
  "seg_cas s a index old new out = with_seg s a (\<lambda>sg. case slot_cas (sg_items sg) index old new of
       None \<Rightarrow> (s, Fault Wild_Deref)
     | Some (items', b) \<Rightarrow> (set_seg s a (sg\<lparr>sg_items := items'\<rparr>), out b))"

definition ks_find_index :: "kstack \<Rightarrow> kseg \<Rightarrow> bool \<Rightarrow> u64 \<Rightarrow> u64 \<Rightarrow> scan" where
  "ks_find_index s sg free random_index i =
     scan_slot (sg_items sg) free (ks_k s) ((random_index + i) mod ks_k s) i"

text \<open>pseudorand() % k_\<close>

definition draw :: "kstack \<Rightarrow> nat \<Rightarrow> (u64 \<Rightarrow> ks_pc) \<Rightarrow> (ks_pc, ks_res) outcome" where
  "draw s n f = (if ks_k s = 0 then Fault (Undefined ''mod'') else Next (f (of_nat n mod ks_k s)))"

definition ks_back :: "u64 \<Rightarrow> bool \<Rightarrow> (ks_pc, ks_res) outcome" where
  "ks_back item b = (if b then Return (KPushed True) else Next (PushTop item))"

fun ks_committed :: "kstack \<Rightarrow> ks_pc \<Rightarrow> ks_out" where
  "ks_committed s (ComItem item top_old index new) = with_seg s (val top_old) (\<lambda>sg. (s,
     case slot_at (sg_items sg) index of None \<Rightarrow> Fault Wild_Deref
     | Some c \<Rightarrow> if c \<noteq> new then ks_back item True else Next (ComZero item top_old index new)))"
| "ks_committed s (ComZero item top_old index new) = with_seg s (val top_old) (\<lambda>sg. (s,
     if sg_remove sg = 0 then ks_back item True else Next (ComOne item top_old index new)))"
| "ks_committed s (ComOne item top_old index new) = with_seg s (val top_old) (\<lambda>sg. (s,
     if sg_remove sg \<ge> 1 then Next (ComTop item top_old index new) else ks_back item False))"
| "ks_committed s (ComTop item top_old index new) = (s,
     if ks_top s \<noteq> top_old then Next (ComUndo item top_old index new) else Next (ComBump item top_old index new))"
| "ks_committed s (ComBump item top_old index new) =
     (let (top', b) = cas (ks_top s) top_old (cell (val top_old) (aba top_old + 1))
      in (s\<lparr>ks_top := top'\<rparr>, if b then ks_back item True else Next (ComUndo item top_old index new)))"
| "ks_committed s (ComUndo item top_old index new) =
     seg_cas s (val top_old) index new (cell 0 (aba new + 1)) (\<lambda>b. ks_back item (\<not> b))"
| "ks_committed s p = (s, Fault (Undefined ''committed''))"

fun try_add_new_ksegment :: "nat \<Rightarrow> kstack \<Rightarrow> ks_pc \<Rightarrow> ks_out" where
  "try_add_new_ksegment n s (AddCheck item top_old) = (s,
     Next (if ks_top s = top_old then AddAlloc item top_old else PushTop item))"
| "try_add_new_ksegment n s (AddAlloc item top_old) = (if is_fresh (ks_heap s) n
     then (set_seg s n (new_kseg (ks_k s)), Next (AddNext item top_old n))
     else (s, Next (AddAlloc item top_old)))"
| "try_add_new_ksegment n s (AddNext item top_old new) = with_seg s new (\<lambda>sg.
     (set_seg s new (sg\<lparr>sg_next := (sg_next sg)\<lparr>val := val top_old\<rparr>\<rparr>), Next (AddCas item top_old new)))"
| "try_add_new_ksegment n s (AddCas item top_old new) =
     (s\<lparr>ks_top := fst (cas (ks_top s) top_old (cell new (aba top_old)))\<rparr>, Next (PushTop item))"
| "try_add_new_ksegment n s p = (s, Fault (Undefined ''try_add_new_ksegment''))"

fun ks_push :: "nat \<Rightarrow> kstack \<Rightarrow> ks_pc \<Rightarrow> ks_out" where
  "ks_push n s (PushTop item) = (s, draw s n (\<lambda>r. PushFind item (ks_top s) r 0))"
| "ks_push n s (PushFind item top_old r i) = with_seg s (val top_old) (\<lambda>sg. (s,
     case ks_find_index s sg True r i of
       Wild \<Rightarrow> Fault Wild_Deref
     | More j \<Rightarrow> Next (PushFind item top_old r j)
     | Hit index old \<Rightarrow> Next (PushCheck item top_old (Some (index, old)))
     | Miss \<Rightarrow> Next (PushCheck item top_old None)))"
| "ks_push n s (PushCheck item top_old found) = (s, Next (if ks_top s = top_old then
     (case found of
        Some (index, old) \<Rightarrow> PushCas item top_old index old
      | None \<Rightarrow> AddCheck item top_old)
     else PushTop item))"
| "ks_push n s (PushCas item top_old index old) = (let new = cell item (aba old + 1) in
     seg_cas s (val top_old) index old new
       (\<lambda>b. Next (if b then ComItem item top_old index new else PushTop item)))"
| "ks_push n s p = (s, Fault (Undefined ''push''))"

text \<open>is_empty: the answer goes to whoever asked.\<close>

definition emptiness :: "purpose \<Rightarrow> addr acell \<Rightarrow> bool \<Rightarrow> (ks_pc, ks_res) outcome" where
  "emptiness u top_old b = Next (case u of Last \<Rightarrow> if b then LastCheck top_old else PopTop
     | Removal \<Rightarrow> if b then RemLink top_old else RemDec top_old)"

fun ks_is_empty :: "tid \<Rightarrow> kstack \<Rightarrow> ks_pc \<Rightarrow> ks_out" where
  "ks_is_empty t s (Collect u top_old r i) = (if i < ks_k s
     then let index = (r + i) mod ks_k s in with_seg s (val top_old) (\<lambda>sg.
       case slot_at (sg_items sg) index of None \<Rightarrow> (s, Fault Wild_Deref)
       | Some old \<Rightarrow> if val old \<noteq> 0 then (s, emptiness u top_old False)
           else if t < length (ks_records s) \<and> unat index < length (ks_records s ! t)
           then (s\<lparr>ks_records := (ks_records s)[t := (ks_records s ! t)[unat index := old]]\<rparr>,
             Next (Collect u top_old r (i + 1)))
           else (s, Fault Wild_Deref))
     else (s, Next (Recollect u top_old r 0)))"
| "ks_is_empty t s (Recollect u top_old r i) = (s, if i < ks_k s
     then let index = (r + i) mod ks_k s in snd (with_seg s (val top_old) (\<lambda>sg. (s,
       case slot_at (sg_items sg) index of None \<Rightarrow> Fault Wild_Deref
       | Some old \<Rightarrow> if t < length (ks_records s) \<and> unat index < length (ks_records s ! t)
           then (if old \<noteq> ks_records s ! t ! unat index then emptiness u top_old False
             else Next (Recollect u top_old r (i + 1)))
           else Fault Wild_Deref)))
     else emptiness u top_old True)"
| "ks_is_empty t s p = (s, Fault (Undefined ''is_empty''))"

fun try_remove_ksegment :: "nat \<Rightarrow> kstack \<Rightarrow> ks_pc \<Rightarrow> ks_out" where
  "try_remove_ksegment n s (RemTop top_old) = (s, Next (RemNext top_old (val (ks_top s))))"
| "try_remove_ksegment n s (RemNext top_old a) = with_seg s a (\<lambda>sg. (s, Next (RemCheck top_old (val (sg_next sg)))))"
| "try_remove_ksegment n s (RemCheck top_old nx) = (s, Next (if ks_top s = top_old
     then (if nx \<noteq> NULL then RemInc top_old else PopTop) else PopTop))"
| "try_remove_ksegment n s (RemInc top_old) = with_seg s (val top_old) (\<lambda>sg.
     (set_seg s (val top_old) (sg\<lparr>sg_remove := sg_remove sg + 1\<rparr>), draw s n (\<lambda>r. Collect Removal top_old r 0)))"
| "try_remove_ksegment n s (RemLink top_old) = with_seg s (val top_old) (\<lambda>sg.
     (s, Next (RemCas top_old (val (sg_next sg)))))"
| "try_remove_ksegment n s (RemCas top_old nx) =
     (let (top', b) = cas (ks_top s) top_old (cell nx (aba top_old + 1))
      in (s\<lparr>ks_top := top'\<rparr>, Next (if b then PopTop else RemDec top_old)))"
| "try_remove_ksegment n s (RemDec top_old) = with_seg s (val top_old) (\<lambda>sg.
     (set_seg s (val top_old) (sg\<lparr>sg_remove := sg_remove sg - 1\<rparr>), Next PopTop))"
| "try_remove_ksegment n s p = (s, Fault (Undefined ''try_remove_ksegment''))"

fun ks_pop :: "nat \<Rightarrow> kstack \<Rightarrow> ks_pc \<Rightarrow> ks_out" where
  "ks_pop n s PopTop = (s, draw s n (\<lambda>r. PopFind (ks_top s) r 0))"
| "ks_pop n s (PopFind top_old r i) = with_seg s (val top_old) (\<lambda>sg. (s,
     case ks_find_index s sg False r i of
       Wild \<Rightarrow> Fault Wild_Deref
     | More j \<Rightarrow> Next (PopFind top_old r j)
     | Hit index old \<Rightarrow> Next (PopCheck top_old (Some (index, old)))
     | Miss \<Rightarrow> Next (PopCheck top_old None)))"
| "ks_pop n s (PopCheck top_old found) = (s, Next (if ks_top s = top_old then
     (case found of
        Some (index, old) \<Rightarrow> PopSegment index old
      | None \<Rightarrow> PopNext top_old)
     else PopTop))"
| "ks_pop n s (PopSegment index old) = (s, Next (PopCas (val (ks_top s)) index old))"
| "ks_pop n s (PopCas a index old) = seg_cas s a index old (cell 0 (aba old + 1))
     (\<lambda>b. if b then Return (KPopped (Some (val old))) else Next PopTop)"
| "ks_pop n s (PopNext top_old) = with_seg s (val top_old) (\<lambda>sg. (s,
     if val (sg_next sg) = NULL then draw s n (\<lambda>r. Collect Last top_old r 0) else Next (RemTop top_old)))"
| "ks_pop n s (LastCheck top_old) = (s, if ks_top s = top_old then Return (KPopped None) else Next PopTop)"
| "ks_pop n s p = (s, Fault (Undefined ''pop''))"

fun ks_start :: "ks_op \<Rightarrow> ks_pc" where
  "ks_start (KPush item) = PushTop item"
| "ks_start KPop = PopTop"

text \<open>Which method a program counter is in.\<close>

datatype ks_method = InPush | InCommitted | InAdd | InPop | InEmpty | InRemove

definition ks_method :: "ks_pc \<Rightarrow> ks_method" where
  "ks_method p = (case p of
     PushTop _ \<Rightarrow> InPush | PushFind _ _ _ _ \<Rightarrow> InPush | PushCheck _ _ _ \<Rightarrow> InPush | PushCas _ _ _ _ \<Rightarrow> InPush
   | ComItem _ _ _ _ \<Rightarrow> InCommitted | ComZero _ _ _ _ \<Rightarrow> InCommitted | ComOne _ _ _ _ \<Rightarrow> InCommitted
   | ComTop _ _ _ _ \<Rightarrow> InCommitted | ComBump _ _ _ _ \<Rightarrow> InCommitted | ComUndo _ _ _ _ \<Rightarrow> InCommitted
   | AddCheck _ _ \<Rightarrow> InAdd | AddAlloc _ _ \<Rightarrow> InAdd | AddNext _ _ _ \<Rightarrow> InAdd | AddCas _ _ _ \<Rightarrow> InAdd
   | Collect _ _ _ _ \<Rightarrow> InEmpty | Recollect _ _ _ _ \<Rightarrow> InEmpty
   | RemTop _ \<Rightarrow> InRemove | RemNext _ _ \<Rightarrow> InRemove | RemCheck _ _ \<Rightarrow> InRemove | RemInc _ \<Rightarrow> InRemove
   | RemLink _ \<Rightarrow> InRemove | RemCas _ _ \<Rightarrow> InRemove | RemDec _ \<Rightarrow> InRemove
   | _ \<Rightarrow> InPop)"

definition ks_body :: "tid \<Rightarrow> nat \<Rightarrow> kstack \<Rightarrow> ks_pc \<Rightarrow> ks_out" where
  "ks_body t n s p = (case ks_method p of InPush \<Rightarrow> ks_push n s p | InCommitted \<Rightarrow> ks_committed s p
     | InAdd \<Rightarrow> try_add_new_ksegment n s p | InPop \<Rightarrow> ks_pop n s p | InEmpty \<Rightarrow> ks_is_empty t s p
     | InRemove \<Rightarrow> try_remove_ksegment n s p)"

definition ks_prog :: "(kstack, ks_op, ks_res, ks_pc) prog" where
  "ks_prog = \<lparr>start = ks_start, body = ks_body\<rparr>"

lemma ks_prog_simps [simp]: "start ks_prog = ks_start" "body ks_prog = ks_body"
  by (simp_all add: ks_prog_def)

lemma ks_body_simps [simp]:
  "ks_body t n s (PushTop x) = ks_push n s (PushTop x)"
  "ks_body t n s (PushFind x c r i) = ks_push n s (PushFind x c r i)"
  "ks_body t n s (PushCheck x c f) = ks_push n s (PushCheck x c f)"
  "ks_body t n s (PushCas x c i d) = ks_push n s (PushCas x c i d)"
  "ks_body t n s (ComItem x c i d) = ks_committed s (ComItem x c i d)"
  "ks_body t n s (ComZero x c i d) = ks_committed s (ComZero x c i d)"
  "ks_body t n s (ComOne x c i d) = ks_committed s (ComOne x c i d)"
  "ks_body t n s (ComTop x c i d) = ks_committed s (ComTop x c i d)"
  "ks_body t n s (ComBump x c i d) = ks_committed s (ComBump x c i d)"
  "ks_body t n s (ComUndo x c i d) = ks_committed s (ComUndo x c i d)"
  "ks_body t n s (AddCheck x c) = try_add_new_ksegment n s (AddCheck x c)"
  "ks_body t n s (AddAlloc x c) = try_add_new_ksegment n s (AddAlloc x c)"
  "ks_body t n s (AddNext x c a) = try_add_new_ksegment n s (AddNext x c a)"
  "ks_body t n s (AddCas x c a) = try_add_new_ksegment n s (AddCas x c a)"
  "ks_body t n s PopTop = ks_pop n s PopTop"
  "ks_body t n s (PopFind c r i) = ks_pop n s (PopFind c r i)"
  "ks_body t n s (PopCheck c f) = ks_pop n s (PopCheck c f)"
  "ks_body t n s (PopSegment i d) = ks_pop n s (PopSegment i d)"
  "ks_body t n s (PopCas a i d) = ks_pop n s (PopCas a i d)"
  "ks_body t n s (PopNext c) = ks_pop n s (PopNext c)"
  "ks_body t n s (LastCheck c) = ks_pop n s (LastCheck c)"
  "ks_body t n s (Collect u c r i) = ks_is_empty t s (Collect u c r i)"
  "ks_body t n s (Recollect u c r i) = ks_is_empty t s (Recollect u c r i)"
  "ks_body t n s (RemTop c) = try_remove_ksegment n s (RemTop c)"
  "ks_body t n s (RemNext c a) = try_remove_ksegment n s (RemNext c a)"
  "ks_body t n s (RemCheck c a) = try_remove_ksegment n s (RemCheck c a)"
  "ks_body t n s (RemInc c) = try_remove_ksegment n s (RemInc c)"
  "ks_body t n s (RemLink c) = try_remove_ksegment n s (RemLink c)"
  "ks_body t n s (RemCas c a) = try_remove_ksegment n s (RemCas c a)"
  "ks_body t n s (RemDec c) = try_remove_ksegment n s (RemDec c)"
  by (simp_all add: ks_body_def ks_method_def)

section \<open>Invariant and assertions\<close>

text \<open>
  The segments below the top form a path that ends in NULL; the arrays keep their lengths.
  The successor of a segment never changes once the segment is published, so that whoever
  has seen that a segment is not the last one may still rely on it when it removes it.
\<close>

definition sg_nx :: "kseg \<Rightarrow> addr" where
  "sg_nx sg = val (sg_next sg)"

definition shape :: "kstack \<Rightarrow> addr \<Rightarrow> addr option" where
  "shape s a = map_option sg_nx (ks_heap s a)"

definition ks_addrs :: "kstack \<Rightarrow> addr list" where
  "ks_addrs s = the (chain sg_nx (ks_heap s) (val (ks_top s)))"

definition ks_sizes :: "u64 \<Rightarrow> nat \<Rightarrow> kstack \<Rightarrow> bool" where
  "ks_sizes k m s \<longleftrightarrow> ks_k s = k \<and> ks_threads s = m \<and> length (ks_records s) = m \<and>
     (\<forall>row \<in> set (ks_records s). length row = unat k) \<and>
     (\<forall>sg \<in> ran (ks_heap s). length (sg_items sg) = unat k)"

definition ks_inv :: "u64 \<Rightarrow> nat \<Rightarrow> kstack \<Rightarrow> bool" where
  "ks_inv k m s \<longleftrightarrow> ks_sizes k m s \<and> ks_heap s NULL = None \<and> finite (dom (ks_heap s)) \<and>
     val (ks_top s) \<noteq> NULL \<and> (\<exists>as. path sg_nx (ks_heap s) (val (ks_top s)) as NULL)"

definition ks_call_ok :: "u64 \<Rightarrow> nat \<Rightarrow> tid \<Rightarrow> bool" where
  "ks_call_ok k m t \<longleftrightarrow> k \<noteq> 0 \<and> t < m"

definition seg_at :: "kstack \<Rightarrow> addr \<Rightarrow> bool" where
  "seg_at s a \<longleftrightarrow> shape s a \<noteq> None"

definition linked :: "kstack \<Rightarrow> addr acell \<Rightarrow> bool" where
  "linked s c \<longleftrightarrow> (\<exists>b. shape s (val c) = Some b \<and> b \<noteq> NULL)"

fun ks_assert :: "u64 \<Rightarrow> kstack \<Rightarrow> ks_pc \<Rightarrow> bool" where
  "ks_assert k s (PushTop x) \<longleftrightarrow> True"
| "ks_assert k s (PushFind x c r i) \<longleftrightarrow> seg_at s (val c)"
| "ks_assert k s (PushCheck x c f) \<longleftrightarrow> seg_at s (val c) \<and> (\<forall>i d. f = Some (i, d) \<longrightarrow> i < k)"
| "ks_assert k s (PushCas x c i d) \<longleftrightarrow> seg_at s (val c) \<and> i < k"
| "ks_assert k s (ComItem x c i d) \<longleftrightarrow> seg_at s (val c) \<and> i < k"
| "ks_assert k s (ComZero x c i d) \<longleftrightarrow> seg_at s (val c) \<and> i < k"
| "ks_assert k s (ComOne x c i d) \<longleftrightarrow> seg_at s (val c) \<and> i < k"
| "ks_assert k s (ComTop x c i d) \<longleftrightarrow> seg_at s (val c) \<and> i < k"
| "ks_assert k s (ComBump x c i d) \<longleftrightarrow> seg_at s (val c) \<and> i < k"
| "ks_assert k s (ComUndo x c i d) \<longleftrightarrow> seg_at s (val c) \<and> i < k"
| "ks_assert k s (AddCheck x c) \<longleftrightarrow> seg_at s (val c)"
| "ks_assert k s (AddAlloc x c) \<longleftrightarrow> seg_at s (val c)"
| "ks_assert k s (AddNext x c n) \<longleftrightarrow> seg_at s (val c) \<and> seg_at s n"
| "ks_assert k s (AddCas x c n) \<longleftrightarrow> seg_at s (val c) \<and> shape s n = Some (val c)"
| "ks_assert k s PopTop \<longleftrightarrow> True"
| "ks_assert k s (PopFind c r i) \<longleftrightarrow> seg_at s (val c)"
| "ks_assert k s (PopCheck c f) \<longleftrightarrow> seg_at s (val c) \<and> (\<forall>i d. f = Some (i, d) \<longrightarrow> i < k)"
| "ks_assert k s (PopSegment i d) \<longleftrightarrow> i < k"
| "ks_assert k s (PopCas a i d) \<longleftrightarrow> seg_at s a \<and> i < k"
| "ks_assert k s (PopNext c) \<longleftrightarrow> seg_at s (val c)"
| "ks_assert k s (LastCheck c) \<longleftrightarrow> seg_at s (val c)"
| "ks_assert k s (Collect u c r i) \<longleftrightarrow> seg_at s (val c) \<and> (u = Removal \<longrightarrow> linked s c)"
| "ks_assert k s (Recollect u c r i) \<longleftrightarrow> seg_at s (val c) \<and> (u = Removal \<longrightarrow> linked s c)"
| "ks_assert k s (RemTop c) \<longleftrightarrow> linked s c"
| "ks_assert k s (RemNext c a) \<longleftrightarrow> linked s c \<and> seg_at s a"
| "ks_assert k s (RemCheck c nx) \<longleftrightarrow> linked s c"
| "ks_assert k s (RemInc c) \<longleftrightarrow> linked s c"
| "ks_assert k s (RemLink c) \<longleftrightarrow> linked s c"
| "ks_assert k s (RemCas c nx) \<longleftrightarrow> linked s c \<and> shape s (val c) = Some nx"
| "ks_assert k s (RemDec c) \<longleftrightarrow> linked s c"

definition ks_pinv :: "u64 \<Rightarrow> nat \<Rightarrow> kstack \<Rightarrow> tid \<Rightarrow> ks_op \<Rightarrow> ks_pc \<Rightarrow> bool" where
  "ks_pinv k m s t op p \<longleftrightarrow> ks_call_ok k m t \<and> ks_assert k s p"

fun ks_own :: "ks_pc \<Rightarrow> addr set" where
  "ks_own (AddNext x c n) = {n}"
| "ks_own (AddCas x c n) = {n}"
| "ks_own p = {}"

text \<open>The segments a thread holds an address of.\<close>

fun ks_seen :: "ks_pc \<Rightarrow> addr set" where
  "ks_seen (PushTop x) = {}"
| "ks_seen (PushFind x c r i) = {val c}"
| "ks_seen (PushCheck x c f) = {val c}"
| "ks_seen (PushCas x c i d) = {val c}"
| "ks_seen (ComItem x c i d) = {val c}"
| "ks_seen (ComZero x c i d) = {val c}"
| "ks_seen (ComOne x c i d) = {val c}"
| "ks_seen (ComTop x c i d) = {val c}"
| "ks_seen (ComBump x c i d) = {val c}"
| "ks_seen (ComUndo x c i d) = {val c}"
| "ks_seen (AddCheck x c) = {val c}"
| "ks_seen (AddAlloc x c) = {val c}"
| "ks_seen (AddNext x c n) = {val c}"
| "ks_seen (AddCas x c n) = {val c}"
| "ks_seen PopTop = {}"
| "ks_seen (PopFind c r i) = {val c}"
| "ks_seen (PopCheck c f) = {val c}"
| "ks_seen (PopSegment i d) = {}"
| "ks_seen (PopCas a i d) = {a}"
| "ks_seen (PopNext c) = {val c}"
| "ks_seen (LastCheck c) = {val c}"
| "ks_seen (Collect u c r i) = {val c}"
| "ks_seen (Recollect u c r i) = {val c}"
| "ks_seen (RemTop c) = {val c}"
| "ks_seen (RemNext c a) = {val c, a}"
| "ks_seen (RemCheck c nx) = {val c}"
| "ks_seen (RemInc c) = {val c}"
| "ks_seen (RemLink c) = {val c}"
| "ks_seen (RemCas c nx) = {val c}"
| "ks_seen (RemDec c) = {val c}"

definition ks_rely :: "addr set \<Rightarrow> addr set \<Rightarrow> kstack \<Rightarrow> kstack \<Rightarrow> bool" where
  "ks_rely A B s s' \<longleftrightarrow> (\<forall>a \<in> A \<union> B. shape s' a = shape s a)"

section \<open>What a step changes\<close>

lemma ks_addrs_eq:
  "path sg_nx (ks_heap s) (val (ks_top s)) as NULL \<Longrightarrow> ks_heap s NULL = None \<Longrightarrow> ks_addrs s = as"
  by (simp add: ks_addrs_def path_chain)

lemma ks_invD:
  assumes "ks_inv k m s"
  shows "ks_sizes k m s" "ks_heap s NULL = None" "finite (dom (ks_heap s))" "val (ks_top s) \<noteq> NULL"
    "path sg_nx (ks_heap s) (val (ks_top s)) (ks_addrs s) NULL"
proof -
  show n: "ks_sizes k m s" "ks_heap s NULL = None" "finite (dom (ks_heap s))" "val (ks_top s) \<noteq> NULL"
    using assms by (simp_all add: ks_inv_def)
  obtain as where p: "path sg_nx (ks_heap s) (val (ks_top s)) as NULL"
    using assms unfolding ks_inv_def by (elim conjE exE)
  show "path sg_nx (ks_heap s) (val (ks_top s)) (ks_addrs s) NULL"
    unfolding ks_addrs_eq [OF p n(2)] by (rule p)
qed

lemma ks_invI:
  "ks_sizes k m s \<Longrightarrow> ks_heap s NULL = None \<Longrightarrow> finite (dom (ks_heap s)) \<Longrightarrow> val (ks_top s) \<noteq> NULL \<Longrightarrow>
   path sg_nx (ks_heap s) (val (ks_top s)) as NULL \<Longrightarrow> ks_inv k m s \<and> ks_addrs s = as"
  unfolding ks_inv_def by (intro conjI exI [of _ as] ks_addrs_eq)

lemma shape_dom: "shape s a \<noteq> None \<longleftrightarrow> a \<in> dom (ks_heap s)"
  by (auto simp: shape_def)

lemma shape_same_dom: "shape s' = shape s \<Longrightarrow> dom (ks_heap s') = dom (ks_heap s)"
  by (rule set_eqI) (simp add: shape_dom [symmetric] del: domIff)

text \<open>A step that keeps the shape of the heap and the top address.\<close>

lemma ks_quiet:
  assumes "ks_inv k m s" "shape s' = shape s" "val (ks_top s') = val (ks_top s)" "ks_sizes k m s'"
  shows "ks_inv k m s' \<and> ks_addrs s' = ks_addrs s"
proof -
  note D = ks_invD [OF assms(1)]
  have d: "dom (ks_heap s') = dom (ks_heap s)" by (rule shape_same_dom [OF assms(2)])
  have "path sg_nx (ks_heap s') (val (ks_top s)) (ks_addrs s) NULL = path sg_nx (ks_heap s) (val (ks_top s)) (ks_addrs s) NULL"
    by (rule path_shape) (use assms(2) in \<open>simp add: shape_def fun_eq_iff\<close>)
  then show ?thesis
    using D d assms(3,4) by (intro ks_invI) (auto simp: domIff)
qed

lemma set_seg_sizes:
  assumes "ks_sizes k m s" "length (sg_items sg) = unat k"
  shows "ks_sizes k m (set_seg s a sg)"
  using assms by (auto simp: ks_sizes_def set_seg_def ran_def)

lemma set_seg_shape:
  "ks_heap s a = Some sg \<Longrightarrow> sg_next sg' = sg_next sg \<Longrightarrow> shape (set_seg s a sg') = shape s"
  by (auto simp: shape_def set_seg_def sg_nx_def)

lemma set_seg_simps [simp]:
  "ks_top (set_seg s a sg) = ks_top s" "ks_heap (set_seg s a sg) = (ks_heap s)(a \<mapsto> sg)"
  "ks_records (set_seg s a sg) = ks_records s" "ks_k (set_seg s a sg) = ks_k s"
  by (simp_all add: set_seg_def)

text \<open>
  Most steps are quiet: they change at most the slots and the remove counter of a segment,
  the counter of the top, and the records of their thread.
\<close>

definition quiet_ok :: "u64 \<Rightarrow> nat \<Rightarrow> kstack \<Rightarrow> ks_pc \<Rightarrow> ks_out \<Rightarrow> bool" where
  "quiet_ok k m s p o' \<longleftrightarrow> shape (fst o') = shape s \<and> val (ks_top (fst o')) = val (ks_top s) \<and>
     ks_sizes k m (fst o') \<and>
     (case snd o' of Next p' \<Rightarrow> ks_assert k s p' \<and> ks_own p' = {} \<and> ks_seen p' \<subseteq> ks_seen p \<union> {val (ks_top s)}
      | Return r \<Rightarrow> True | Fault e \<Rightarrow> False)"

lemma seg_atE:
  assumes "ks_sizes k m s" "seg_at s a"
  obtains sg where "ks_heap s a = Some sg" "length (sg_items sg) = unat k" "shape s a = Some (sg_nx sg)"
  using assms by (auto simp: seg_at_def shape_def ks_sizes_def ran_def)

lemma linked_seg: "linked s c \<Longrightarrow> seg_at s (val c)"
  by (auto simp: linked_def seg_at_def)

lemma top_seg: "ks_inv k m s \<Longrightarrow> seg_at s (val (ks_top s))"
  using ks_invD(4,5) [of k m s]
  by (cases "ks_addrs s") (auto simp: seg_at_def shape_def split: option.splits)

lemma seg_cas_quiet:
  assumes "ks_sizes k m s" "seg_at s a" "i < k"
  obtains sg b ys where "ks_heap s a = Some sg" "slot_cas (sg_items sg) i old new = Some (ys, b)"
    "\<And>f. seg_cas s a i old new f = (set_seg s a (sg\<lparr>sg_items := ys\<rparr>), f b)"
    "shape (set_seg s a (sg\<lparr>sg_items := ys\<rparr>)) = shape s" "ks_sizes k m (set_seg s a (sg\<lparr>sg_items := ys\<rparr>))"
proof -
  obtain sg where sg: "ks_heap s a = Some sg" "length (sg_items sg) = unat k" by (rule seg_atE [OF assms(1,2)])
  have "slot_cas (sg_items sg) i old new \<noteq> None" using sg(2) assms(3) by (simp add: word_less_nat_alt)
  then obtain ys b where c: "slot_cas (sg_items sg) i old new = Some (ys, b)"
    by (cases "slot_cas (sg_items sg) i old new") (auto simp del: slot_cas_None)
  show thesis
  proof (rule that [OF sg(1) c])
    show "seg_cas s a i old new f = (set_seg s a (sg\<lparr>sg_items := ys\<rparr>), f b)" for f
      using sg(1) c by (simp add: seg_cas_def with_seg_def)
    show "shape (set_seg s a (sg\<lparr>sg_items := ys\<rparr>)) = shape s" by (rule set_seg_shape [OF sg(1)]) simp
    show "ks_sizes k m (set_seg s a (sg\<lparr>sg_items := ys\<rparr>))"
      using set_seg_sizes [OF assms(1)] slot_cas_length [OF c] sg(2) by simp
  qed
qed

lemma find_index_cases [consumes 3, case_names hit more miss]:
  assumes "ks_sizes k m s" "length (sg_items sg) = unat k" "k \<noteq> 0"
  obtains (hit) i c where "ks_find_index s sg free r j = Hit i c" "i < k" "free \<longleftrightarrow> val c = 0" "c = sg_items sg ! unat i"
    | (more) i where "ks_find_index s sg free r j = More i"
    | (miss) "ks_find_index s sg free r j = Miss"
proof (cases "ks_find_index s sg free r j")
  case (Hit i c)
  have k: "ks_k s = k" using assms(1) by (simp add: ks_sizes_def)
  show thesis
    using Hit hit scan_Hit [OF Hit [unfolded ks_find_index_def]] index_less [OF assms(3)]
    by (auto simp: k ks_find_index_def scan_slot_def split: if_splits option.splits)
next
  case Wild
  have k: "ks_k s = k" using assms(1) by (simp add: ks_sizes_def)
  have "ks_find_index s sg free r j \<noteq> Wild" unfolding ks_find_index_def k
    by (rule scan_Wild) (use assms(2) index_less [OF assms(3)] in \<open>simp add: word_less_nat_alt\<close>)
  then show thesis using Wild by simp
qed (use more miss in auto)

lemmas ks_step_simps = quiet_ok_def with_seg_def ks_back_def draw_def emptiness_def

lemma quiet_push:
  assumes "ks_inv k m s" "ks_pinv k m s t op p" "ks_method p = InPush"
  shows "quiet_ok k m s p (ks_push n s p)"
proof -
  note S = ks_invD(1) [OF assms(1)]
  have k: "k \<noteq> 0" "ks_k s = k" and a: "ks_assert k s p"
    using assms(2) S by (simp_all add: ks_pinv_def ks_call_ok_def ks_sizes_def)
  show ?thesis
  proof (cases p)
    case (PushTop x)
    then show ?thesis using S k top_seg [OF assms(1)] by (simp add: ks_step_simps)
  next
    case (PushFind x c r i)
    obtain sg where sg: "ks_heap s (val c) = Some sg" "length (sg_items sg) = unat k"
      using seg_atE [OF S] a PushFind by auto
    show ?thesis
      by (cases rule: find_index_cases [OF S sg(2) k(1), of True r i])
        (use PushFind sg S a in \<open>simp_all add: ks_step_simps\<close>)
  next
    case (PushCheck x c f)
    then show ?thesis using S a by (cases f) (auto simp: ks_step_simps)
  next
    case (PushCas x c i d)
    then have "seg_at s (val c)" "i < k" using a by simp_all
    then show ?thesis using PushCas a
      by (elim seg_cas_quiet [OF S, of "val c" i d "cell x (aba d + 1)"]) (simp_all add: ks_step_simps Let_def)
  qed (use assms(3) in \<open>simp_all add: ks_method_def\<close>)
qed

lemma quiet_committed:
  assumes "ks_inv k m s" "ks_pinv k m s t op p" "ks_method p = InCommitted"
  shows "quiet_ok k m s p (ks_committed s p)"
proof -
  note S = ks_invD(1) [OF assms(1)]
  have a: "ks_assert k s p" using assms(2) by (simp add: ks_pinv_def)
  show ?thesis
  proof (cases p)
    case (ComItem x c i d)
    obtain sg where sg: "ks_heap s (val c) = Some sg" "length (sg_items sg) = unat k"
      using seg_atE [OF S] a ComItem by auto
    have "unat i < unat k" using a ComItem by (simp add: word_less_nat_alt)
    then show ?thesis using ComItem sg S a by (simp add: ks_step_simps slot_at_def)
  next
    case (ComZero x c i d)
    obtain sg where "ks_heap s (val c) = Some sg" using seg_atE [OF S] a ComZero by auto
    then show ?thesis using ComZero S a by (simp add: ks_step_simps)
  next
    case (ComOne x c i d)
    obtain sg where "ks_heap s (val c) = Some sg" using seg_atE [OF S] a ComOne by auto
    then show ?thesis using ComOne S a by (simp add: ks_step_simps)
  next
    case (ComTop x c i d)
    then show ?thesis using S a by (simp add: ks_step_simps)
  next
    case (ComBump x c i d)
    then show ?thesis using S a
      by (cases "ks_top s = c") (simp_all add: ks_step_simps cas_def shape_def ks_sizes_def fun_eq_iff)
  next
    case (ComUndo x c i d)
    then have "seg_at s (val c)" "i < k" using a by simp_all
    then show ?thesis using ComUndo a
      by (elim seg_cas_quiet [OF S, of "val c" i d "cell 0 (aba d + 1)"]) (simp_all add: ks_step_simps)
  qed (use assms(3) in \<open>simp_all add: ks_method_def\<close>)
qed

lemma quiet_pop:
  assumes "ks_inv k m s" "ks_pinv k m s t op p" "ks_method p = InPop"
  shows "quiet_ok k m s p (ks_pop n s p)"
proof -
  note S = ks_invD(1) [OF assms(1)]
  have k: "k \<noteq> 0" "ks_k s = k" and a: "ks_assert k s p"
    using assms(2) S by (simp_all add: ks_pinv_def ks_call_ok_def ks_sizes_def)
  show ?thesis
  proof (cases p)
    case PopTop
    then show ?thesis using S k top_seg [OF assms(1)] by (simp add: ks_step_simps)
  next
    case (PopFind c r i)
    obtain sg where sg: "ks_heap s (val c) = Some sg" "length (sg_items sg) = unat k"
      using seg_atE [OF S] a PopFind by auto
    show ?thesis
      by (cases rule: find_index_cases [OF S sg(2) k(1), of False r i])
        (use PopFind sg S a in \<open>simp_all add: ks_step_simps\<close>)
  next
    case (PopCheck c f)
    then show ?thesis using S a by (cases f) (auto simp: ks_step_simps)
  next
    case (PopSegment i d)
    then show ?thesis using S a top_seg [OF assms(1)] by (simp add: ks_step_simps)
  next
    case (PopCas b i d)
    then have "seg_at s b" "i < k" using a by simp_all
    then show ?thesis using PopCas a
      by (elim seg_cas_quiet [OF S, of b i d "cell 0 (aba d + 1)"]) (simp_all add: ks_step_simps)
  next
    case (PopNext c)
    obtain sg where sg: "ks_heap s (val c) = Some sg" "shape s (val c) = Some (sg_nx sg)"
      using seg_atE [OF S] a PopNext by auto
    then show ?thesis using PopNext S a k by (simp add: ks_step_simps linked_def sg_nx_def)
  next
    case (LastCheck c)
    then show ?thesis using S a by (simp add: ks_step_simps)
  qed (use assms(3) in \<open>simp_all add: ks_method_def\<close>)
qed

lemma records_index:
  assumes "ks_sizes k m s" "t < m" "i < k"
  shows "t < length (ks_records s)" "unat i < length (ks_records s ! t)"
  using assms nth_mem [of t "ks_records s"] by (auto simp: ks_sizes_def word_less_nat_alt)

lemma records_sizes:
  assumes "ks_sizes k m s" "length row = unat k"
  shows "ks_sizes k m (s\<lparr>ks_records := (ks_records s)[t := row]\<rparr>)"
  using assms set_update_subset_insert [of "ks_records s" t row] by (auto simp: ks_sizes_def)

lemma quiet_is_empty:
  assumes "ks_inv k m s" "ks_pinv k m s t op p" "ks_method p = InEmpty"
  shows "quiet_ok k m s p (ks_is_empty t s p)"
proof -
  note S = ks_invD(1) [OF assms(1)]
  have k: "k \<noteq> 0" "ks_k s = k" and t: "t < m" and a: "ks_assert k s p"
    using assms(2) S by (simp_all add: ks_pinv_def ks_call_ok_def ks_sizes_def)
  show ?thesis
  proof (cases p)
    case (Collect u c r i)
    obtain sg where sg: "ks_heap s (val c) = Some sg" "length (sg_items sg) = unat k"
      using seg_atE [OF S] a Collect by auto
    define j where "j = (r + i) mod k"
    have j: "j < k" unfolding j_def by (rule index_less [OF k(1)])
    note R = records_index [OF S t j]
    have row: "length ((ks_records s ! t)[unat j := d]) = unat k" for d
      using S nth_mem [OF R(1)] by (simp add: ks_sizes_def)
    have "unat j < length (sg_items sg)" using j sg(2) by (simp add: word_less_nat_alt)
    then show ?thesis using Collect sg S a R records_sizes [OF S row]
      by (cases u) (simp_all add: ks_step_simps slot_at_def k Let_def shape_def fun_eq_iff flip: j_def)
  next
    case (Recollect u c r i)
    obtain sg where sg: "ks_heap s (val c) = Some sg" "length (sg_items sg) = unat k"
      using seg_atE [OF S] a Recollect by auto
    define j where "j = (r + i) mod k"
    have j: "j < k" unfolding j_def by (rule index_less [OF k(1)])
    have "unat j < length (sg_items sg)" using j sg(2) by (simp add: word_less_nat_alt)
    then show ?thesis using Recollect sg S a records_index [OF S t j]
      by (cases u) (simp_all add: ks_step_simps slot_at_def k Let_def flip: j_def)
  qed (use assms(3) in \<open>simp_all add: ks_method_def\<close>)
qed

lemma quiet_remove:
  assumes "ks_inv k m s" "ks_pinv k m s t op p" "ks_method p = InRemove" "\<And>c nx. p \<noteq> RemCas c nx"
  shows "quiet_ok k m s p (try_remove_ksegment n s p)"
proof -
  note S = ks_invD(1) [OF assms(1)]
  have k: "k \<noteq> 0" "ks_k s = k" and a: "ks_assert k s p"
    using assms(2) S by (simp_all add: ks_pinv_def ks_call_ok_def ks_sizes_def)
  show ?thesis
  proof (cases p)
    case (RemTop c)
    then show ?thesis using S a top_seg [OF assms(1)] by (simp add: ks_step_simps)
  next
    case (RemNext c b)
    obtain sg where "ks_heap s b = Some sg" using seg_atE [OF S] a RemNext by auto
    then show ?thesis using RemNext S a by (simp add: ks_step_simps)
  next
    case (RemCheck c nx)
    then show ?thesis using S a by (simp add: ks_step_simps)
  next
    case (RemInc c)
    then have l: "seg_at s (val c)" "linked s c" using a linked_seg by auto
    obtain sg where sg: "ks_heap s (val c) = Some sg" "length (sg_items sg) = unat k"
      by (rule seg_atE [OF S l(1)])
    then show ?thesis using RemInc S k l set_seg_sizes [OF S] set_seg_shape [OF sg(1)]
      by (simp add: ks_step_simps)
  next
    case (RemLink c)
    then have l: "seg_at s (val c)" "linked s c" using a linked_seg by auto
    obtain sg where "ks_heap s (val c) = Some sg" "shape s (val c) = Some (sg_nx sg)"
      by (rule seg_atE [OF S l(1)])
    then show ?thesis using RemLink S l by (simp add: ks_step_simps sg_nx_def)
  next
    case (RemDec c)
    then have l: "seg_at s (val c)" "linked s c" using a linked_seg by auto
    obtain sg where sg: "ks_heap s (val c) = Some sg" "length (sg_items sg) = unat k"
      by (rule seg_atE [OF S l(1)])
    then show ?thesis using RemDec S l set_seg_sizes [OF S] set_seg_shape [OF sg(1)]
      by (simp add: ks_step_simps)
  qed (use assms(3,4) in \<open>simp_all add: ks_method_def\<close>)
qed

text \<open>All steps, with the four that are not quiet.\<close>

lemma ks_body_cases [consumes 4, case_names quiet alloc link push remove]:
  assumes "ks_inv k m s" "ks_pinv k m s t op p"
    and "ks_own p \<inter> (set (ks_addrs s) \<union> ks_seen p) = {}" "ks_body t n s p = (s', out)"
  obtains (quiet) "quiet_ok k m s p (s', out)"
    | (alloc) x c where "p = AddAlloc x c" "is_fresh (ks_heap s) n" "s' = set_seg s n (new_kseg k)"
        "out = Next (AddNext x c n)" "seg_at s (val c)"
    | (link) x c a sg where "p = AddNext x c a" "ks_heap s a = Some sg" "seg_at s (val c)" "a \<notin> set (ks_addrs s)"
        "s' = set_seg s a (sg\<lparr>sg_next := (sg_next sg)\<lparr>val := val c\<rparr>\<rparr>)" "out = Next (AddCas x c a)"
    | (push) x a where "p = AddCas x (ks_top s) a" "shape s a = Some (val (ks_top s))"
        "s' = s\<lparr>ks_top := cell a (aba (ks_top s))\<rparr>" "out = Next (PushTop x)"
    | (remove) nx where "p = RemCas (ks_top s) nx" "shape s (val (ks_top s)) = Some nx" "nx \<noteq> NULL"
        "s' = s\<lparr>ks_top := cell nx (aba (ks_top s) + 1)\<rparr>" "out = Next PopTop"
proof -
  note S = ks_invD(1) [OF assms(1)]
  have k: "ks_k s = k" using S by (simp add: ks_sizes_def)
  have a: "ks_assert k s p" using assms(2) by (simp add: ks_pinv_def)
  show thesis
  proof (cases "ks_method p")
    case InPush
    then show thesis using quiet quiet_push [OF assms(1,2) InPush, of n] assms(4) by (simp add: ks_body_def)
  next
    case InCommitted
    then show thesis using quiet quiet_committed [OF assms(1,2) InCommitted] assms(4) by (simp add: ks_body_def)
  next
    case InPop
    then show thesis using quiet quiet_pop [OF assms(1,2) InPop, of n] assms(4) by (simp add: ks_body_def)
  next
    case InEmpty
    then show thesis using quiet quiet_is_empty [OF assms(1,2) InEmpty] assms(4) by (simp add: ks_body_def)
  next
    case InRemove
    show thesis
    proof (cases "\<exists>c nx. p = RemCas c nx")
      case True
      then obtain c nx where p: "p = RemCas c nx" by blast
      show thesis
      proof (cases "ks_top s = c")
        case True
        then show thesis using remove a p assms(4) by (auto simp: cas_def linked_def)
      next
        case False
        then show thesis using quiet a p S assms(4) by (auto simp: cas_def ks_step_simps)
      qed
    next
      case False
      then show thesis using quiet quiet_remove [OF assms(1,2) InRemove, of n] assms(4) InRemove
        by (auto simp: ks_body_def)
    qed
  next
    case InAdd
    show thesis
    proof (cases p)
      case (AddCheck x c)
      then show thesis using quiet S a assms(4) by (auto simp: ks_step_simps)
    next
      case (AddAlloc x c)
      show thesis
      proof (cases "is_fresh (ks_heap s) n")
        case True
        then show thesis using alloc AddAlloc a assms(4) k by auto
      next
        case False
        then show thesis using quiet AddAlloc S a assms(4) by (auto simp: ks_step_simps)
      qed
    next
      case (AddNext x c b)
      obtain sg where sg: "ks_heap s b = Some sg" using seg_atE [OF S] a AddNext by auto
      have "b \<notin> set (ks_addrs s)" using assms(3) AddNext by auto
      then show thesis using link [OF AddNext sg] AddNext sg a assms(4) by (simp add: with_seg_def)
    next
      case (AddCas x c b)
      show thesis
      proof (cases "ks_top s = c")
        case True
        then show thesis using push a AddCas assms(4) by (auto simp: cas_def)
      next
        case False
        then show thesis using quiet AddCas S assms(4) by (auto simp: ks_step_simps cas_def shape_def ks_sizes_def)
      qed
    qed (use InAdd in \<open>simp_all add: ks_method_def\<close>)
  qed
qed

lemma ks_private:
  assumes "ks_inv k m s" "a \<noteq> NULL" "a \<notin> set (ks_addrs s)" "length (sg_items sg) = unat k"
  shows "ks_inv k m (set_seg s a sg) \<and> ks_addrs (set_seg s a sg) = ks_addrs s"
  using ks_invD [OF assms(1)] assms(2-4)
  by (intro ks_invI set_seg_sizes) (simp_all add: heap_simps)

lemma ks_pushed:
  assumes "ks_inv k m s" "shape s a = Some (val (ks_top s))"
  shows "ks_inv k m (s\<lparr>ks_top := cell a b\<rparr>) \<and> ks_addrs (s\<lparr>ks_top := cell a b\<rparr>) = a # ks_addrs s"
proof -
  note D = ks_invD [OF assms(1)]
  obtain sg where sg: "ks_heap s a = Some sg" "sg_nx sg = val (ks_top s)" using assms(2) by (auto simp: shape_def)
  then have "a \<noteq> NULL" using D(2) by (cases "a = NULL") simp_all
  then show ?thesis using D sg by (intro ks_invI) (simp_all add: ks_sizes_def)
qed

lemma ks_removed:
  assumes "ks_inv k m s" "shape s (val (ks_top s)) = Some nx" "nx \<noteq> NULL"
  shows "ks_inv k m (s\<lparr>ks_top := cell nx b\<rparr>) \<and> ks_addrs s = val (ks_top s) # ks_addrs (s\<lparr>ks_top := cell nx b\<rparr>)"
proof -
  note D = ks_invD [OF assms(1)]
  obtain sg where sg: "ks_heap s (val (ks_top s)) = Some sg" "sg_nx sg = nx" using assms(2) by (auto simp: shape_def)
  obtain as where as: "ks_addrs s = val (ks_top s) # as" "path sg_nx (ks_heap s) nx as NULL"
    using D(4,5) sg by (cases "ks_addrs s") auto
  have "ks_inv k m (s\<lparr>ks_top := cell nx b\<rparr>) \<and> ks_addrs (s\<lparr>ks_top := cell nx b\<rparr>) = as"
    using D as(2) assms(3) by (intro ks_invI) (simp_all add: ks_sizes_def)
  then show ?thesis using as(1) by simp
qed

lemma ks_addrs_dom: "ks_inv k m s \<Longrightarrow> set (ks_addrs s) \<subseteq> dom (ks_heap s)"
  using path_dom ks_invD(5) by blast

lemma ks_top_common: "ks_inv k m s \<Longrightarrow> val (ks_top s) \<in> set (ks_addrs s)"
  using ks_invD(4,5) [of k m s] by (cases "ks_addrs s") auto

lemma length_new_kseg [simp]: "length (sg_items (new_kseg k)) = unat k" "sg_remove (new_kseg k) = 0"
  "sg_next (new_kseg k) = cell NULL 0" "sg_items (new_kseg k) = free_slots (unat k)"
  by (simp_all add: new_kseg_def)

lemma ks_step_inv:
  assumes "ks_inv k m s" "ks_pinv k m s t op p"
    and "ks_own p \<inter> (set (ks_addrs s) \<union> ks_seen p) = {}" "ks_body t n s p = (s', out)"
  shows "ks_inv k m s' \<and> set (ks_addrs s') \<subseteq> set (ks_addrs s) \<union> ks_own p \<union> ks_seen p \<union> - dom (ks_heap s)"
  using assms
proof (cases rule: ks_body_cases)
  case quiet
  then show ?thesis using ks_quiet [OF assms(1), of s'] by (auto simp: quiet_ok_def)
next
  case (alloc x c)
  then have "n \<notin> set (ks_addrs s)" "n \<noteq> NULL" using ks_addrs_dom [OF assms(1)] by (auto simp: is_fresh_def)
  then show ?thesis using ks_private [OF assms(1), of n "new_kseg k"] alloc(3) by auto
next
  case (link x c a sg)
  have "a \<noteq> NULL" using link(2) ks_invD(2) [OF assms(1)] by (cases "a = NULL") simp_all
  moreover have "length (sg_items sg) = unat k"
    using link(2) ks_invD(1) [OF assms(1)] by (auto simp: ks_sizes_def ran_def)
  ultimately show ?thesis using link ks_private [OF assms(1), of a] by auto
next
  case (push x a)
  then show ?thesis using ks_pushed [OF assms(1) push(2)] by auto
next
  case (remove nx)
  have "ks_inv k m s'" "ks_addrs s = val (ks_top s) # ks_addrs s'"
    unfolding remove(4) using ks_removed [OF assms(1) remove(2,3)] by blast+
  then show ?thesis by auto
qed

lemma ks_step_next:
  assumes "ks_inv k m s" "ks_pinv k m s t op p"
    and "ks_own p \<inter> (set (ks_addrs s) \<union> ks_seen p) = {}" "ks_body t n s p = (s', Next p')"
  shows "ks_pinv k m s' t op p' \<and> ks_own p' \<subseteq> ks_own p \<union> - dom (ks_heap s) \<and>
    ks_seen p' \<subseteq> ks_seen p \<union> set (ks_addrs s) \<union> set (ks_addrs s') \<and>
    ks_own p' \<inter> (set (ks_addrs s') \<union> ks_seen p') = {}"
  using assms
proof (cases rule: ks_body_cases)
  case quiet
  have s: "shape s' = shape s" and a: "ks_assert k s p'" and o: "ks_own p' = {}" "ks_seen p' \<subseteq> ks_seen p \<union> {val (ks_top s)}"
    using quiet by (simp_all add: quiet_ok_def)
  have e: "seg_at s' b = seg_at s b" "linked s' c = linked s c" for b c
    using s by (simp_all add: seg_at_def linked_def)
  have "ks_assert k s' p'" using a by (cases p') (simp_all add: e s)
  then show ?thesis using assms(2) o ks_top_common [OF assms(1)] by (auto simp: ks_pinv_def)
next
  case (alloc x c)
  have n: "n \<notin> dom (ks_heap s)" using alloc(2) by (simp add: is_fresh_def domIff)
  have c: "val c \<in> dom (ks_heap s)" using alloc(5) by (auto simp: seg_at_def shape_def)
  have i: "set (ks_addrs s') = set (ks_addrs s)"
  proof -
    have "n \<notin> set (ks_addrs s)" "n \<noteq> NULL" using ks_addrs_dom [OF assms(1)] n alloc(2) by (auto simp: is_fresh_def)
    then show ?thesis using ks_private [OF assms(1), of n "new_kseg k"] alloc(3) by simp
  qed
  show ?thesis using alloc n c i assms(2) ks_addrs_dom [OF assms(1)]
    by (auto simp: ks_pinv_def seg_at_def shape_def)
next
  case (link x c a sg)
  have "ks_addrs s' = ks_addrs s"
  proof -
    have "a \<noteq> NULL" using link(2) ks_invD(2) [OF assms(1)] by (cases "a = NULL") simp_all
    moreover have "length (sg_items sg) = unat k"
      using link(2) ks_invD(1) [OF assms(1)] by (auto simp: ks_sizes_def ran_def)
    ultimately show ?thesis using link ks_private [OF assms(1), of a] by auto
  qed
  then show ?thesis using link assms(2,3) by (auto simp: ks_pinv_def seg_at_def shape_def sg_nx_def)
next
  case (push x a)
  then show ?thesis using assms(2) by (simp add: ks_pinv_def)
next
  case (remove nx)
  then show ?thesis using assms(2) by (simp add: ks_pinv_def)
qed

lemma ks_step_shape:
  assumes "ks_inv k m s" "ks_pinv k m s t op p"
    and "ks_own p \<inter> (set (ks_addrs s) \<union> ks_seen p) = {}" "ks_body t n s p = (s', out)"
    and "b \<in> dom (ks_heap s) - ks_own p"
  shows "shape s' b = shape s b"
  using assms(1-4)
  by (cases rule: ks_body_cases) (use assms(5) in \<open>auto simp: quiet_ok_def shape_def is_fresh_def\<close>)

lemma ks_step_safe:
  assumes "ks_inv k m s" "ks_pinv k m s t op p"
    and "ks_own p \<inter> (set (ks_addrs s) \<union> ks_seen p) = {}"
  shows "ks_body t n s p \<noteq> (s', Fault e)"
proof
  assume "ks_body t n s p = (s', Fault e)"
  from assms this show False by (cases rule: ks_body_cases) (auto simp: quiet_ok_def)
qed

lemma ks_stable:
  assumes "ks_rely (ks_own p) (ks_seen p) s s'" "ks_pinv k m s t op p"
  shows "ks_pinv k m s' t op p"
  using assms by (cases p) (auto simp: ks_pinv_def ks_rely_def seg_at_def linked_def)

lemma ks_used: "ks_pinv k m s t op p \<Longrightarrow> ks_own p \<union> ks_seen p \<subseteq> dom (ks_heap s)"
  by (cases p) (auto simp: ks_pinv_def seg_at_def linked_def shape_def)

lemma ks_init_addrs: "ks_inv k m (ks_init k m (Suc a)) \<and> ks_addrs (ks_init k m (Suc a)) = [Suc a]"
  by (rule ks_invI) (auto simp: ks_init_def ks_sizes_def sg_nx_def ran_def)

interpretation ks: og_system ks_prog "ks_init k m (Suc a)" "\<lambda>t op. ks_call_ok k m t" "ks_inv k m" "ks_pinv k m"
    "\<lambda>s. dom (ks_heap s)" "\<lambda>s. set (ks_addrs s)" "\<lambda>_. {}" ks_own ks_seen ks_rely "\<lambda>_ _. True" for k m a
proof (unfold_locales, goal_cases)
  case 1 show ?case using ks_init_addrs by simp
next
  case (2 s t op) then show ?case by (cases op) (simp_all add: ks_pinv_def)
next
  case (3 op) then show ?case by (cases op) simp_all
next
  case (6 s t op p) then show ?case by (rule ks_used)
next
  case (7 s) then show ?case by (rule ks_addrs_dom)
next
  case (8 s t op p n s' out) then show ?case by (intro ks_step_inv) simp_all
next
  case (9 s t op p n s' p') then show ?case by (intro ks_step_next) simp_all
next
  case (10 s t op p n s' e) then show ?case unfolding ks_prog_simps by (intro ks_step_safe)
next
  case (11 s t op p n s' out A u B)
  then have "\<forall>a \<in> A \<union> B. a \<in> dom (ks_heap s) - ks_own p" by blast
  then show ?case using ks_step_shape [OF 11(1-3)] 11(4) by (simp add: ks_rely_def)
next
  case (12 s s' t p op) then show ?case using ks_stable by simp
qed simp_all

end
