(* ===== verification/K_Stack_Order.thy ===== *)
theory K_Stack_Order
  imports K_Stack
begin

text \<open>
  The k-stack as sequential code: a method that runs alone returns, push adds to the newest
  bag of at most k items or opens a new one, pop takes any item of the newest bag that holds
  one. So an item popped is one of the k newest of those left, in the order of their segments.
  The theory ends with what concurrency adds: memory safety of every interleaving, and an
  interleaving in which an item is pushed once and popped twice.
\<close>

section \<open>The sequential contract\<close>

type_synonym bags = "u64 multiset list"

definition seg_items :: "kstack \<Rightarrow> addr \<Rightarrow> u64 multiset" where
  "seg_items s a = slot_items (sg_items (the (ks_heap s a)))"

definition ks_bags :: "kstack \<Rightarrow> bags" where
  "ks_bags s = map (seg_items s) (ks_addrs s)"

text \<open>The bag that pop looks at: empty ones are dropped, but for the last.\<close>

fun drop_empty :: "bags \<Rightarrow> bags" where
  "drop_empty (b # c # bs) = (if b = {#} then drop_empty (c # bs) else b # c # bs)"
| "drop_empty bs = bs"

fun k_lifo :: "u64 \<Rightarrow> bags \<Rightarrow> ks_op \<Rightarrow> ks_res \<Rightarrow> bags \<Rightarrow> bool" where
  "k_lifo k bs (KPush x) r bs' \<longleftrightarrow> r = KPushed True \<and>
     (if size (hd bs) < unat k then bs' = add_mset x (hd bs) # tl bs else bs' = {#x#} # bs)"
| "k_lifo k bs KPop r bs' \<longleftrightarrow> (let ds = drop_empty bs in
     if hd ds = {#} then r = KPopped None \<and> bs' = ds
     else \<exists>x \<in># hd ds. r = KPopped (Some x) \<and> bs' = (hd ds - {#x#}) # tl ds)"

definition ks_quiescent :: "u64 \<Rightarrow> nat \<Rightarrow> kstack \<Rightarrow> bool" where
  "ks_quiescent k m s \<longleftrightarrow> ks_inv k m s \<and> (\<forall>a \<in> set (ks_addrs s). sg_remove (the (ks_heap s a)) = 0)"

definition ks_fresh :: "kstack \<Rightarrow> nat \<Rightarrow> bool" where
  "ks_fresh s n \<longleftrightarrow> is_fresh (ks_heap s) n"

abbreviation ks_returns :: "tid \<Rightarrow> (ks_res \<Rightarrow> kstack \<Rightarrow> bool) \<Rightarrow> kstack \<Rightarrow> ks_pc \<Rightarrow> bool" where
  "ks_returns t \<equiv> returns ks_prog t ks_fresh"

lemma ks_some_fresh: "finite (dom (ks_heap s)) \<Longrightarrow> \<exists>n. ks_fresh s n"
  using fresh_exists by (auto simp: ks_fresh_def)

lemma ks_go:
  assumes "finite (dom (ks_heap s))"
    and "\<And>n. ks_fresh s n \<Longrightarrow> \<exists>s' p'. ks_body t n s p = (s', Next p') \<and> ks_returns t Q s' p'"
  shows "ks_returns t Q s p"
  by (rule returns_next) (use assms ks_some_fresh in auto)

lemma ks_done:
  assumes "finite (dom (ks_heap s))" "\<And>n. ks_fresh s n \<Longrightarrow> \<exists>s' r. ks_body t n s p = (s', Return r) \<and> Q r s'"
  shows "ks_returns t Q s p"
  by (rule returns_done) (use assms ks_some_fresh in auto)

section \<open>The top segment\<close>

lemma top_segE:
  assumes "ks_inv k m s"
  obtains sg as where "ks_heap s (val (ks_top s)) = Some sg" "length (sg_items sg) = unat k"
    "ks_addrs s = val (ks_top s) # as" "val (ks_top s) \<notin> set as" "path sg_nx (ks_heap s) (sg_nx sg) as NULL"
proof -
  note D = ks_invD [OF assms]
  obtain a as where a: "ks_addrs s = a # as" using D(4,5) by (cases "ks_addrs s") auto
  then obtain sg where sg: "a = val (ks_top s)" "ks_heap s a = Some sg" "path sg_nx (ks_heap s) (sg_nx sg) as NULL"
    using D(5) by (auto split: option.splits)
  have "distinct (ks_addrs s)" using path_distinct [OF D(5)] D(2) by simp
  then have "a \<notin> set as" using a by simp
  then show thesis using that [of sg as] sg a D(1) by (auto simp: ks_sizes_def ran_def)
qed

lemma top_seg_bags:
  assumes "ks_inv k m s" "ks_heap s (val (ks_top s)) = Some sg"
  shows "ks_bags s = slot_items (sg_items sg) # map (seg_items s) (tl (ks_addrs s))"
  using assms(2) by (rule_tac top_segE [OF assms(1)]) (simp add: ks_bags_def seg_items_def)

text \<open>Slots of the top segment change.\<close>

lemma top_update:
  assumes "ks_quiescent k m s" "ks_heap s (val (ks_top s)) = Some sg" "length ys = unat k"
  shows "ks_quiescent k m (set_seg s (val (ks_top s)) (sg\<lparr>sg_items := ys\<rparr>))"
    "ks_bags (set_seg s (val (ks_top s)) (sg\<lparr>sg_items := ys\<rparr>)) = slot_items ys # tl (ks_bags s)"
proof -
  let ?s = "set_seg s (val (ks_top s)) (sg\<lparr>sg_items := ys\<rparr>)"
  have I: "ks_inv k m s" and R: "\<forall>a \<in> set (ks_addrs s). sg_remove (the (ks_heap s a)) = 0"
    using assms(1) by (simp_all add: ks_quiescent_def)
  obtain as where as: "ks_addrs s = val (ks_top s) # as" "val (ks_top s) \<notin> set as"
    by (rule top_segE [OF I])
  have q: "ks_inv k m ?s \<and> ks_addrs ?s = ks_addrs s"
    by (rule ks_quiet [OF I]) (use assms(2,3) ks_invD(1) [OF I] in \<open>auto intro!: set_seg_shape set_seg_sizes\<close>)
  then show "ks_quiescent k m ?s" using R as assms(2) by (auto simp: ks_quiescent_def)
  have "seg_items ?s a = seg_items s a" if "a \<in> set as" for a using as(2) that by (auto simp: seg_items_def)
  then show "ks_bags ?s = slot_items ys # tl (ks_bags s)" using q as by (simp add: ks_bags_def seg_items_def)
qed

lemma slot_items_full: "\<forall>c \<in> set xs. val c \<noteq> 0 \<Longrightarrow> size (slot_items xs) = length xs"
  by (induction xs) (auto simp: slot_items_def)

lemma slot_items_some: "c \<in> set xs \<Longrightarrow> val c = 0 \<Longrightarrow> size (slot_items xs) < length xs"
proof (induction xs)
  case (Cons d xs)
  have "size (slot_items xs) \<le> length xs" for xs
    by (simp add: slot_items_def) (metis size_filter_mset_lesseq size_mset size_image_mset)
  then show ?case using Cons by (auto simp: slot_items_def less_Suc_eq_le)
qed simp

lemma slot_items_none: "slot_items xs = {#} \<longleftrightarrow> (\<forall>c \<in> set xs. val c = 0)"
  by (induction xs) (auto simp: slot_items_def)

text \<open>What find_index has found out when it has looked everywhere.\<close>

lemma rotation_all:
  fixes k r :: u64
  assumes "\<And>i. i < k \<Longrightarrow> P (xs ! unat ((r + i) mod k))" "length xs = unat k" "r < k" "unat k < 2 ^ 63"
  shows "\<forall>c \<in> set xs. P c"
proof
  fix c
  assume "c \<in> set xs"
  then obtain j where j: "j < unat k" "c = xs ! j" using assms(2) by (metis in_set_conv_nth)
  have u: "unat (word_of_nat j :: u64) = j" using j(1) assms(4) by (simp add: unat_of_nat)
  then have "(word_of_nat j :: u64) < k" using j(1) by (simp add: word_less_nat_alt)
  then obtain i where "i < k" "(r + i) mod k = word_of_nat j" using rotation_covers [OF assms(3) _ assms(4)] by blast
  then show "P c" using assms(1) [of i] j(2) u by simp
qed

lemma ks_search:
  fixes k :: u64
  assumes I: "ks_inv k m s" and sg: "ks_heap s (val (ks_top s)) = Some sg" and k: "k \<noteq> 0" "unat k < 2 ^ 63" "r < k"
    and step: "\<And>n i. ks_body t n s (pc i) = (s, case ks_find_index s sg free r i of
      Wild \<Rightarrow> Fault Wild_Deref | More j \<Rightarrow> Next (pc j) | Hit j c \<Rightarrow> Next (hit j c) | Miss \<Rightarrow> Next miss)"
    and found: "\<And>j c. unat j < length (sg_items sg) \<Longrightarrow> c = sg_items sg ! unat j \<Longrightarrow> free = (val c = 0) \<Longrightarrow>
      ks_returns t Q s (hit j c)"
    and none: "\<forall>c \<in> set (sg_items sg). free = (val c \<noteq> 0) \<Longrightarrow> ks_returns t Q s miss"
  shows "ks_returns t Q s (pc 0)"
proof (rule returns_find [where k = k and ix = "\<lambda>i. (r + i) mod k" and xs = "sg_items sg" and free = free])
  have len: "length (sg_items sg) = unat k" and kk: "ks_k s = k"
    using ks_invD(1) [OF I] sg by (auto simp: ks_sizes_def ran_def)
  show "\<exists>n. ks_fresh s n" by (rule ks_some_fresh) (rule ks_invD(3) [OF I])
  show lt: "unat ((r + i) mod k) < length (sg_items sg)" for i
    using index_less [OF k(1)] len by (simp add: word_less_nat_alt)
  show "body ks_prog t n s (pc i) = (s, case scan_slot (sg_items sg) free k ((r + i) mod k) i of
      Wild \<Rightarrow> Fault Wild_Deref | More j \<Rightarrow> Next (pc j) | Hit j c \<Rightarrow> Next (hit j c) | Miss \<Rightarrow> Next miss)" for n i
    using step [of n i] by (simp add: ks_find_index_def kk)
  show "ks_returns t Q s (hit ((r + i) mod k) (sg_items sg ! unat ((r + i) mod k)))"
    if "free = (val (sg_items sg ! unat ((r + i) mod k)) = 0)" for i
    by (rule found [OF lt refl that])
  show "ks_returns t Q s miss" if "\<And>i. i < k \<Longrightarrow> free = (val (sg_items sg ! unat ((r + i) mod k)) \<noteq> 0)"
    by (rule none, rule rotation_all [where P = "\<lambda>c. free = (val c \<noteq> 0)", OF that len k(3,2)])
qed

section \<open>push\<close>

lemma draw_less: "k \<noteq> 0 \<Longrightarrow> of_nat n mod k < (k :: u64)"
  by (rule index_less)

text \<open>The top segment has a free slot.\<close>

lemma push_here:
  assumes s: "ks_quiescent k m s" and sg: "ks_heap s (val (ks_top s)) = Some sg"
    and j: "unat j < length (sg_items sg)" "c = sg_items sg ! unat j" "val c = 0" "x \<noteq> 0"
    and Q: "\<And>s'. ks_quiescent k m s' \<Longrightarrow> ks_bags s' = add_mset x (hd (ks_bags s)) # tl (ks_bags s) \<Longrightarrow> Q (KPushed True) s'"
  shows "ks_returns t Q s (PushCheck x (ks_top s) (Some (j, c)))"
proof -
  have I: "ks_inv k m s" using s by (simp add: ks_quiescent_def)
  have fin: "finite (dom (ks_heap s))" by (rule ks_invD(3) [OF I])
  have rem: "sg_remove sg = 0"
    using s sg ks_top_common [OF I] by (auto simp: ks_quiescent_def)
  let ?new = "cell x (aba c + 1)"
  let ?ys = "(sg_items sg)[unat j := ?new]"
  let ?s = "set_seg s (val (ks_top s)) (sg\<lparr>sg_items := ?ys\<rparr>)"
  have len: "length ?ys = unat k" using ks_invD(1) [OF I] sg by (auto simp: ks_sizes_def ran_def)
  have cas: "slot_cas (sg_items sg) j c ?new = Some (?ys, True)"
    using j by (simp add: slot_cas_def slot_at_def cas_simps)
  have "slot_items ?ys = add_mset x (slot_items (sg_items sg))"
    using slot_items_upd [OF j(1), of ?new] j by simp
  then have q: "ks_quiescent k m ?s" "ks_bags ?s = add_mset x (hd (ks_bags s)) # tl (ks_bags s)"
    using top_update [OF s sg len] top_seg_bags [OF I sg] by simp_all
  have finS: "finite (dom (ks_heap ?s))" using fin by simp
  show ?thesis
  proof (rule ks_go [OF fin], intro exI conjI)
    show "ks_body t n s (PushCheck x (ks_top s) (Some (j, c))) = (s, Next (PushCas x (ks_top s) j c))" for n by simp
    show "ks_returns t Q s (PushCas x (ks_top s) j c)"
    proof (rule ks_go [OF fin], intro exI conjI)
      show "ks_body t n s (PushCas x (ks_top s) j c) = (?s, Next (ComItem x (ks_top s) j ?new))" for n
        using sg cas by (simp add: seg_cas_def with_seg_def Let_def)
      show "ks_returns t Q ?s (ComItem x (ks_top s) j ?new)"
      proof (rule ks_go [OF finS], intro exI conjI)
        show "ks_body t n ?s (ComItem x (ks_top s) j ?new) = (?s, Next (ComZero x (ks_top s) j ?new))" for n
          using j by (simp add: with_seg_def slot_at_def)
        show "ks_returns t Q ?s (ComZero x (ks_top s) j ?new)"
          by (rule ks_done [OF finS], intro exI conjI, simp add: with_seg_def rem ks_back_def) (rule Q [OF q])
      qed
    qed
  qed
qed

lemma push_free:
  assumes s: "ks_quiescent k m s" and sg: "ks_heap s (val (ks_top s)) = Some sg"
    and k: "k \<noteq> 0" "unat k < 2 ^ 63" and x: "x \<noteq> 0"
    and full: "\<forall>c \<in> set (sg_items sg). val c \<noteq> 0 \<Longrightarrow> ks_returns t Q s (PushCheck x (ks_top s) None)"
    and Q: "\<And>s' c. c \<in> set (sg_items sg) \<Longrightarrow> val c = 0 \<Longrightarrow> ks_quiescent k m s' \<Longrightarrow>
      ks_bags s' = add_mset x (hd (ks_bags s)) # tl (ks_bags s) \<Longrightarrow> Q (KPushed True) s'"
  shows "ks_returns t Q s (PushTop x)"
proof -
  have I: "ks_inv k m s" using s by (simp add: ks_quiescent_def)
  have kk: "ks_k s = k" using ks_invD(1) [OF I] by (simp add: ks_sizes_def)
  show ?thesis
  proof (rule ks_go [OF ks_invD(3) [OF I]], intro exI conjI)
    fix n
    let ?r = "word_of_nat n mod k"
    show "ks_body t n s (PushTop x) = (s, Next (PushFind x (ks_top s) ?r 0))" using k by (simp add: draw_def kk)
    show "ks_returns t Q s (PushFind x (ks_top s) ?r 0)"
    proof (rule ks_search [OF I sg k draw_less [OF k(1)], where free = True and pc = "PushFind x (ks_top s) ?r"
          and hit = "\<lambda>j c. PushCheck x (ks_top s) (Some (j, c))" and miss = "PushCheck x (ks_top s) None"])
      show "ks_body t n' s (PushFind x (ks_top s) ?r i) = (s, case ks_find_index s sg True ?r i of
          Wild \<Rightarrow> Fault Wild_Deref | More j \<Rightarrow> Next (PushFind x (ks_top s) ?r j)
        | Hit j c \<Rightarrow> Next (PushCheck x (ks_top s) (Some (j, c))) | Miss \<Rightarrow> Next (PushCheck x (ks_top s) None))" for n' i
        using sg by (simp add: with_seg_def split: scan.splits)
      show "ks_returns t Q s (PushCheck x (ks_top s) (Some (j, c)))"
        if "unat j < length (sg_items sg)" "c = sg_items sg ! unat j" "True = (val c = 0)" for j c
        by (rule push_here [OF s sg that(1,2) _ x]) (use that Q [of c] in auto)
      show "ks_returns t Q s (PushCheck x (ks_top s) None)" if "\<forall>c \<in> set (sg_items sg). True = (val c \<noteq> 0)"
        using full that by simp
    qed
  qed
qed

text \<open>A segment goes on top.\<close>

lemma quiescent_pushed:
  assumes s: "ks_quiescent k m s" and n: "is_fresh (ks_heap s) n"
  defines "s1 \<equiv> set_seg s n ((new_kseg k)\<lparr>sg_next := cell (val (ks_top s)) 0\<rparr>)"
  shows "ks_quiescent k m (s1\<lparr>ks_top := cell n b\<rparr>)" "ks_bags (s1\<lparr>ks_top := cell n b\<rparr>) = {#} # ks_bags s"
    "ks_heap (s1\<lparr>ks_top := cell n b\<rparr>) n = Some ((new_kseg k)\<lparr>sg_next := cell (val (ks_top s)) 0\<rparr>)"
proof -
  have I: "ks_inv k m s" using s by (simp add: ks_quiescent_def)
  have nn: "n \<noteq> NULL" "n \<notin> set (ks_addrs s)" using n ks_addrs_dom [OF I] by (auto simp: is_fresh_def)
  let ?sg = "(new_kseg k)\<lparr>sg_next := cell (val (ks_top s)) 0\<rparr>"
  have p: "ks_inv k m s1 \<and> ks_addrs s1 = ks_addrs s"
    unfolding s1_def by (rule ks_private [OF I nn]) simp
  have sh: "shape s1 n = Some (val (ks_top s1))" by (simp add: s1_def shape_def sg_nx_def)
  have q: "ks_inv k m (s1\<lparr>ks_top := cell n b\<rparr>)" "ks_addrs (s1\<lparr>ks_top := cell n b\<rparr>) = n # ks_addrs s"
    using ks_pushed [OF conjunct1 [OF p] sh, of b] p by simp_all
  have h: "ks_heap s1 n = Some ?sg" "\<And>a. a \<in> set (ks_addrs s) \<Longrightarrow> ks_heap s1 a = ks_heap s a"
    using nn(2) by (auto simp: s1_def)
  then show "ks_heap (s1\<lparr>ks_top := cell n b\<rparr>) n = Some ?sg" by simp
  show "ks_quiescent k m (s1\<lparr>ks_top := cell n b\<rparr>)" using q h s by (auto simp: ks_quiescent_def)
  show "ks_bags (s1\<lparr>ks_top := cell n b\<rparr>) = {#} # ks_bags s"
    using q h by (simp add: ks_bags_def seg_items_def)
qed

lemma ks_push_returns:
  assumes s: "ks_quiescent k m s" and k: "k \<noteq> 0" "unat k < 2 ^ 63" and x: "x \<noteq> 0"
  shows "ks_returns t (\<lambda>r s'. ks_quiescent k m s' \<and> k_lifo k (ks_bags s) (KPush x) r (ks_bags s')) s (PushTop x)"
    (is "ks_returns t ?Q s _")
proof -
  have I: "ks_inv k m s" using s by (simp add: ks_quiescent_def)
  have kk: "ks_k s = k" using ks_invD(1) [OF I] by (simp add: ks_sizes_def)
  note fin = ks_invD(3) [OF I]
  obtain sg where sg: "ks_heap s (val (ks_top s)) = Some sg" "length (sg_items sg) = unat k" by (rule top_segE [OF I])
  note bags = top_seg_bags [OF I sg(1)]
  show ?thesis
  proof (rule push_free [OF s sg(1) k x])
    show "?Q (KPushed True) s'" if "c \<in> set (sg_items sg)" "val c = 0" "ks_quiescent k m s'"
      "ks_bags s' = add_mset x (hd (ks_bags s)) # tl (ks_bags s)" for s' c
      using that slot_items_some [OF that(1,2)] sg(2) bags by simp
  next
    assume "\<forall>c \<in> set (sg_items sg). val c \<noteq> 0"
    then have full: "size (hd (ks_bags s)) = unat k" using slot_items_full sg(2) bags by simp
    show "ks_returns t ?Q s (PushCheck x (ks_top s) None)"
    proof (rule ks_go [OF fin], intro exI conjI)
      show "ks_body t n s (PushCheck x (ks_top s) None) = (s, Next (AddCheck x (ks_top s)))" for n by simp
      show "ks_returns t ?Q s (AddCheck x (ks_top s))"
      proof (rule ks_go [OF fin], intro exI conjI)
        show "ks_body t n s (AddCheck x (ks_top s)) = (s, Next (AddAlloc x (ks_top s)))" for n by simp
        show "ks_returns t ?Q s (AddAlloc x (ks_top s))"
        proof (rule ks_go [OF fin], intro exI conjI)
          fix n
          assume "ks_fresh s n"
          then have n: "is_fresh (ks_heap s) n" by (simp add: ks_fresh_def)
          let ?s = "set_seg s n (new_kseg k)"
          let ?s1 = "set_seg s n ((new_kseg k)\<lparr>sg_next := cell (val (ks_top s)) 0\<rparr>)"
          let ?s2 = "?s1\<lparr>ks_top := cell n (aba (ks_top s))\<rparr>"
          have f: "finite (dom (ks_heap ?s))" "finite (dom (ks_heap ?s1))" using fin by simp_all
          note P = quiescent_pushed [OF s n, of "aba (ks_top s)"]
          show "ks_body t n s (AddAlloc x (ks_top s)) = (?s, Next (AddNext x (ks_top s) n))" using n by (simp add: kk)
          show "ks_returns t ?Q ?s (AddNext x (ks_top s) n)"
          proof (rule ks_go [OF f(1)], intro exI conjI)
            show "ks_body t n' ?s (AddNext x (ks_top s) n) = (?s1, Next (AddCas x (ks_top s) n))" for n'
              by (simp add: with_seg_def set_seg_def cell_def)
            show "ks_returns t ?Q ?s1 (AddCas x (ks_top s) n)"
            proof (rule ks_go [OF f(2)], intro exI conjI)
              show "ks_body t n' ?s1 (AddCas x (ks_top s) n) = (?s2, Next (PushTop x))" for n' by (simp add: cas_simps)
              show "ks_returns t ?Q ?s2 (PushTop x)"
              proof (rule push_free [OF P(1) _ k x])
                show "ks_heap ?s2 (val (ks_top ?s2)) = Some ((new_kseg k)\<lparr>sg_next := cell (val (ks_top s)) 0\<rparr>)"
                  using P(3) by simp
                show "?Q (KPushed True) s'" if "ks_quiescent k m s'"
                  "ks_bags s' = add_mset x (hd (ks_bags ?s2)) # tl (ks_bags ?s2)" for s'
                  using that P(2) full by simp
                have "0 < unat k" using k(1) by (simp add: unat_gt_0)
                then have "cell 0 0 \<in> set (sg_items (new_kseg k))" by (simp add: free_slots_def)
                then show "ks_returns t ?Q ?s2 (PushCheck x (ks_top ?s2) None)"
                  if "\<forall>c \<in> set (sg_items ((new_kseg k)\<lparr>sg_next := cell (val (ks_top s)) 0\<rparr>)). val c \<noteq> 0"
                  using that by auto
              qed
            qed
          qed
        qed
      qed
    qed
  qed
qed

section \<open>pop\<close>

lemma pop_here:
  assumes s: "ks_quiescent k m s" and sg: "ks_heap s (val (ks_top s)) = Some sg"
    and j: "unat j < length (sg_items sg)" "c = sg_items sg ! unat j" "val c \<noteq> 0"
    and Q: "\<And>s'. ks_quiescent k m s' \<Longrightarrow> val c \<in># hd (ks_bags s) \<Longrightarrow>
      ks_bags s' = (hd (ks_bags s) - {#val c#}) # tl (ks_bags s) \<Longrightarrow> Q (KPopped (Some (val c))) s'"
  shows "ks_returns t Q s (PopCheck (ks_top s) (Some (j, c)))"
proof -
  have I: "ks_inv k m s" using s by (simp add: ks_quiescent_def)
  note fin = ks_invD(3) [OF I]
  let ?new = "cell 0 (aba c + 1)"
  let ?ys = "(sg_items sg)[unat j := ?new]"
  let ?s = "set_seg s (val (ks_top s)) (sg\<lparr>sg_items := ?ys\<rparr>)"
  have len: "length ?ys = unat k" using ks_invD(1) [OF I] sg by (auto simp: ks_sizes_def ran_def)
  have cas: "slot_cas (sg_items sg) j c ?new = Some (?ys, True)"
    using j by (simp add: slot_cas_def slot_at_def cas_simps)
  have i: "slot_items (sg_items sg) = add_mset (val c) (slot_items ?ys)"
    using slot_items_upd [OF j(1), of ?new] j by simp
  then have q: "ks_quiescent k m ?s" "ks_bags ?s = (hd (ks_bags s) - {#val c#}) # tl (ks_bags s)" "val c \<in># hd (ks_bags s)"
    using top_update [OF s sg len] top_seg_bags [OF I sg] by simp_all
  show ?thesis
  proof (rule ks_go [OF fin], intro exI conjI)
    show "ks_body t n s (PopCheck (ks_top s) (Some (j, c))) = (s, Next (PopSegment j c))" for n by simp
    show "ks_returns t Q s (PopSegment j c)"
    proof (rule ks_go [OF fin], intro exI conjI)
      show "ks_body t n s (PopSegment j c) = (s, Next (PopCas (val (ks_top s)) j c))" for n by simp
      show "ks_returns t Q s (PopCas (val (ks_top s)) j c)"
        by (rule ks_done [OF fin], intro exI conjI, use sg cas in \<open>simp add: seg_cas_def with_seg_def\<close>) (rule Q [OF q(1,3,2)])
    qed
  qed
qed

text \<open>The double collect on an empty segment: it says so, and leaves its records behind.\<close>

lemma solo_is_empty:
  assumes sz: "ks_sizes k m s" and fin: "finite (dom (ks_heap s))" and sg: "ks_heap s (val c) = Some sg"
    and k: "k \<noteq> 0" and t: "t < m" and free: "\<forall>d \<in> set (sg_items sg). val d = 0"
    and cont: "\<And>recs. ks_sizes k m (s\<lparr>ks_records := recs\<rparr>) \<Longrightarrow>
      ks_returns t Q (s\<lparr>ks_records := recs\<rparr>) (case u of Last \<Rightarrow> LastCheck c | Removal \<Rightarrow> RemLink c)"
  shows "ks_returns t Q s (Collect u c r 0)"
proof -
  have len: "length (sg_items sg) = unat k" and kk: "ks_k s = k" using sz sg by (auto simp: ks_sizes_def ran_def)
  define ix where "ix = (\<lambda>i. (r + i) mod k)"
  have ix: "ix i < k" "unat (ix i) < unat k" for i using index_less [OF k, of "r + i"] by (simp_all add: ix_def word_less_nat_alt)
  have ixe: "(r + i) mod k = ix i" for i by (simp add: ix_def)
  have at: "slot_at (sg_items sg) (ix i) = Some (sg_items sg ! unat (ix i))" "val (sg_items sg ! unat (ix i)) = 0" for i
    using ix(2) [of i] len free by simp_all
  have re: "ks_returns t Q (s\<lparr>ks_records := recs\<rparr>) (Recollect u c r 0)"
    if R: "ks_sizes k m (s\<lparr>ks_records := recs\<rparr>)" "\<And>i. i < k \<Longrightarrow> recs ! t ! unat (ix i) = sg_items sg ! unat (ix i)" for recs
  proof -
    let ?s = "s\<lparr>ks_records := recs\<rparr>"
    have "ks_returns t Q ?s (Recollect u c r j)" if "j \<le> k" for j
      using that
    proof (induction rule: word_up_induct)
      case last
      show ?case
      proof (rule ks_go, use fin in simp, intro exI conjI)
        show "ks_body t n ?s (Recollect u c r k) = (?s, Next (case u of Last \<Rightarrow> LastCheck c | Removal \<Rightarrow> RemLink c))" for n
          by (cases u) (simp_all add: kk emptiness_def)
        show "ks_returns t Q ?s (case u of Last \<Rightarrow> LastCheck c | Removal \<Rightarrow> RemLink c)" by (rule cont [OF R(1)])
      qed
    next
      case (step j)
      note X = records_index [OF R(1) t ix(1) [of j]]
      have b: "ks_body t n ?s (Recollect u c r j) = (?s, Next (Recollect u c r (j + 1)))" for n
        using step(2) X sg at(1) [of j] R(2) [OF step(2)] by (simp add: kk with_seg_def Let_def ixe slot_at_def)
      show ?case by (rule ks_go, use fin in simp, intro exI conjI, rule b, rule step(3))
    qed
    from this [of 0] show ?thesis by simp
  qed
  have "\<forall>recs. ks_sizes k m (s\<lparr>ks_records := recs\<rparr>) \<and> (\<forall>i < j. recs ! t ! unat (ix i) = sg_items sg ! unat (ix i)) \<longrightarrow>
      ks_returns t Q (s\<lparr>ks_records := recs\<rparr>) (Collect u c r j)" if "j \<le> k" for j
    using that
  proof (induction rule: word_up_induct)
    case last
    show ?case
    proof (intro allI impI, elim conjE)
      fix recs
      assume R: "ks_sizes k m (s\<lparr>ks_records := recs\<rparr>)" "\<forall>i < k. recs ! t ! unat (ix i) = sg_items sg ! unat (ix i)"
      show "ks_returns t Q (s\<lparr>ks_records := recs\<rparr>) (Collect u c r k)"
      proof (rule ks_go, use fin in simp, intro exI conjI)
        show "ks_body t n (s\<lparr>ks_records := recs\<rparr>) (Collect u c r k) = (s\<lparr>ks_records := recs\<rparr>, Next (Recollect u c r 0))" for n
          by (simp add: kk)
        show "ks_returns t Q (s\<lparr>ks_records := recs\<rparr>) (Recollect u c r 0)" using re R by blast
      qed
    qed
  next
    case (step j)
    show ?case
    proof (intro allI impI, elim conjE)
      fix recs
      let ?s = "s\<lparr>ks_records := recs\<rparr>"
      let ?recs = "recs[t := (recs ! t)[unat (ix j) := sg_items sg ! unat (ix j)]]"
      assume R: "ks_sizes k m ?s" "\<forall>i < j. recs ! t ! unat (ix i) = sg_items sg ! unat (ix i)"
      note X = records_index [OF R(1) t ix(1) [of j]]
      have row: "length ((recs ! t)[unat (ix j) := sg_items sg ! unat (ix j)]) = unat k"
        using R(1) nth_mem [OF X(1)] by (simp add: ks_sizes_def)
      have R': "ks_sizes k m (s\<lparr>ks_records := ?recs\<rparr>)" using records_sizes [OF R(1) row] by simp
      have old: "\<forall>i < j + 1. ?recs ! t ! unat (ix i) = sg_items sg ! unat (ix i)"
      proof (intro allI impI)
        fix i
        assume "i < j + 1"
        then have "i < j \<or> i = j"
          using unat_incr [OF step(2)] by (auto simp: word_less_nat_alt word_unat_eq_iff less_Suc_eq)
        then show "?recs ! t ! unat (ix i) = sg_items sg ! unat (ix i)"
          using R(2) X ix(2) [of i] row by (auto simp: nth_list_update)
      qed
      have b: "ks_body t n ?s (Collect u c r j) = (s\<lparr>ks_records := ?recs\<rparr>, Next (Collect u c r (j + 1)))" for n
        using step(2) X sg at [of j] by (simp add: kk with_seg_def Let_def ixe slot_at_def)
      show "ks_returns t Q ?s (Collect u c r j)"
        by (rule ks_go, use fin in simp, intro exI conjI, rule b) (use step(3) R' old in blast)
    qed
  qed
  then have "\<forall>recs. ks_sizes k m (s\<lparr>ks_records := recs\<rparr>) \<longrightarrow>
      ks_returns t Q (s\<lparr>ks_records := recs\<rparr>) (Collect u c r 0)" by simp
  from this [rule_format, of "ks_records s"] sz show ?thesis by simp
qed

lemma records_same:
  assumes "ks_inv k m s" "ks_sizes k m (s\<lparr>ks_records := recs\<rparr>)"
  shows "ks_inv k m (s\<lparr>ks_records := recs\<rparr>) \<and> ks_addrs (s\<lparr>ks_records := recs\<rparr>) = ks_addrs s"
  by (rule ks_quiet [OF assms(1)]) (use assms(2) in \<open>auto simp: shape_def\<close>)

text \<open>The top segment is empty and another one is below: it is taken off.\<close>

lemma quiescent_removed:
  assumes s: "ks_quiescent k m s" and sg: "ks_heap s (val (ks_top s)) = Some sg" and nx: "sg_nx sg \<noteq> NULL"
  defines "s1 \<equiv> set_seg s (val (ks_top s)) (sg\<lparr>sg_remove := sg_remove sg + 1\<rparr>)"
  assumes sz: "ks_sizes k m (s1\<lparr>ks_records := recs\<rparr>)"
  shows "ks_quiescent k m (s1\<lparr>ks_records := recs, ks_top := cell (sg_nx sg) b\<rparr>)"
    "ks_bags s = slot_items (sg_items sg) # ks_bags (s1\<lparr>ks_records := recs, ks_top := cell (sg_nx sg) b\<rparr>)"
    "ks_addrs s = val (ks_top s) # ks_addrs (s1\<lparr>ks_records := recs, ks_top := cell (sg_nx sg) b\<rparr>)"
proof -
  let ?s2 = "s1\<lparr>ks_records := recs\<rparr>"
  have I: "ks_inv k m s" and R: "\<forall>a \<in> set (ks_addrs s). sg_remove (the (ks_heap s a)) = 0"
    using s by (simp_all add: ks_quiescent_def)
  have sh: "shape ?s2 = shape s"
    using set_seg_shape [OF sg, of "sg\<lparr>sg_remove := sg_remove sg + 1\<rparr>"] by (simp add: s1_def shape_def fun_eq_iff)
  have q: "ks_inv k m ?s2 \<and> ks_addrs ?s2 = ks_addrs s"
    by (rule ks_quiet [OF I sh _ sz]) (simp add: s1_def)
  have top: "ks_top ?s2 = ks_top s" by (simp add: s1_def)
  have "shape ?s2 (val (ks_top ?s2)) = Some (sg_nx sg)" using sh sg top by (simp add: shape_def)
  from ks_removed [OF conjunct1 [OF q] this nx, of b] q top
  have r: "ks_inv k m (?s2\<lparr>ks_top := cell (sg_nx sg) b\<rparr>)"
    "ks_addrs s = val (ks_top s) # ks_addrs (?s2\<lparr>ks_top := cell (sg_nx sg) b\<rparr>)" by simp_all
  then show "ks_addrs s = val (ks_top s) # ks_addrs (s1\<lparr>ks_records := recs, ks_top := cell (sg_nx sg) b\<rparr>)" by simp
  let ?as = "ks_addrs (s1\<lparr>ks_records := recs, ks_top := cell (sg_nx sg) b\<rparr>)"
  obtain as where "ks_addrs s = val (ks_top s) # as" "val (ks_top s) \<notin> set as" by (rule top_segE [OF I])
  then have nt: "val (ks_top s) \<notin> set ?as" using r(2) by simp
  have h: "ks_heap (s1\<lparr>ks_records := recs, ks_top := cell (sg_nx sg) b\<rparr>) a = ks_heap s a" if "a \<in> set ?as" for a
    using that nt by (auto simp: s1_def)
  show "ks_quiescent k m (s1\<lparr>ks_records := recs, ks_top := cell (sg_nx sg) b\<rparr>)"
    using r R h by (simp add: ks_quiescent_def)
  show "ks_bags s = slot_items (sg_items sg) # ks_bags (s1\<lparr>ks_records := recs, ks_top := cell (sg_nx sg) b\<rparr>)"
    using r(2) h sg by (simp add: ks_bags_def seg_items_def)
qed

lemma bags_cons: "ks_quiescent k m s \<Longrightarrow> \<exists>b bs. ks_bags s = b # bs"
  using ks_invD(4,5) [of k m s] by (cases "ks_addrs s") (auto simp: ks_quiescent_def ks_bags_def)

lemma drop_empty_full: "b \<noteq> {#} \<Longrightarrow> drop_empty (b # bs) = b # bs"
  by (cases bs) simp_all

text \<open>The only segment is empty: pop reports an empty stack.\<close>

lemma pop_last:
  assumes s: "ks_quiescent k m s" and sg: "ks_heap s (val (ks_top s)) = Some sg" and k: "k \<noteq> 0" and t: "t < m"
    and free: "\<forall>c \<in> set (sg_items sg). val c = 0" and nx: "sg_nx sg = NULL"
    and Q: "\<And>s'. ks_quiescent k m s' \<Longrightarrow> ks_bags s' = ks_bags s \<Longrightarrow> Q (KPopped None) s'"
  shows "ks_returns t Q s (PopNext (ks_top s))"
proof -
  have I: "ks_inv k m s" using s by (simp add: ks_quiescent_def)
  have kk: "ks_k s = k" using ks_invD(1) [OF I] by (simp add: ks_sizes_def)
  note fin = ks_invD(3) [OF I]
  show ?thesis
  proof (rule ks_go [OF fin], intro exI conjI)
    fix n
    let ?r = "word_of_nat n mod k"
    show "ks_body t n s (PopNext (ks_top s)) = (s, Next (Collect Last (ks_top s) ?r 0))"
      using nx sg k by (simp add: with_seg_def sg_nx_def draw_def kk)
    show "ks_returns t Q s (Collect Last (ks_top s) ?r 0)"
    proof (rule solo_is_empty [OF ks_invD(1) [OF I] fin sg k t free], simp only: purpose.case)
      fix recs
      let ?s = "s\<lparr>ks_records := recs\<rparr>"
      assume "ks_sizes k m ?s"
      note N = records_same [OF I this]
      show "ks_returns t Q ?s (LastCheck (ks_top s))"
      proof (rule ks_done, use fin in simp, intro exI conjI)
        show "ks_body t n ?s (LastCheck (ks_top s)) = (?s, Return (KPopped None))" for n by simp
        show "Q (KPopped None) ?s"
          by (rule Q) (use N s in \<open>simp_all add: ks_quiescent_def ks_bags_def seg_items_def\<close>)
      qed
    qed
  qed
qed

text \<open>An empty segment with another one below is taken off, and pop starts over.\<close>

lemma pop_removal:
  assumes s: "ks_quiescent k m s" and sg: "ks_heap s (val (ks_top s)) = Some sg" and k: "k \<noteq> 0" and t: "t < m"
    and free: "\<forall>c \<in> set (sg_items sg). val c = 0" and nx: "sg_nx sg \<noteq> NULL"
    and again: "\<And>s'. ks_quiescent k m s' \<Longrightarrow> ks_bags s = {#} # ks_bags s' \<Longrightarrow>
      ks_addrs s = val (ks_top s) # ks_addrs s' \<Longrightarrow> ks_returns t Q s' PopTop"
  shows "ks_returns t Q s (PopNext (ks_top s))"
proof -
  let ?c = "ks_top s"
  let ?s1 = "set_seg s (val ?c) (sg\<lparr>sg_remove := sg_remove sg + 1\<rparr>)"
  have I: "ks_inv k m s" using s by (simp add: ks_quiescent_def)
  have kk: "ks_k s = k" using ks_invD(1) [OF I] by (simp add: ks_sizes_def)
  note fin = ks_invD(3) [OF I]
  have len: "length (sg_items sg) = unat k" using ks_invD(1) [OF I] sg by (auto simp: ks_sizes_def ran_def)
  have sz1: "ks_sizes k m ?s1" by (rule set_seg_sizes) (use ks_invD(1) [OF I] len in simp_all)
  have fin1: "finite (dom (ks_heap ?s1))" using fin by simp
  have sg1: "ks_heap ?s1 (val ?c) = Some (sg\<lparr>sg_remove := sg_remove sg + 1\<rparr>)" by simp
  have nx': "val (sg_next sg) = sg_nx sg" by (simp add: sg_nx_def)
  have e: "slot_items (sg_items sg) = {#}" using free slot_items_none by blast
  have finish: "ks_returns t Q (?s1\<lparr>ks_records := recs\<rparr>) (RemLink ?c)"
    if sz: "ks_sizes k m (?s1\<lparr>ks_records := recs\<rparr>)" for recs
  proof -
    let ?s2 = "?s1\<lparr>ks_records := recs, ks_top := cell (sg_nx sg) (aba ?c + 1)\<rparr>"
    have fin2: "finite (dom (ks_heap (?s1\<lparr>ks_records := recs\<rparr>)))" using fin by simp
    have "ks_returns t Q ?s2 PopTop"
      by (rule again) (use quiescent_removed [OF s sg nx sz, of "aba ?c + 1"] e in simp_all)
    then have "ks_returns t Q (?s1\<lparr>ks_records := recs\<rparr>) (RemCas ?c (sg_nx sg))"
      by (intro ks_go [OF fin2] exI conjI) (simp_all add: cas_simps)
    then show ?thesis by (intro ks_go [OF fin2] exI conjI) (simp_all add: with_seg_def nx')
  qed
  have "ks_returns t Q ?s1 (Collect Removal ?c r 0)" for r
    by (rule solo_is_empty [OF sz1 fin1 sg1 k t]) (use free finish in simp_all)
  then have "ks_returns t Q s (RemInc ?c)"
    using sg k by (intro ks_go [OF fin] exI conjI) (simp_all add: with_seg_def draw_def kk)
  then have "ks_returns t Q s (RemCheck ?c (sg_nx sg))"
    using nx by (intro ks_go [OF fin] exI conjI) simp_all
  then have "ks_returns t Q s (RemNext ?c (val ?c))"
    using sg by (intro ks_go [OF fin] exI conjI) (simp_all add: with_seg_def nx')
  then have "ks_returns t Q s (RemTop ?c)"
    by (intro ks_go [OF fin] exI conjI) simp_all
  then show ?thesis using nx sg by (intro ks_go [OF fin] exI conjI) (simp_all add: with_seg_def nx')
qed

lemma ks_pop_returns:
  assumes "ks_quiescent k m s" and k: "k \<noteq> 0" "unat k < 2 ^ 63" and t: "t < m"
  shows "ks_returns t (\<lambda>r s'. ks_quiescent k m s' \<and> k_lifo k (ks_bags s) KPop r (ks_bags s')) s PopTop"
  using assms(1)
proof (induction "length (ks_addrs s)" arbitrary: s rule: less_induct)
  case less
  note s = less.prems
  have I: "ks_inv k m s" using s by (simp add: ks_quiescent_def)
  have kk: "ks_k s = k" using ks_invD(1) [OF I] by (simp add: ks_sizes_def)
  note fin = ks_invD(3) [OF I]
  obtain sg as where sg: "ks_heap s (val (ks_top s)) = Some sg" "ks_addrs s = val (ks_top s) # as"
    "path sg_nx (ks_heap s) (sg_nx sg) as NULL" by (rule top_segE [OF I])
  note bags = top_seg_bags [OF I sg(1)]
  let ?Q = "\<lambda>r s'. ks_quiescent k m s' \<and> k_lifo k (ks_bags s) KPop r (ks_bags s')"
  have found: "ks_returns t ?Q s (PopCheck (ks_top s) (Some (j, c)))"
    if "unat j < length (sg_items sg)" "c = sg_items sg ! unat j" "val c \<noteq> 0" for j c
  proof (rule pop_here [OF s sg(1) that])
    fix s'
    assume a: "ks_quiescent k m s'" "val c \<in># hd (ks_bags s)" "ks_bags s' = (hd (ks_bags s) - {#val c#}) # tl (ks_bags s)"
    have "hd (ks_bags s) \<noteq> {#}" using a(2) by auto
    then have "drop_empty (ks_bags s) = ks_bags s" using bags drop_empty_full by simp
    then show "?Q (KPopped (Some (val c))) s'" using a by auto
  qed
  have none: "ks_returns t ?Q s (PopCheck (ks_top s) None)" if free: "\<forall>c \<in> set (sg_items sg). val c = 0"
  proof -
    have e: "slot_items (sg_items sg) = {#}" using free slot_items_none by blast
    have "ks_returns t ?Q s (PopNext (ks_top s))"
    proof (cases "sg_nx sg = NULL")
      case True
      then have "as = []" using sg(3) ks_invD(2) [OF I] by (cases as) (auto split: option.splits)
      then have b: "ks_bags s = [{#}]" using bags sg(2) e by simp
      show ?thesis by (rule pop_last [OF s sg(1) k(1) t free True]) (simp add: b)
    next
      case False
      show ?thesis
      proof (rule pop_removal [OF s sg(1) k(1) t free False])
        fix s'
        assume q: "ks_quiescent k m s'" "ks_bags s = {#} # ks_bags s'" "ks_addrs s = val (ks_top s) # ks_addrs s'"
        obtain b bs where b: "ks_bags s' = b # bs" using bags_cons [OF q(1)] by blast
        show "ks_returns t ?Q s' PopTop"
          by (rule returns_mono [OF less.hyps [OF _ q(1)]]) (use q b in \<open>auto simp: Let_def\<close>)
      qed
    qed
    then show ?thesis by (intro ks_go [OF fin] exI conjI) simp_all
  qed
  have "ks_returns t ?Q s (PopFind (ks_top s) r 0)" if r: "r < k" for r
  proof (rule ks_search [OF I sg(1) k r, where free = False and pc = "PopFind (ks_top s) r"
        and hit = "\<lambda>j c. PopCheck (ks_top s) (Some (j, c))" and miss = "PopCheck (ks_top s) None"])
    show "ks_body t n s (PopFind (ks_top s) r i) = (s, case ks_find_index s sg False r i of
        Wild \<Rightarrow> Fault Wild_Deref | More j \<Rightarrow> Next (PopFind (ks_top s) r j)
      | Hit j c \<Rightarrow> Next (PopCheck (ks_top s) (Some (j, c))) | Miss \<Rightarrow> Next (PopCheck (ks_top s) None))" for n i
      using sg by (simp add: with_seg_def split: scan.splits)
  qed (use found none in auto)
  from this [OF index_less [OF k(1)]] have "ks_returns t ?Q s (PopFind (ks_top s) (of_nat n mod k) 0)" for n .
  then show ?case using k by (intro ks_go [OF fin] exI conjI) (simp_all add: draw_def kk del: k_lifo.simps)
qed

section \<open>Properties\<close>

definition ks_size_ok :: "u64 \<Rightarrow> bool" where
  "ks_size_ok k \<longleftrightarrow> k \<noteq> 0 \<and> unat k < 2 ^ 63"

lemma ks_init_quiescent: "ks_quiescent k m (ks_init k m (Suc a))" "ks_bags (ks_init k m (Suc a)) = [{#}]"
  using ks_init_addrs [of k m a] by (simp_all add: ks_quiescent_def ks_bags_def seg_items_def) (simp_all add: ks_init_def)

interpretation ks_seq: sequential_object ks_prog t ks_fresh "ks_init k m (Suc a)"
    "\<lambda>op. ks_size_ok k \<and> t < m \<and> op \<noteq> KPush 0" "ks_quiescent k m" ks_bags "k_lifo k" for k m a t
proof (unfold_locales, goal_cases)
  case 1 show ?case by (rule ks_init_quiescent)
next
  case (2 s op)
  then show ?case using ks_push_returns ks_pop_returns by (cases op) (auto simp: ks_size_ok_def simp del: k_lifo.simps)
qed

text \<open>
  C31: used by one thread, the k-stack is a stack up to reordering inside bags of k items, for
  every sequence of pushes (of items other than NULL) and pops, whatever random slots the
  operations try first and whatever addresses new segments get: every call that follows on
  finished ones comes to its end however its draws go on, there is such a run of the whole
  sequence, and in every such run push puts its item into the newest bag, or into a new one
  when that bag has k items, and pop takes an item of the newest bag that is not empty and
  reports an empty stack only when there is none.
\<close>

theorem kstack_k_lifo:
  fixes a :: addr
  assumes "ks_size_ok k" "t < m" "KPush 0 \<notin> set ops"
  defines "s0 \<equiv> ks_init k m (Suc a)"
  shows "(\<exists>l s'. map fst l = ops \<and> seq_run ks_prog t ks_fresh s0 l s') \<and>
    (\<forall>l s' op rest f. ops = map fst l @ op # rest \<and> seq_run ks_prog t ks_fresh s0 l s' \<and>
      (\<forall>n. admissible ks_prog t ks_fresh (map f [0..<n]) (called ks_prog t op s')) \<longrightarrow>
      (\<exists>n r. threads (exec ks_prog (alone t (map f [0..<n])) (called ks_prog t op s')) t = Resp op r)) \<and>
    (\<forall>l s'. map fst l = ops \<longrightarrow> seq_run ks_prog t ks_fresh s0 l s' \<longrightarrow>
      seq_legal (k_lifo k) [{#}] l (ks_bags s'))"
proof -
  have ok: "list_all (\<lambda>op. ks_size_ok k \<and> t < m \<and> op \<noteq> KPush 0) ops" using assms(1-3) by (auto simp: list_all_iff)
  have "\<exists>n r. threads (exec ks_prog (alone t (map f [0..<n])) (called ks_prog t op s')) t = Resp op r"
    if "ops = map fst l @ op # rest" "seq_run ks_prog t ks_fresh s0 l s'"
      "\<forall>n. admissible ks_prog t ks_fresh (map f [0..<n]) (called ks_prog t op s')" for l s' op rest f
  proof -
    have "list_all (\<lambda>op. ks_size_ok k \<and> t < m \<and> op \<noteq> KPush 0) (map fst l)" "ks_size_ok k \<and> t < m \<and> op \<noteq> KPush 0"
      using ok unfolding that(1) list_all_append list.pred_inject(2) by blast+
    from ks_seq.seq_ends [OF that(2) [unfolded s0_def] this, of f] show ?thesis using that(3) by blast
  qed
  moreover have "(\<exists>l s'. map fst l = ops \<and> seq_run ks_prog t ks_fresh s0 l s') \<and>
    (\<forall>l s'. map fst l = ops \<longrightarrow> seq_run ks_prog t ks_fresh s0 l s' \<longrightarrow> seq_legal (k_lifo k) [{#}] l (ks_bags s'))"
    using ks_seq.sequential_use [of k t m ops a] assms ks_init_quiescent(2) [of k m a]
    by (auto simp: list_all_iff simp del: k_lifo.simps)
  ultimately show ?thesis by blast
qed

theorem kstack_k_lifo_witness:
  "\<exists>l s'. map fst l = [KPush 1, KPush 2, KPop] \<and> seq_run ks_prog 0 ks_fresh (ks_init 2 1 (Suc 0)) l s' \<and>
    snd (l ! 2) \<in> {KPopped (Some 1), KPopped (Some 2)}"
proof -
  have k: "ks_size_ok 2" "0 < (1 :: nat)" "KPush 0 \<notin> set [KPush 1, KPush 2, KPop]" by (simp_all add: ks_size_ok_def)
  note K = kstack_k_lifo [OF k, of 0]
  obtain l s' where l: "map fst l = [KPush 1, KPush 2, KPop]" "seq_run ks_prog 0 ks_fresh (ks_init 2 1 (Suc 0)) l s'"
    using K [THEN conjunct1] by (elim exE conjE) (rule that)
  then have g: "seq_legal (k_lifo 2) [{#}] l (ks_bags s')" using K [THEN conjunct2, THEN conjunct2] by simp
  obtain r1 r2 r3 where "l = [(KPush 1, r1), (KPush 2, r2), (KPop, r3)]" using l(1) by (auto simp: map_eq_Cons_conv)
  then have "snd (l ! 2) \<in> {KPopped (Some 1), KPopped (Some 2)}" using g by (auto simp: Let_def split: if_splits)
  then show ?thesis using l(1,2) by (intro exI [of _ l] exI [of _ s'] conjI)
qed

text \<open>
  C32: no thread of the k-stack follows NULL or an address without a segment, indexes a
  segment or the records of is_empty out of range, or divides by zero, whatever the
  interleaving of the calls, the random numbers and the addresses of new segments.
\<close>

theorem kstack_memory_safe:
  assumes "k \<noteq> 0" "list_all (valid_call (\<lambda>t op. t < m)) es"
  shows "threads (exec ks_prog es (init (ks_init k m (Suc a)))) t \<noteq> Dead op e"
  by (rule ks.og_no_fault) (use assms in \<open>simp add: ks_call_ok_def [abs_def]\<close>)

text \<open>
  A pop finds the top segment empty, raises its remove counter, sees the item that a push
  has just stored, and lowers the counter again, between the two reads that committed makes
  of the counter: the first read does not return true and the second one does not go on to
  the checks, so that committed returns false and push stores its item a second time.
\<close>

definition ks_twice :: "ks_op sched" where
  "ks_twice = (0, Call (KPush 1)) # alone 0 (replicate 6 0) @ [(0, Leave), (0, Call (KPush 2))] @
     alone 0 (replicate 18 2) @ [(0, Leave), (0, Call KPop)] @ alone 0 (replicate 6 0) @
     [(0, Leave), (1, Call KPop)] @ alone 1 (replicate 9 0) @ (0, Call (KPush 3)) # alone 0 (replicate 6 0) @
     alone 1 [0, 0] @ alone 0 (replicate 18 3) @ [(0, Leave), (2, Call KPop)] @ alone 2 (replicate 12 0) @
     [(2, Leave), (2, Call KPop)] @ alone 2 (replicate 20 0) @ [(2, Leave)]"

lemma ks_twice_valid: "list_all (valid_call (\<lambda>t op. t < 3)) ks_twice"
  by code_simp

theorem kstack_memory_safe_witness: "\<forall>t op e. threads (exec ks_prog ks_twice (init (ks_init 1 3 1))) t \<noteq> Dead op e"
  using kstack_memory_safe [of 1 3 ks_twice 0] ks_twice_valid by simp

text \<open>
  An item that was pushed once is popped twice: in the interleaving ks_twice the item 3
  is given to one push and returned by two pops.
\<close>

lemma kstack_duplicates:
  "filter (\<lambda>e. case e of Inv t op \<Rightarrow> op = KPush 3 | Ret t op r \<Rightarrow> op = KPush 3 \<or> r = KPopped (Some 3) | Lin t op r \<Rightarrow> False)
     (history ks_prog ks_twice (init (ks_init 1 3 1))) =
   [Inv 0 (KPush 3), Ret 0 (KPush 3) (KPushed True), Ret 2 KPop (KPopped (Some 3)), Ret 2 KPop (KPopped (Some 3))]"
  by code_simp

text \<open>NULL is not refused: it is stored, which leaves the slot free, and is lost.\<close>

lemma kstack_null_lost:
  "history ks_prog ((0, Call (KPush 0)) # alone 0 (replicate 6 0) @ [(0, Leave), (0, Call KPop)] @ alone 0 (replicate 10 0) @ [(0, Leave)])
     (init (ks_init 1 1 1)) = [Inv 0 (KPush 0), Ret 0 (KPush 0) (KPushed True), Inv 0 KPop, Ret 0 KPop (KPopped None)]"
  by code_simp

end
