(* ===== verification/Bounded_KFifo.thy ===== *)
theory Bounded_KFifo
  imports Slots
begin

text \<open>
  The bounded-size k-FIFO queue, src/src/datastructures/boundedsize_kfifo.h: an array of
  segments of k slots, a head and a tail that name the first slot of a segment, enqueue
  into any free slot of the tail segment and dequeue from any used slot of the head
  segment. One step is one access to shared memory; pseudorand is drawn from the schedule.
\<close>

section \<open>State and methods\<close>

record kfifo =
  kf_size :: u64
  kf_k :: u64
  kf_queue :: "slot list"
  kf_head :: slot
  kf_tail :: slot

definition kf_init :: "u64 \<Rightarrow> u64 \<Rightarrow> kfifo" where
  "kf_init k num_segments = \<lparr>kf_size = k * num_segments, kf_k = k,
     kf_queue = free_slots (unat (k * num_segments)), kf_head = cell 0 0, kf_tail = cell 0 0\<rparr>"

datatype kf_op = Enq u64 | Deq

datatype kf_res = EnqRes bool | DeqRes "u64 option"

text \<open>What find_index leaves behind: no index, or an index and the copy of the slot.\<close>

type_synonym found = "(u64 \<times> slot) option"

datatype kf_pc =
    EnqEntry u64
  | EnqTail u64
  | EnqHead u64 slot
  | EnqFind u64 slot slot u64 u64
  | EnqCheck u64 slot slot found
  | EnqCas u64 slot u64 slot
  | ComItem u64 slot u64 slot
  | ComTail u64 slot u64 slot
  | ComHead u64 slot u64 slot slot
  | ComBump u64 u64 slot slot
  | ComUndo u64 u64 slot
  | FullHead u64 slot slot
  | FullSegment u64 slot slot u64
  | FullSame u64 slot slot
  | EnqAdvHead u64 slot slot
  | EnqAdvTail u64 slot
  | DeqHead
  | DeqTail slot
  | DeqFind slot slot u64 u64
  | DeqCheck slot slot found
  | DeqAdvTail slot u64 slot
  | DeqCas u64 slot
  | DeqEmpty slot slot
  | DeqAdvHead slot

type_synonym kf_out = "kfifo \<times> (kf_pc, kf_res) outcome"

definition kf_find_index :: "kfifo \<Rightarrow> u64 \<Rightarrow> bool \<Rightarrow> u64 \<Rightarrow> u64 \<Rightarrow> scan" where
  "kf_find_index s start_index free random_index i =
     scan_slot (kf_queue s) free (kf_k s) ((start_index + ((random_index + i) mod kf_k s)) mod kf_size s) i"

definition kf_advance_head :: "slot \<Rightarrow> kfifo \<Rightarrow> kfifo" where
  "kf_advance_head head_old s =
     s\<lparr>kf_head := fst (cas (kf_head s) head_old (cell (val head_old + kf_k s) (aba head_old + 1)))\<rparr>"

definition kf_advance_tail :: "slot \<Rightarrow> kfifo \<Rightarrow> kfifo" where
  "kf_advance_tail tail_old s =
     s\<lparr>kf_tail := fst (cas (kf_tail s) tail_old (cell (val tail_old + kf_k s) (aba tail_old + 1)))\<rparr>"

definition kf_queue_full :: "kfifo \<Rightarrow> u64 \<Rightarrow> u64 \<Rightarrow> bool" where
  "kf_queue_full s head_old_pointer tail_old_pointer \<longleftrightarrow>
     head_old_pointer = val (kf_head s) \<and> (tail_old_pointer + kf_k s) mod kf_size s = head_old_pointer"

text \<open>One iteration of segment_not_empty: it returns true at a slot in use, false at the end.\<close>

definition kf_segment_not_empty :: "kfifo \<Rightarrow> u64 \<Rightarrow> u64 \<Rightarrow> scan" where
  "kf_segment_not_empty s head_old_pointer i =
     scan_slot (kf_queue s) False (kf_k s) ((head_old_pointer + i) mod kf_size s) i"

definition in_valid_region :: "u64 \<Rightarrow> u64 \<Rightarrow> u64 \<Rightarrow> bool" where
  "in_valid_region tail_old tail_current head_current =
     (let wrap_around = tail_current < head_current
      in if \<not> wrap_around then head_current < tail_old \<and> tail_old \<le> tail_current
         else head_current < tail_old \<or> tail_old \<le> tail_current)"

definition not_in_valid_region :: "u64 \<Rightarrow> u64 \<Rightarrow> u64 \<Rightarrow> bool" where
  "not_in_valid_region tail_old tail_current head_current =
     (let wrap_around = tail_current < head_current
      in if \<not> wrap_around then tail_old < tail_current \<or> head_current < tail_old
         else tail_old < tail_current \<and> head_current < tail_old)"

text \<open>The end of committed: back in enqueue with its result.\<close>

definition kf_back :: "u64 \<Rightarrow> bool \<Rightarrow> (kf_pc, kf_res) outcome" where
  "kf_back item b = (if b then Return (EnqRes True) else Next (EnqTail item))"

fun kf_committed :: "kfifo \<Rightarrow> kf_pc \<Rightarrow> kf_out" where
  "kf_committed s (ComItem item tail_old index new) = (s, case slot_at (kf_queue s) index of
     None \<Rightarrow> Fault Wild_Deref
   | Some c \<Rightarrow> if val c \<noteq> val new then kf_back item True else Next (ComTail item tail_old index new))"
| "kf_committed s (ComTail item tail_old index new) = (s, Next (ComHead item tail_old index new (kf_tail s)))"
| "kf_committed s (ComHead item tail_old index new tail_current) = (s,
     if in_valid_region (val tail_old) (val tail_current) (val (kf_head s)) then kf_back item True
     else if not_in_valid_region (val tail_old) (val tail_current) (val (kf_head s))
     then Next (ComUndo item index new)
     else Next (ComBump item index new (kf_head s)))"
| "kf_committed s (ComBump item index new head_current) =
     (let (head', b) = cas (kf_head s) head_current (cell (val head_current) (aba head_current + 1))
      in (s\<lparr>kf_head := head'\<rparr>, if b then kf_back item True else Next (ComUndo item index new)))"
| "kf_committed s (ComUndo item index new) =
     (case slot_cas (kf_queue s) index new (cell 0 (aba new + 1)) of
        None \<Rightarrow> (s, Fault Wild_Deref)
      | Some (queue', b) \<Rightarrow> (s\<lparr>kf_queue := queue'\<rparr>, kf_back item (\<not> b)))"
| "kf_committed s p = (s, Fault (Undefined ''committed''))"

fun kf_enqueue :: "nat \<Rightarrow> kfifo \<Rightarrow> kf_pc \<Rightarrow> kf_out" where
  "kf_enqueue n s (EnqEntry item) = (s, if item = 0 then Fault (Abort ''enqueue'') else Next (EnqTail item))"
| "kf_enqueue n s (EnqTail item) = (s, Next (EnqHead item (kf_tail s)))"
| "kf_enqueue n s (EnqHead item tail_old) = (s, if kf_k s = 0 then Fault (Undefined ''mod'')
     else Next (EnqFind item tail_old (kf_head s) (of_nat n mod kf_k s) 0))"
| "kf_enqueue n s (EnqFind item tail_old head_old r i) = (s, case kf_find_index s (val tail_old) True r i of
     Wild \<Rightarrow> Fault Wild_Deref
   | More j \<Rightarrow> Next (EnqFind item tail_old head_old r j)
   | Hit index old \<Rightarrow> Next (EnqCheck item tail_old head_old (Some (index, old)))
   | Miss \<Rightarrow> Next (EnqCheck item tail_old head_old None))"
| "kf_enqueue n s (EnqCheck item tail_old head_old found) = (s, if tail_old = kf_tail s then
     (case found of
        Some (index, old) \<Rightarrow> Next (EnqCas item tail_old index old)
      | None \<Rightarrow> Next (FullHead item tail_old head_old))
     else Next (EnqTail item))"
| "kf_enqueue n s (EnqCas item tail_old index old) =
     (let new = cell item (aba old + 1) in
      case slot_cas (kf_queue s) index old new of
        None \<Rightarrow> (s, Fault Wild_Deref)
      | Some (queue', b) \<Rightarrow> (s\<lparr>kf_queue := queue'\<rparr>,
          if b then Next (ComItem item tail_old index new) else Next (EnqTail item)))"
| "kf_enqueue n s (FullHead item tail_old head_old) = (s,
     if kf_queue_full s (val head_old) (val tail_old) then Next (FullSegment item tail_old head_old 0)
     else Next (EnqAdvTail item tail_old))"
| "kf_enqueue n s (FullSegment item tail_old head_old i) = (s, case kf_segment_not_empty s (val head_old) i of
     Wild \<Rightarrow> Fault Wild_Deref
   | More j \<Rightarrow> Next (FullSegment item tail_old head_old j)
   | Hit index old \<Rightarrow> Next (FullSame item tail_old head_old)
   | Miss \<Rightarrow> Next (EnqAdvHead item tail_old head_old))"
| "kf_enqueue n s (FullSame item tail_old head_old) = (s,
     if val head_old = val (kf_head s) then Return (EnqRes False) else Next (EnqAdvHead item tail_old head_old))"
| "kf_enqueue n s (EnqAdvHead item tail_old head_old) =
     (kf_advance_head head_old s, Next (EnqAdvTail item tail_old))"
| "kf_enqueue n s (EnqAdvTail item tail_old) = (kf_advance_tail tail_old s, Next (EnqTail item))"
| "kf_enqueue n s p = (s, Fault (Undefined ''enqueue''))"

fun kf_dequeue :: "nat \<Rightarrow> kfifo \<Rightarrow> kf_pc \<Rightarrow> kf_out" where
  "kf_dequeue n s DeqHead = (s, Next (DeqTail (kf_head s)))"
| "kf_dequeue n s (DeqTail head_old) = (s, if kf_k s = 0 then Fault (Undefined ''mod'')
     else Next (DeqFind head_old (kf_tail s) (of_nat n mod kf_k s) 0))"
| "kf_dequeue n s (DeqFind head_old tail_old r i) = (s, case kf_find_index s (val head_old) False r i of
     Wild \<Rightarrow> Fault Wild_Deref
   | More j \<Rightarrow> Next (DeqFind head_old tail_old r j)
   | Hit index old \<Rightarrow> Next (DeqCheck head_old tail_old (Some (index, old)))
   | Miss \<Rightarrow> Next (DeqCheck head_old tail_old None))"
| "kf_dequeue n s (DeqCheck head_old tail_old found) = (s, if head_old = kf_head s then
     (case found of
        Some (index, old) \<Rightarrow> if val head_old = val tail_old then Next (DeqAdvTail tail_old index old)
          else Next (DeqCas index old)
      | None \<Rightarrow> if val head_old = val tail_old then Next (DeqEmpty head_old tail_old)
          else Next (DeqAdvHead head_old))
     else Next DeqHead)"
| "kf_dequeue n s (DeqAdvTail tail_old index old) = (kf_advance_tail tail_old s, Next (DeqCas index old))"
| "kf_dequeue n s (DeqCas index old) =
     (case slot_cas (kf_queue s) index old (cell 0 (aba old + 1)) of
        None \<Rightarrow> (s, Fault Wild_Deref)
      | Some (queue', b) \<Rightarrow> (s\<lparr>kf_queue := queue'\<rparr>,
          if b then Return (DeqRes (Some (val old))) else Next DeqHead))"
| "kf_dequeue n s (DeqEmpty head_old tail_old) = (s,
     if val tail_old = val (kf_tail s) then Return (DeqRes None) else Next (DeqAdvHead head_old))"
| "kf_dequeue n s (DeqAdvHead head_old) = (kf_advance_head head_old s, Next DeqHead)"
| "kf_dequeue n s p = (s, Fault (Undefined ''dequeue''))"

fun kf_start :: "kf_op \<Rightarrow> kf_pc" where
  "kf_start (Enq item) = EnqEntry item"
| "kf_start Deq = DeqHead"

fun kf_in_enqueue :: "kf_pc \<Rightarrow> bool" where
  "kf_in_enqueue p \<longleftrightarrow> (case p of EnqEntry _ \<Rightarrow> True | EnqTail _ \<Rightarrow> True | EnqHead _ _ \<Rightarrow> True
     | EnqFind _ _ _ _ _ \<Rightarrow> True | EnqCheck _ _ _ _ \<Rightarrow> True | EnqCas _ _ _ _ \<Rightarrow> True
     | FullHead _ _ _ \<Rightarrow> True | FullSegment _ _ _ _ \<Rightarrow> True | FullSame _ _ _ \<Rightarrow> True
     | EnqAdvHead _ _ _ \<Rightarrow> True | EnqAdvTail _ _ \<Rightarrow> True | _ \<Rightarrow> False)"

fun kf_in_committed :: "kf_pc \<Rightarrow> bool" where
  "kf_in_committed p \<longleftrightarrow> (case p of ComItem _ _ _ _ \<Rightarrow> True | ComTail _ _ _ _ \<Rightarrow> True
     | ComHead _ _ _ _ _ \<Rightarrow> True | ComBump _ _ _ _ \<Rightarrow> True | ComUndo _ _ _ \<Rightarrow> True | _ \<Rightarrow> False)"

definition kf_body :: "tid \<Rightarrow> nat \<Rightarrow> kfifo \<Rightarrow> kf_pc \<Rightarrow> kf_out" where
  "kf_body t n s p = (if kf_in_committed p then kf_committed s p
     else if kf_in_enqueue p then kf_enqueue n s p else kf_dequeue n s p)"

definition kf_prog :: "(kfifo, kf_op, kf_res, kf_pc) prog" where
  "kf_prog = \<lparr>start = kf_start, body = kf_body\<rparr>"

lemma kf_prog_simps [simp]: "start kf_prog = kf_start" "body kf_prog = kf_body"
  by (simp_all add: kf_prog_def)

section \<open>Invariant and assertions\<close>

text \<open>
  The numbers of slots never change; what a thread holds are indices inside the array, the
  copy of a free slot before it inserts, the copy of a used slot before it removes.
\<close>

definition kf_ok :: "u64 \<Rightarrow> u64 \<Rightarrow> bool" where
  "kf_ok k m \<longleftrightarrow> k \<noteq> 0 \<and> k * m \<noteq> 0"

definition kf_call_ok :: "u64 \<Rightarrow> u64 \<Rightarrow> tid \<Rightarrow> kf_op \<Rightarrow> bool" where
  "kf_call_ok k m t op \<longleftrightarrow> kf_ok k m \<and> op \<noteq> Enq 0"

definition kf_inv :: "u64 \<Rightarrow> u64 \<Rightarrow> kfifo \<Rightarrow> bool" where
  "kf_inv k m s \<longleftrightarrow> kf_k s = k \<and> kf_size s = k * m \<and> length (kf_queue s) = unat (k * m)"

definition found_ok :: "u64 \<Rightarrow> (slot \<Rightarrow> bool) \<Rightarrow> found \<Rightarrow> bool" where
  "found_ok sz Q f \<longleftrightarrow> (case f of None \<Rightarrow> True | Some (i, c) \<Rightarrow> i < sz \<and> Q c)"

lemma found_ok_simps [simp]: "found_ok sz Q None" "found_ok sz Q (Some (i, c)) \<longleftrightarrow> i < sz \<and> Q c"
  by (simp_all add: found_ok_def)

fun kf_assert :: "u64 \<Rightarrow> kf_op \<Rightarrow> kf_pc \<Rightarrow> bool" where
  "kf_assert sz op (EnqEntry x) \<longleftrightarrow> op = Enq x"
| "kf_assert sz op (EnqTail x) \<longleftrightarrow> op = Enq x"
| "kf_assert sz op (EnqHead x tp) \<longleftrightarrow> op = Enq x"
| "kf_assert sz op (EnqFind x tp hp r i) \<longleftrightarrow> op = Enq x"
| "kf_assert sz op (EnqCheck x tp hp f) \<longleftrightarrow> op = Enq x \<and> found_ok sz (\<lambda>c. val c = 0) f"
| "kf_assert sz op (EnqCas x tp i c) \<longleftrightarrow> op = Enq x \<and> i < sz \<and> val c = 0"
| "kf_assert sz op (ComItem x tp i c) \<longleftrightarrow> op = Enq x \<and> i < sz \<and> val c = x"
| "kf_assert sz op (ComTail x tp i c) \<longleftrightarrow> op = Enq x \<and> i < sz \<and> val c = x"
| "kf_assert sz op (ComHead x tp i c tc) \<longleftrightarrow> op = Enq x \<and> i < sz \<and> val c = x"
| "kf_assert sz op (ComBump x i c hc) \<longleftrightarrow> op = Enq x \<and> i < sz \<and> val c = x"
| "kf_assert sz op (ComUndo x i c) \<longleftrightarrow> op = Enq x \<and> i < sz \<and> val c = x"
| "kf_assert sz op (FullHead x tp hp) \<longleftrightarrow> op = Enq x"
| "kf_assert sz op (FullSegment x tp hp i) \<longleftrightarrow> op = Enq x"
| "kf_assert sz op (FullSame x tp hp) \<longleftrightarrow> op = Enq x"
| "kf_assert sz op (EnqAdvHead x tp hp) \<longleftrightarrow> op = Enq x"
| "kf_assert sz op (EnqAdvTail x tp) \<longleftrightarrow> op = Enq x"
| "kf_assert sz op (DeqCheck hp tp f) \<longleftrightarrow> op = Deq \<and> found_ok sz (\<lambda>c. val c \<noteq> 0) f"
| "kf_assert sz op (DeqAdvTail tp i c) \<longleftrightarrow> op = Deq \<and> i < sz \<and> val c \<noteq> 0"
| "kf_assert sz op (DeqCas i c) \<longleftrightarrow> op = Deq \<and> i < sz \<and> val c \<noteq> 0"
| "kf_assert sz op p \<longleftrightarrow> op = Deq"

definition kf_pinv :: "u64 \<Rightarrow> u64 \<Rightarrow> tid \<Rightarrow> kf_op \<Rightarrow> kf_pc \<Rightarrow> bool" where
  "kf_pinv k m t op p \<longleftrightarrow> kf_call_ok k m t op \<and> kf_assert (k * m) op p"

definition kf_items :: "kfifo \<Rightarrow> u64 multiset" where
  "kf_items s = slot_items (kf_queue s)"

fun kf_put :: "kf_op \<Rightarrow> u64 option" where
  "kf_put (Enq x) = Some x" | "kf_put Deq = None"

fun kf_stored :: "kf_op \<Rightarrow> kf_res \<Rightarrow> u64 option" where
  "kf_stored (Enq x) (EnqRes b) = (if b then Some x else None)" | "kf_stored op r = None"

fun kf_got :: "kf_op \<Rightarrow> kf_res \<Rightarrow> u64 option" where
  "kf_got Deq (DeqRes y) = y" | "kf_got op r = None"

text \<open>Between the compare-and-swap that inserts the item and the answer of committed.\<close>

fun kf_inserted :: "kf_pc \<Rightarrow> u64 option" where
  "kf_inserted (ComItem x tp i c) = Some x"
| "kf_inserted (ComTail x tp i c) = Some x"
| "kf_inserted (ComHead x tp i c tc) = Some x"
| "kf_inserted (ComBump x i c hc) = Some x"
| "kf_inserted (ComUndo x i c) = Some x"
| "kf_inserted p = None"

section \<open>One step\<close>

text \<open>
  Every step keeps the numbers of slots, keeps the assertion of the thread, does not fault,
  and balances the items in the slots against what the thread has inserted and returns.
\<close>

definition kf_fine :: "u64 \<Rightarrow> u64 \<Rightarrow> tid \<Rightarrow> kf_op \<Rightarrow> kfifo \<Rightarrow> kf_pc \<Rightarrow> kf_out \<Rightarrow> bool" where
  "kf_fine k m t op s p o' \<longleftrightarrow> kf_inv k m (fst o') \<and>
     (case snd o' of Next p' \<Rightarrow> kf_pinv k m t op p' | Return r \<Rightarrow> True | Fault e \<Rightarrow> False) \<and>
     kf_items (fst o') + out_item (\<lambda>_. None) (kf_got op) (snd o') + one (kf_inserted p) =
     kf_items s + out_item kf_inserted (kf_stored op) (snd o')"

lemma kf_index_less: "kf_ok k m \<Longrightarrow> x mod (k * m) < k * m"
  by (simp add: kf_ok_def word_mod_less_divisor word_gt_0)

lemma kf_slot_in: "kf_inv k m s \<Longrightarrow> i < k * m \<Longrightarrow> unat i < length (kf_queue s)"
  by (simp add: kf_inv_def word_less_nat_alt)

lemma kf_find_cases [consumes 2, case_names hit more miss]:
  assumes "kf_inv k m s" "kf_ok k m"
  obtains (hit) i c where "kf_find_index s a free r j = Hit i c" "i < k * m" "free \<longleftrightarrow> val c = 0"
    | (more) i where "kf_find_index s a free r j = More i"
    | (miss) "kf_find_index s a free r j = Miss"
proof (cases "kf_find_index s a free r j")
  case (Hit i c)
  then show thesis using hit scan_Hit kf_index_less [OF assms(2)] assms(1)
    by (metis kf_find_index_def kf_inv_def)
next
  case Wild
  then show thesis using scan_Wild kf_slot_in [OF assms(1)] kf_index_less [OF assms(2)] assms(1)
    by (metis kf_find_index_def kf_inv_def)
qed (use more miss in auto)

lemma kf_advance_simps [simp]:
  "kf_inv k m (kf_advance_head c s) = kf_inv k m s" "kf_inv k m (kf_advance_tail c s) = kf_inv k m s"
  "kf_items (kf_advance_head c s) = kf_items s" "kf_items (kf_advance_tail c s) = kf_items s"
  by (simp_all add: kf_advance_head_def kf_advance_tail_def kf_inv_def kf_items_def)

text \<open>A compare-and-swap on a slot, as every method does it.\<close>

lemma kf_cas_cases [consumes 2, case_names hit miss]:
  assumes "kf_inv k m s" "i < k * m"
  obtains (hit) q where "slot_cas (kf_queue s) i old new = Some (q, True)" "kf_inv k m (s\<lparr>kf_queue := q\<rparr>)"
      "slot_items q + one (item_of (val old)) = kf_items s + one (item_of (val new))"
    | (miss) "slot_cas (kf_queue s) i old new = Some (kf_queue s, False)"
proof (cases "slot_cas (kf_queue s) i old new")
  case None
  then show thesis using kf_slot_in [OF assms] by simp
next
  case (Some qb)
  obtain q b where qb: "qb = (q, b)" by (cases qb)
  from Some [unfolded qb] show thesis
  proof (cases rule: slot_cas_cases)
    case hit
    then show thesis using Some qb assms(1) that(1) [of q] by (simp add: kf_inv_def kf_items_def)
  next
    case miss
    then show thesis using Some qb that(2) by simp
  qed
qed

lemmas kf_step_simps = kf_fine_def kf_body_def kf_pinv_def kf_call_ok_def Let_def kf_back_def

lemma kf_step_enqueue:
  assumes "kf_inv k m s" "kf_pinv k m t op p" "kf_in_enqueue p"
  shows "kf_fine k m t op s p (kf_enqueue n s p)"
proof -
  have ok: "kf_ok k m" and op: "op \<noteq> Enq 0" and a: "kf_assert (k * m) op p"
    using assms(2) by (simp_all add: kf_pinv_def kf_call_ok_def)
  have k: "kf_k s \<noteq> 0" using assms(1) ok by (simp add: kf_inv_def kf_ok_def)
  show ?thesis
  proof (cases p)
    case (EnqFind x tp hp r i)
    show ?thesis
      by (cases rule: kf_find_cases [OF assms(1) ok, of "val tp" True r i])
        (use EnqFind assms(1) ok op a in \<open>simp_all add: kf_step_simps\<close>)
  next
    case (EnqCheck x tp hp f)
    show ?thesis using EnqCheck assms(1) ok op a
      by (cases f) (auto simp: kf_step_simps)
  next
    case (EnqCas x tp i c)
    then have i: "i < k * m" using a by simp
    show ?thesis
      by (cases rule: kf_cas_cases [OF assms(1) i, of c "cell x (aba c + 1)"])
        (use EnqCas assms(1) ok op a in \<open>simp_all add: kf_step_simps kf_items_def\<close>)
  next
    case (FullSegment x tp hp i)
    have "kf_segment_not_empty s (val hp) i \<noteq> Wild"
      unfolding kf_segment_not_empty_def
      by (rule scan_Wild) (use kf_slot_in [OF assms(1) kf_index_less [OF ok]] assms(1) in \<open>simp add: kf_inv_def\<close>)
    then show ?thesis using FullSegment assms(1) ok op a
      by (cases "kf_segment_not_empty s (val hp) i") (simp_all add: kf_step_simps)
  qed (use assms ok op a k in \<open>simp_all add: kf_step_simps\<close>)
qed

lemma kf_step_committed:
  assumes "kf_inv k m s" "kf_pinv k m t op p" "kf_in_committed p"
  shows "kf_fine k m t op s p (kf_committed s p)"
proof -
  have ok: "kf_ok k m" and op: "op \<noteq> Enq 0" and a: "kf_assert (k * m) op p"
    using assms(2) by (simp_all add: kf_pinv_def kf_call_ok_def)
  show ?thesis
  proof (cases p)
    case (ComItem x tp i c)
    then have "unat i < length (kf_queue s)" using kf_slot_in [OF assms(1)] a by simp
    then show ?thesis using ComItem assms(1) ok op a
      by (simp add: kf_step_simps slot_at_def)
  next
    case (ComBump x i c hc)
    show ?thesis using ComBump assms(1) ok op a
      by (cases "kf_head s = hc") (simp_all add: kf_step_simps cas_def kf_inv_def kf_items_def)
  next
    case (ComUndo x i c)
    then have i: "i < k * m" using a by simp
    show ?thesis
      by (cases rule: kf_cas_cases [OF assms(1) i, of c "cell 0 (aba c + 1)"])
        (use ComUndo assms(1) ok op a in \<open>simp_all add: kf_step_simps kf_items_def\<close>)
  qed (use assms ok op a in \<open>simp_all add: kf_step_simps\<close>)
qed

lemma kf_step_dequeue:
  assumes "kf_inv k m s" "kf_pinv k m t op p" "\<not> kf_in_committed p" "\<not> kf_in_enqueue p"
  shows "kf_fine k m t op s p (kf_dequeue n s p)"
proof -
  have ok: "kf_ok k m" and op: "op \<noteq> Enq 0" and a: "kf_assert (k * m) op p"
    using assms(2) by (simp_all add: kf_pinv_def kf_call_ok_def)
  have k: "kf_k s \<noteq> 0" using assms(1) ok by (simp add: kf_inv_def kf_ok_def)
  show ?thesis
  proof (cases p)
    case (DeqFind hp tp r i)
    show ?thesis
      by (cases rule: kf_find_cases [OF assms(1) ok, of "val hp" False r i])
        (use DeqFind assms(1) ok op a in \<open>simp_all add: kf_step_simps\<close>)
  next
    case (DeqCheck hp tp f)
    show ?thesis using DeqCheck assms(1) ok op a
      by (cases f) (auto simp: kf_step_simps)
  next
    case (DeqCas i c)
    then have i: "i < k * m" using a by simp
    show ?thesis
      by (cases rule: kf_cas_cases [OF assms(1) i, of c "cell 0 (aba c + 1)"])
        (use DeqCas assms(1) ok op a in \<open>simp_all add: kf_step_simps kf_items_def\<close>)
  qed (use assms ok op a k in \<open>simp_all add: kf_step_simps\<close>)
qed

lemma kf_step_fine:
  assumes "kf_inv k m s" "kf_pinv k m t op p"
  shows "kf_fine k m t op s p (kf_body t n s p)"
  using kf_step_committed [OF assms] kf_step_enqueue [OF assms] kf_step_dequeue [OF assms]
  by (simp add: kf_body_def)

lemma kf_item_stored: "kf_stored op r = Some x \<Longrightarrow> kf_put op = Some x"
  by (cases op; cases r) (auto split: if_splits)

lemma kf_item_inserted: "kf_pinv k m t op p \<Longrightarrow> kf_inserted p = Some x \<Longrightarrow> kf_put op = Some x"
  by (cases p) (auto simp: kf_pinv_def)

interpretation kf: item_pool kf_prog "kf_init k m" "kf_call_ok k m" "kf_inv k m"
    "\<lambda>_. kf_pinv k m" "\<lambda>_. {} :: unit set" "\<lambda>_. {}" "\<lambda>_. {}" "\<lambda>_. {}" "\<lambda>_. {}" "\<lambda>_ _ _ _. True" "\<lambda>_ _. True"
    kf_items kf_put kf_stored kf_got "\<lambda>_ _. kf_inserted" "\<lambda>_ _ _. None" for k m
proof (unfold_locales, goal_cases)
  case 1 show ?case by (simp add: kf_inv_def kf_init_def)
next
  case (2 s t op) then show ?case by (cases op) (auto simp: kf_pinv_def kf_call_ok_def)
next
  case (8 s t op p n s' out)
  then show ?case using kf_step_fine [OF 8(1,2), of n] by (simp add: kf_fine_def)
next
  case (9 s t op p n s' p')
  then show ?case using kf_step_fine [OF 9(1,2), of n] by (simp add: kf_fine_def)
next
  case (10 s t op p n s' e)
  then show ?case using kf_step_fine [OF 10(1,2), of n] by (auto simp: kf_fine_def)
next
  case 16 show ?case by (simp add: kf_items_def kf_init_def)
next
  case (17 s op) then show ?case by (cases op) simp_all
next
  case 18 then show ?case by (rule kf_item_stored)
next
  case 19 then show ?case using kf_item_inserted by blast
next
  case (20 s t op p n s' out)
  then show ?case using kf_step_fine [OF 20(1,2), of n] by (simp add: kf_fine_def)
qed simp_all

section \<open>A full queue whose head has passed the end of the array\<close>

definition kf_stuck :: "kfifo \<Rightarrow> bool" where
  "kf_stuck s \<longleftrightarrow> kf_size s \<le> val (kf_head s) \<and> (\<forall>c \<in> set (kf_queue s). val c \<noteq> 0)"

fun kf_looping :: "kfifo \<Rightarrow> u64 \<Rightarrow> kf_pc \<Rightarrow> bool" where
  "kf_looping s x (EnqTail y) \<longleftrightarrow> y = x"
| "kf_looping s x (EnqHead y tp) \<longleftrightarrow> y = x"
| "kf_looping s x (EnqFind y tp hp r i) \<longleftrightarrow> y = x \<and> kf_size s \<le> val hp"
| "kf_looping s x (EnqCheck y tp hp f) \<longleftrightarrow> y = x \<and> kf_size s \<le> val hp \<and> f = None"
| "kf_looping s x (FullHead y tp hp) \<longleftrightarrow> y = x \<and> kf_size s \<le> val hp"
| "kf_looping s x (EnqAdvTail y tp) \<longleftrightarrow> y = x"
| "kf_looping s x p \<longleftrightarrow> False"

lemma kf_full_find:
  assumes "kf_inv k m s" "kf_ok k m" "kf_stuck s"
  shows "kf_find_index s a True r j = Miss \<or> (\<exists>i. kf_find_index s a True r j = More i)"
  using assms(1,2)
proof (cases rule: kf_find_cases [where a = a and free = True and r = r and j = j])
  case (hit i c)
  have "c \<in> set (kf_queue s)"
    using hit(1) assms(1) kf_slot_in [OF assms(1) hit(2)]
    by (auto simp: kf_find_index_def scan_slot_def split: if_splits option.splits)
  then show ?thesis using hit assms(3) by (auto simp: kf_stuck_def)
qed auto

lemma kf_looping_step:
  assumes "kf_inv k m s" "kf_ok k m" "kf_stuck s" "kf_looping s x p"
  obtains s' p' where "kf_body t n s p = (s', Next p')" "kf_inv k m s'" "kf_stuck s'" "kf_looping s' x p'"
proof -
  have k: "kf_k s \<noteq> 0" using assms(1,2) by (simp add: kf_inv_def kf_ok_def)
  have size: "a mod kf_size s < kf_size s" for a
    using kf_index_less [OF assms(2)] assms(1) by (simp add: kf_inv_def)
  have nf: "\<not> kf_queue_full s a b" if "kf_size s \<le> a" for a b
    using size [of "b + kf_k s"] that by (auto simp: kf_queue_full_def)
  have adv: "kf_stuck (kf_advance_tail c s)" for c
    using assms(3) by (simp add: kf_stuck_def kf_advance_tail_def)
  show thesis
  proof (cases p)
    case (EnqFind y tp hp r i)
    show thesis
      using kf_full_find [OF assms(1-3), of "val tp" r i] that assms EnqFind by (auto simp: kf_body_def)
  next
    case (EnqCheck y tp hp f)
    then show thesis using that assms by (cases "tp = kf_tail s") (simp_all add: kf_body_def)
  next
    case (FullHead y tp hp)
    then show thesis using that assms nf by (simp add: kf_body_def)
  next
    case (EnqAdvTail y tp)
    then show thesis using that assms adv by (simp add: kf_body_def)
  qed (use that assms k in \<open>simp_all add: kf_body_def kf_stuck_def\<close>)
qed

lemma kf_looping_alone:
  assumes "kf_inv k m (shared c)" "kf_ok k m" "kf_stuck (shared c)"
    and "threads c t = Run op p" "kf_looping (shared c) x p"
  shows "\<exists>q. threads (exec kf_prog (alone t ns) c) t = Run op q"
  using assms
proof (induction ns arbitrary: c p)
  case (Cons n ns)
  obtain s' p' where b: "kf_body t n (shared c) p = (s', Next p')" "kf_inv k m s'" "kf_stuck s'" "kf_looping s' x p'"
    by (rule kf_looping_step [OF Cons.prems(1,2,3,5)])
  have c': "step kf_prog (t, Go n) c = \<lparr>shared = s', threads = (threads c)(t := Run op p')\<rparr>"
    using b(1) Cons.prems(4) by (simp add: step_Go)
  show ?case using Cons.IH [of "step kf_prog (t, Go n) c" p'] b Cons.prems(2) by (simp add: c')
qed simp

section \<open>Properties\<close>

abbreviation kf_run :: "u64 \<Rightarrow> u64 \<Rightarrow> kf_op sched \<Rightarrow> (kfifo, kf_op, kf_res, kf_pc) config" where
  "kf_run k m es \<equiv> exec kf_prog es (init (kf_init k m))"

abbreviation no_null :: "kf_op sched \<Rightarrow> bool" where
  "no_null es \<equiv> list_all (valid_call (\<lambda>t op. op \<noteq> Enq 0)) es"

lemma no_null_ok: "kf_ok k m \<Longrightarrow> no_null es \<Longrightarrow> list_all (valid_call (kf_call_ok k m)) es"
  by (simp add: kf_call_ok_def [abs_def])

text \<open>
  C29: the bounded-size k-FIFO queue loses, duplicates and invents no item: whatever the
  interleaving of the calls, the items in its slots together with those dequeued are among
  those that enqueue was called with, as often; and when no call is running they are exactly
  those that enqueue accepted. No thread indexes the array out of its range.
\<close>

theorem kfifo_conservation:
  assumes "kf_ok k m" "no_null es"
  defines "c \<equiv> kf_run k m es" and "H \<equiv> history kf_prog es (init (kf_init k m))"
  shows "kf_items (shared c) + ret_items kf_got H \<subseteq># inv_items kf_put H \<and>
    ((\<forall>t. threads c t = Idle) \<longrightarrow> kf_items (shared c) + ret_items kf_got H = ret_items kf_stored H) \<and>
    (\<forall>t op e. threads c t \<noteq> Dead op e)"
  using kf.pool_no_invention [OF no_null_ok [OF assms(1,2)]] kf.pool_conserved [OF no_null_ok [OF assms(1,2)]]
    kf.og_no_fault [OF no_null_ok [OF assms(1,2)]] unfolding c_def H_def by blast

definition kf_two_threads :: "kf_op sched" where
  "kf_two_threads = [(0, Call (Enq 5)), (1, Call (Enq 6))] @
     concat (replicate 24 [(0, Go 0), (1, Go 1)]) @ [(0, Leave), (1, Leave), (0, Call Deq)] @
     replicate 8 (0, Go 0) @ [(0, Leave)]"

lemma kf_two_threads_ok: "kf_ok 2 2 \<and> no_null kf_two_threads"
  by code_simp

lemma kf_two_threads_idle: "threads (kf_run 2 2 kf_two_threads) t = Idle"
proof -
  have "threads (kf_run 2 2 kf_two_threads) 0 = Idle \<and> threads (kf_run 2 2 kf_two_threads) 1 = Idle" by code_simp
  moreover have "threads (kf_run 2 2 kf_two_threads) t = Idle" if "t \<noteq> 0" "t \<noteq> 1"
    using that by (subst exec_other) (simp_all add: kf_two_threads_def)
  ultimately show ?thesis by (cases "t = 0"; cases "t = 1") simp_all
qed

theorem kfifo_conservation_witness:
  "kf_items (shared (kf_run 2 2 kf_two_threads)) + {#5#} = {#5, 6#}"
proof -
  let ?H = "history kf_prog kf_two_threads (init (kf_init 2 2))"
  have "ret_items kf_got ?H = {#5#} \<and> ret_items kf_stored ?H = {#5, 6#}" by code_simp
  then show ?thesis
    using kfifo_conservation [of 2 2 kf_two_threads] kf_two_threads_ok kf_two_threads_idle by simp
qed

text \<open>
  C30: a queue that filled up after its head moved past the end of the array is never
  reported as full: enqueue, running alone, goes round its loop for ever. advance_head
  and advance_tail count up without bound, and queue_full compares the unbounded head with
  a tail that it reduces modulo the size of the array.
\<close>

theorem kfifo_full_livelock:
  assumes "kf_ok k m" "no_null es" "kf_stuck (shared (kf_run k m es))"
    and "threads (kf_run k m es) t = Run (Enq x) (EnqTail x)"
  shows "threads (kf_run k m (es @ alone t ns)) t \<noteq> Resp (Enq x) r"
  using kf_looping_alone [OF kf.og_reach_sinv [OF no_null_ok [OF assms(1,2)]] assms(1,3,4), of x ns] by auto

fun kf_calls :: "kf_op list \<Rightarrow> kf_op sched" where
  "kf_calls [] = []"
| "kf_calls (op # ops) = (0, Call op) # replicate 20 (0, Go 0) @ (0, Leave) # kf_calls ops"

definition kf_wrapped :: "kf_op sched" where
  "kf_wrapped = kf_calls [Enq 1, Enq 2, Deq, Deq, Enq 5, Enq 6] @ [(0, Call (Enq 7)), (0, Go 0)]"

theorem kfifo_full_livelock_witness:
  "\<forall>ns r. threads (kf_run 1 2 (kf_wrapped @ alone 0 ns)) 0 \<noteq> Resp (Enq 7) r"
proof (intro allI, rule kfifo_full_livelock)
  show "kf_ok 1 2" by code_simp
  show "no_null kf_wrapped" by code_simp
  show "kf_stuck (shared (kf_run 1 2 kf_wrapped))" by code_simp
  show "threads (kf_run 1 2 kf_wrapped) 0 = Run (Enq 7) (EnqTail 7)" by code_simp
qed

text \<open>Enqueue aborts on the item NULL.\<close>

lemma kfifo_null_aborts:
  "threads (exec kf_prog [(t, Call (Enq 0)), (t, Go n)] (init (kf_init k m))) t = Dead (Enq 0) (Abort ''enqueue'')"
  by (simp add: step_Go kf_body_def)

end
