(* ===== verification/Unbounded_KFifo.thy ===== *)
theory Unbounded_KFifo
  imports Solo Bounded_KFifo
begin

text \<open>
  The unbounded-size k-FIFO queue, src/src/datastructures/unboundedsize_kfifo.h: a linked
  list of segments of k slots, a head and a tail. enqueue fills a free slot of the tail
  segment, dequeue empties a used slot of the head segment; an empty head segment is marked
  deleted and taken off. One step is one access to shared memory.
\<close>

section \<open>State and methods\<close>

record useg =
  us_next :: "addr acell"
  us_size :: u64
  us_deleted :: bool
  us_items :: "slot list"

record ukfifo =
  uk_head :: "addr acell"
  uk_tail :: "addr acell"
  uk_k :: u64
  uk_heap :: "useg heap"

definition ksegment_new :: "u64 \<Rightarrow> useg" where
  "ksegment_new k = \<lparr>us_next = cell NULL 0, us_size = k, us_deleted = False, us_items = free_slots (unat k)\<rparr>"

definition uk_init :: "u64 \<Rightarrow> addr \<Rightarrow> ukfifo" where
  "uk_init k a = \<lparr>uk_head = cell a 0, uk_tail = cell a 0, uk_k = k, uk_heap = [a \<mapsto> ksegment_new k]\<rparr>"

text \<open>advance_tail is called by enqueue, and by dequeue on its way to the slot it found.\<close>

datatype caller = ByEnqueue u64 | ByDequeue "addr acell" u64 slot

datatype uk_pc =
    UEntry u64
  | UTail u64
  | UHead u64 "addr acell"
  | UFind u64 "addr acell" u64 u64
  | UCheck u64 "addr acell" found
  | UCas u64 "addr acell" u64 slot
  | UComItem u64 "addr acell" u64 slot
  | UComHead u64 "addr acell" u64 slot
  | UComDeleted u64 "addr acell" u64 slot "addr acell"
  | UComTail u64 "addr acell" u64 slot
  | UComBump u64 "addr acell" u64 slot "addr acell"
  | UComUndo u64 "addr acell" u64 slot
  | ATCurrent caller "addr acell"
  | ATNext caller "addr acell"
  | ATCheck caller "addr acell" "addr acell"
  | ATSwing caller "addr acell" "addr acell"
  | ATAlloc caller "addr acell" "addr acell"
  | ATLink caller "addr acell" "addr acell" addr
  | ATSet caller "addr acell" addr
  | UDHead
  | UDFind "addr acell" u64 u64
  | UDTail "addr acell" found
  | UDCheck "addr acell" found "addr acell"
  | UDCas "addr acell" u64 slot
  | AHCurrent "addr acell"
  | AHTail "addr acell"
  | AHTailNext "addr acell" "addr acell"
  | AHHeadNext "addr acell" "addr acell" "addr acell"
  | AHCheck "addr acell" "addr acell" "addr acell" "addr acell"
  | AHTailCheck "addr acell" "addr acell" "addr acell" "addr acell"
  | AHSwing "addr acell" "addr acell" "addr acell" "addr acell"
  | AHDelete "addr acell" "addr acell"
  | AHSet "addr acell" "addr acell"

type_synonym uk_out = "ukfifo \<times> (uk_pc, kf_res) outcome"

definition at_seg :: "ukfifo \<Rightarrow> addr \<Rightarrow> (useg \<Rightarrow> uk_out) \<Rightarrow> uk_out" where
  "at_seg s a f = (case uk_heap s a of None \<Rightarrow> (s, Fault (fault_at a)) | Some sg \<Rightarrow> f sg)"

definition put_seg :: "ukfifo \<Rightarrow> addr \<Rightarrow> useg \<Rightarrow> ukfifo" where
  "put_seg s a sg = s\<lparr>uk_heap := (uk_heap s)(a \<mapsto> sg)\<rparr>"

definition item_cas :: "ukfifo \<Rightarrow> addr \<Rightarrow> u64 \<Rightarrow> slot \<Rightarrow> slot \<Rightarrow> (bool \<Rightarrow> (uk_pc, kf_res) outcome) \<Rightarrow> uk_out" where
  "item_cas s a index old new out = at_seg s a (\<lambda>sg. case slot_cas (us_items sg) index old new of
       None \<Rightarrow> (s, Fault Wild_Deref)
     | Some (items', b) \<Rightarrow> (put_seg s a (sg\<lparr>us_items := items'\<rparr>), out b))"

definition uk_find_index :: "useg \<Rightarrow> bool \<Rightarrow> u64 \<Rightarrow> u64 \<Rightarrow> scan" where
  "uk_find_index sg free random_index i =
     scan_slot (us_items sg) free (us_size sg) ((random_index + i) mod us_size sg) i"

text \<open>pseudorand() % start_index->k\<close>

definition uk_draw :: "useg \<Rightarrow> nat \<Rightarrow> (u64 \<Rightarrow> uk_pc) \<Rightarrow> (uk_pc, kf_res) outcome" where
  "uk_draw sg n f = (if us_size sg = 0 then Fault (Undefined ''mod'') else Next (f (of_nat n mod us_size sg)))"

definition uk_back :: "u64 \<Rightarrow> bool \<Rightarrow> (uk_pc, kf_res) outcome" where
  "uk_back item b = (if b then Return (EnqRes True) else Next (UTail item))"

fun uk_committed :: "ukfifo \<Rightarrow> uk_pc \<Rightarrow> uk_out" where
  "uk_committed s (UComItem item tail_old index new) = at_seg s (val tail_old) (\<lambda>sg. (s,
     case slot_at (us_items sg) index of None \<Rightarrow> Fault Wild_Deref
     | Some c \<Rightarrow> if c \<noteq> new then uk_back item True else Next (UComHead item tail_old index new)))"
| "uk_committed s (UComHead item tail_old index new) = (s, Next (UComDeleted item tail_old index new (uk_head s)))"
| "uk_committed s (UComDeleted item tail_old index new head_current) = at_seg s (val tail_old) (\<lambda>sg. (s,
     Next (if us_deleted sg then UComUndo item tail_old index new
       else if val tail_old = val head_current then UComBump item tail_old index new head_current
       else UComTail item tail_old index new)))"
| "uk_committed s (UComTail item tail_old index new) = at_seg s (val tail_old) (\<lambda>sg. (s,
     if \<not> us_deleted sg then uk_back item True else Next (UComUndo item tail_old index new)))"
| "uk_committed s (UComBump item tail_old index new head_current) =
     (let (head', b) = cas (uk_head s) head_current (cell (val head_current) (aba head_current + 1))
      in (s\<lparr>uk_head := head'\<rparr>, if b then uk_back item True else Next (UComUndo item tail_old index new)))"
| "uk_committed s (UComUndo item tail_old index new) =
     item_cas s (val tail_old) index new (cell 0 0) (\<lambda>b. uk_back item (\<not> b))"
| "uk_committed s p = (s, Fault (Undefined ''committed''))"

text \<open>The return of advance_tail.\<close>

fun tail_done :: "caller \<Rightarrow> uk_pc" where
  "tail_done (ByEnqueue item) = UTail item"
| "tail_done (ByDequeue head_old index old) = UDCas head_old index old"

fun uk_advance_tail :: "nat \<Rightarrow> ukfifo \<Rightarrow> uk_pc \<Rightarrow> uk_out" where
  "uk_advance_tail n s (ATCurrent k tail_old) = (s, Next (if uk_tail s = tail_old then ATNext k tail_old else tail_done k))"
| "uk_advance_tail n s (ATNext k tail_old) = at_seg s (val tail_old) (\<lambda>sg. (s, Next (ATCheck k tail_old (us_next sg))))"
| "uk_advance_tail n s (ATCheck k tail_old next_ksegment) = (s, Next (if tail_old = uk_tail s
     then (if val next_ksegment \<noteq> NULL then ATSwing k tail_old next_ksegment else ATAlloc k tail_old next_ksegment)
     else tail_done k))"
| "uk_advance_tail n s (ATSwing k tail_old next_ksegment) =
     (s\<lparr>uk_tail := fst (cas (uk_tail s) tail_old (cell (val next_ksegment) (aba next_ksegment + 1)))\<rparr>, Next (tail_done k))"
| "uk_advance_tail n s (ATAlloc k tail_old next_ksegment) = (if is_fresh (uk_heap s) n
     then (put_seg s n (ksegment_new (uk_k s)), Next (ATLink k tail_old next_ksegment n))
     else (s, Next (ATAlloc k tail_old next_ksegment)))"
| "uk_advance_tail n s (ATLink k tail_old next_ksegment new) = at_seg s (val tail_old) (\<lambda>sg.
     let (next', b) = cas (us_next sg) next_ksegment (cell new (aba next_ksegment + 1))
     in (put_seg s (val tail_old) (sg\<lparr>us_next := next'\<rparr>), Next (if b then ATSet k tail_old new else tail_done k)))"
| "uk_advance_tail n s (ATSet k tail_old new) =
     (s\<lparr>uk_tail := fst (cas (uk_tail s) tail_old (cell new (aba tail_old + 1)))\<rparr>, Next (tail_done k))"
| "uk_advance_tail n s p = (s, Fault (Undefined ''advance_tail''))"

fun uk_advance_head :: "ukfifo \<Rightarrow> uk_pc \<Rightarrow> uk_out" where
  "uk_advance_head s (AHCurrent head_old) = (s, Next (if uk_head s = head_old then AHTail head_old else UDHead))"
| "uk_advance_head s (AHTail head_old) = (s, Next (AHTailNext head_old (uk_tail s)))"
| "uk_advance_head s (AHTailNext head_old tail_current) = at_seg s (val tail_current) (\<lambda>sg.
     (s, Next (AHHeadNext head_old tail_current (us_next sg))))"
| "uk_advance_head s (AHHeadNext head_old tail_current tail_next) = at_seg s (val head_old) (\<lambda>sg.
     (s, Next (AHCheck head_old tail_current tail_next (us_next sg))))"
| "uk_advance_head s (AHCheck head_old tail_current tail_next head_next) = (s, Next (if head_old = uk_head s
     then (if val head_old = val tail_current
       then (if val tail_next = NULL then UDHead else AHTailCheck head_old tail_current tail_next head_next)
       else AHDelete head_old head_next)
     else UDHead))"
| "uk_advance_head s (AHTailCheck head_old tail_current tail_next head_next) = (s, Next (if tail_current = uk_tail s
     then AHSwing head_old tail_current tail_next head_next else AHDelete head_old head_next))"
| "uk_advance_head s (AHSwing head_old tail_current tail_next head_next) =
     (s\<lparr>uk_tail := fst (cas (uk_tail s) tail_current (cell (val tail_next) (aba tail_current + 1)))\<rparr>,
      Next (AHDelete head_old head_next))"
| "uk_advance_head s (AHDelete head_old head_next) = at_seg s (val head_old) (\<lambda>sg.
     (put_seg s (val head_old) (sg\<lparr>us_deleted := True\<rparr>), Next (AHSet head_old head_next)))"
| "uk_advance_head s (AHSet head_old head_next) =
     (s\<lparr>uk_head := fst (cas (uk_head s) head_old (cell (val head_next) (aba head_old + 1)))\<rparr>, Next UDHead)"
| "uk_advance_head s p = (s, Fault (Undefined ''advance_head''))"

fun uk_enqueue :: "nat \<Rightarrow> ukfifo \<Rightarrow> uk_pc \<Rightarrow> uk_out" where
  "uk_enqueue n s (UEntry item) = (s, if item = 0 then Fault (Abort ''enqueue'') else Next (UTail item))"
| "uk_enqueue n s (UTail item) = (s, Next (UHead item (uk_tail s)))"
| "uk_enqueue n s (UHead item tail_old) = at_seg s (val tail_old) (\<lambda>sg. (s, uk_draw sg n (\<lambda>r. UFind item tail_old r 0)))"
| "uk_enqueue n s (UFind item tail_old r i) = at_seg s (val tail_old) (\<lambda>sg. (s, case uk_find_index sg True r i of
     Wild \<Rightarrow> Fault Wild_Deref
   | More j \<Rightarrow> Next (UFind item tail_old r j)
   | Hit index old \<Rightarrow> Next (UCheck item tail_old (Some (index, old)))
   | Miss \<Rightarrow> Next (UCheck item tail_old None)))"
| "uk_enqueue n s (UCheck item tail_old found) = (s, Next (if tail_old = uk_tail s then
     (case found of
        Some (index, old) \<Rightarrow> UCas item tail_old index old
      | None \<Rightarrow> ATCurrent (ByEnqueue item) tail_old)
     else UTail item))"
| "uk_enqueue n s (UCas item tail_old index old) = (let new = cell item (aba old + 1) in
     item_cas s (val tail_old) index old new (\<lambda>b. Next (if b then UComItem item tail_old index new else UTail item)))"
| "uk_enqueue n s p = (s, Fault (Undefined ''enqueue''))"

fun uk_dequeue :: "nat \<Rightarrow> ukfifo \<Rightarrow> uk_pc \<Rightarrow> uk_out" where
  "uk_dequeue n s UDHead = at_seg s (val (uk_head s)) (\<lambda>sg. (s, uk_draw sg n (\<lambda>r. UDFind (uk_head s) r 0)))"
| "uk_dequeue n s (UDFind head_old r i) = at_seg s (val head_old) (\<lambda>sg. (s, case uk_find_index sg False r i of
     Wild \<Rightarrow> Fault Wild_Deref
   | More j \<Rightarrow> Next (UDFind head_old r j)
   | Hit index old \<Rightarrow> Next (UDTail head_old (Some (index, old)))
   | Miss \<Rightarrow> Next (UDTail head_old None)))"
| "uk_dequeue n s (UDTail head_old found) = (s, Next (UDCheck head_old found (uk_tail s)))"
| "uk_dequeue n s (UDCheck head_old found tail_old) = (s, if head_old = uk_head s then
     (case found of
        Some (index, old) \<Rightarrow> Next (if val head_old = val tail_old
          then ATCurrent (ByDequeue head_old index old) tail_old else UDCas head_old index old)
      | None \<Rightarrow> if val head_old = val tail_old then Return (DeqRes None) else Next (AHCurrent head_old))
     else Next UDHead)"
| "uk_dequeue n s (UDCas head_old index old) = item_cas s (val head_old) index old (cell 0 (aba old + 1))
     (\<lambda>b. if b then Return (DeqRes (Some (val old))) else Next UDHead)"
| "uk_dequeue n s p = (s, Fault (Undefined ''dequeue''))"

fun uk_start :: "kf_op \<Rightarrow> uk_pc" where
  "uk_start (Enq item) = UEntry item"
| "uk_start Deq = UDHead"

datatype uk_method = UEnqueue | UCommitted | UAdvTail | UDequeue | UAdvHead

definition uk_method :: "uk_pc \<Rightarrow> uk_method" where
  "uk_method p = (case p of
     UEntry _ \<Rightarrow> UEnqueue | UTail _ \<Rightarrow> UEnqueue | UHead _ _ \<Rightarrow> UEnqueue | UFind _ _ _ _ \<Rightarrow> UEnqueue
   | UCheck _ _ _ \<Rightarrow> UEnqueue | UCas _ _ _ _ \<Rightarrow> UEnqueue
   | UComItem _ _ _ _ \<Rightarrow> UCommitted | UComHead _ _ _ _ \<Rightarrow> UCommitted | UComDeleted _ _ _ _ _ \<Rightarrow> UCommitted
   | UComTail _ _ _ _ \<Rightarrow> UCommitted | UComBump _ _ _ _ _ \<Rightarrow> UCommitted | UComUndo _ _ _ _ \<Rightarrow> UCommitted
   | ATCurrent _ _ \<Rightarrow> UAdvTail | ATNext _ _ \<Rightarrow> UAdvTail | ATCheck _ _ _ \<Rightarrow> UAdvTail | ATSwing _ _ _ \<Rightarrow> UAdvTail
   | ATAlloc _ _ _ \<Rightarrow> UAdvTail | ATLink _ _ _ _ \<Rightarrow> UAdvTail | ATSet _ _ _ \<Rightarrow> UAdvTail
   | UDHead \<Rightarrow> UDequeue | UDFind _ _ _ \<Rightarrow> UDequeue | UDTail _ _ \<Rightarrow> UDequeue | UDCheck _ _ _ \<Rightarrow> UDequeue
   | UDCas _ _ _ \<Rightarrow> UDequeue
   | _ \<Rightarrow> UAdvHead)"

definition uk_body :: "tid \<Rightarrow> nat \<Rightarrow> ukfifo \<Rightarrow> uk_pc \<Rightarrow> uk_out" where
  "uk_body t n s p = (case uk_method p of UEnqueue \<Rightarrow> uk_enqueue n s p | UCommitted \<Rightarrow> uk_committed s p
     | UAdvTail \<Rightarrow> uk_advance_tail n s p | UDequeue \<Rightarrow> uk_dequeue n s p | UAdvHead \<Rightarrow> uk_advance_head s p)"

definition uk_prog :: "(ukfifo, kf_op, kf_res, uk_pc) prog" where
  "uk_prog = \<lparr>start = uk_start, body = uk_body\<rparr>"

lemma uk_prog_simps [simp]: "start uk_prog = uk_start" "body uk_prog = uk_body"
  by (simp_all add: uk_prog_def)

lemma uk_body_simps [simp]:
  "uk_body t n s (UEntry x) = uk_enqueue n s (UEntry x)"
  "uk_body t n s (UTail x) = uk_enqueue n s (UTail x)"
  "uk_body t n s (UHead x c) = uk_enqueue n s (UHead x c)"
  "uk_body t n s (UFind x c r i) = uk_enqueue n s (UFind x c r i)"
  "uk_body t n s (UCheck x c f) = uk_enqueue n s (UCheck x c f)"
  "uk_body t n s (UCas x c i d) = uk_enqueue n s (UCas x c i d)"
  "uk_body t n s (UComItem x c i d) = uk_committed s (UComItem x c i d)"
  "uk_body t n s (UComHead x c i d) = uk_committed s (UComHead x c i d)"
  "uk_body t n s (UComDeleted x c i d h) = uk_committed s (UComDeleted x c i d h)"
  "uk_body t n s (UComTail x c i d) = uk_committed s (UComTail x c i d)"
  "uk_body t n s (UComBump x c i d h) = uk_committed s (UComBump x c i d h)"
  "uk_body t n s (UComUndo x c i d) = uk_committed s (UComUndo x c i d)"
  "uk_body t n s (ATCurrent k c) = uk_advance_tail n s (ATCurrent k c)"
  "uk_body t n s (ATNext k c) = uk_advance_tail n s (ATNext k c)"
  "uk_body t n s (ATCheck k c e) = uk_advance_tail n s (ATCheck k c e)"
  "uk_body t n s (ATSwing k c e) = uk_advance_tail n s (ATSwing k c e)"
  "uk_body t n s (ATAlloc k c e) = uk_advance_tail n s (ATAlloc k c e)"
  "uk_body t n s (ATLink k c e a) = uk_advance_tail n s (ATLink k c e a)"
  "uk_body t n s (ATSet k c a) = uk_advance_tail n s (ATSet k c a)"
  "uk_body t n s UDHead = uk_dequeue n s UDHead"
  "uk_body t n s (UDFind h r i) = uk_dequeue n s (UDFind h r i)"
  "uk_body t n s (UDTail h f) = uk_dequeue n s (UDTail h f)"
  "uk_body t n s (UDCheck h f c) = uk_dequeue n s (UDCheck h f c)"
  "uk_body t n s (UDCas h i d) = uk_dequeue n s (UDCas h i d)"
  "uk_body t n s (AHCurrent h) = uk_advance_head s (AHCurrent h)"
  "uk_body t n s (AHTail h) = uk_advance_head s (AHTail h)"
  "uk_body t n s (AHTailNext h c) = uk_advance_head s (AHTailNext h c)"
  "uk_body t n s (AHHeadNext h c e) = uk_advance_head s (AHHeadNext h c e)"
  "uk_body t n s (AHCheck h c e g) = uk_advance_head s (AHCheck h c e g)"
  "uk_body t n s (AHTailCheck h c e g) = uk_advance_head s (AHTailCheck h c e g)"
  "uk_body t n s (AHSwing h c e g) = uk_advance_head s (AHSwing h c e g)"
  "uk_body t n s (AHDelete h g) = uk_advance_head s (AHDelete h g)"
  "uk_body t n s (AHSet h g) = uk_advance_head s (AHSet h g)"
  by (simp_all add: uk_body_def uk_method_def)

section \<open>Invariant and assertions\<close>

definition us_nx :: "useg \<Rightarrow> addr" where
  "us_nx sg = val (us_next sg)"

definition ushape :: "ukfifo \<Rightarrow> addr \<Rightarrow> addr option" where
  "ushape s a = map_option us_nx (uk_heap s a)"

text \<open>The segments from the head on.\<close>

definition uk_addrs :: "ukfifo \<Rightarrow> addr list" where
  "uk_addrs s = the (chain us_nx (uk_heap s) (val (uk_head s)))"

definition uk_sizes :: "u64 \<Rightarrow> ukfifo \<Rightarrow> bool" where
  "uk_sizes k s \<longleftrightarrow> uk_k s = k \<and> (\<forall>sg \<in> ran (uk_heap s). us_size sg = k \<and> length (us_items sg) = unat k)"

definition uk_inv :: "u64 \<Rightarrow> ukfifo \<Rightarrow> bool" where
  "uk_inv k s \<longleftrightarrow> uk_sizes k s \<and> uk_heap s NULL = None \<and> finite (dom (uk_heap s)) \<and>
     (\<exists>as. path us_nx (uk_heap s) (val (uk_head s)) as NULL \<and> val (uk_tail s) \<in> set as)"

text \<open>
  What a thread knows of a segment it has seen: it is in the list while it has no successor;
  of one that was the head: while it has no successor it is the tail, and it never comes
  behind another one.
\<close>

definition listed :: "ukfifo \<Rightarrow> addr \<Rightarrow> bool" where
  "listed s a \<longleftrightarrow> (\<exists>nx. ushape s a = Some nx \<and> (nx = NULL \<longrightarrow> a \<in> set (uk_addrs s)))"

definition headed :: "ukfifo \<Rightarrow> addr \<Rightarrow> bool" where
  "headed s a \<longleftrightarrow> (\<exists>nx. ushape s a = Some nx \<and> (nx = NULL \<longrightarrow> val (uk_tail s) = a)) \<and> a \<notin> set (tl (uk_addrs s))"

definition next_read :: "ukfifo \<Rightarrow> addr acell \<Rightarrow> addr acell \<Rightarrow> bool" where
  "next_read s c e \<longleftrightarrow> (val e \<noteq> NULL \<longrightarrow> ushape s (val c) = Some (val e))"

definition tail_seen :: "ukfifo \<Rightarrow> addr acell \<Rightarrow> addr acell \<Rightarrow> bool" where
  "tail_seen s h c \<longleftrightarrow> headed s (val h) \<and> listed s (val c) \<and> (val (uk_tail s) = val h \<longrightarrow> uk_tail s = c)"

definition passed :: "ukfifo \<Rightarrow> addr acell \<Rightarrow> addr acell \<Rightarrow> bool" where
  "passed s h g \<longleftrightarrow> headed s (val h) \<and> val (uk_tail s) \<noteq> val h \<and> val g \<noteq> NULL \<and> ushape s (val h) = Some (val g)"

fun caller_ok :: "u64 \<Rightarrow> ukfifo \<Rightarrow> kf_op \<Rightarrow> caller \<Rightarrow> bool" where
  "caller_ok k s op (ByEnqueue x) \<longleftrightarrow> op = Enq x"
| "caller_ok k s op (ByDequeue h i d) \<longleftrightarrow> op = Deq \<and> headed s (val h) \<and> i < k \<and> val d \<noteq> 0"

fun uk_assert :: "u64 \<Rightarrow> ukfifo \<Rightarrow> kf_op \<Rightarrow> uk_pc \<Rightarrow> bool" where
  "uk_assert k s op (UEntry x) \<longleftrightarrow> op = Enq x"
| "uk_assert k s op (UTail x) \<longleftrightarrow> op = Enq x"
| "uk_assert k s op (UHead x c) \<longleftrightarrow> op = Enq x \<and> listed s (val c)"
| "uk_assert k s op (UFind x c r i) \<longleftrightarrow> op = Enq x \<and> listed s (val c)"
| "uk_assert k s op (UCheck x c f) \<longleftrightarrow> op = Enq x \<and> listed s (val c) \<and> found_ok k (\<lambda>d. val d = 0) f"
| "uk_assert k s op (UCas x c i d) \<longleftrightarrow> op = Enq x \<and> listed s (val c) \<and> i < k \<and> val d = 0"
| "uk_assert k s op (UComItem x c i d) \<longleftrightarrow> op = Enq x \<and> listed s (val c) \<and> i < k \<and> val d = x"
| "uk_assert k s op (UComHead x c i d) \<longleftrightarrow> op = Enq x \<and> listed s (val c) \<and> i < k \<and> val d = x"
| "uk_assert k s op (UComDeleted x c i d h) \<longleftrightarrow> op = Enq x \<and> listed s (val c) \<and> i < k \<and> val d = x"
| "uk_assert k s op (UComTail x c i d) \<longleftrightarrow> op = Enq x \<and> listed s (val c) \<and> i < k \<and> val d = x"
| "uk_assert k s op (UComBump x c i d h) \<longleftrightarrow> op = Enq x \<and> listed s (val c) \<and> i < k \<and> val d = x"
| "uk_assert k s op (UComUndo x c i d) \<longleftrightarrow> op = Enq x \<and> listed s (val c) \<and> i < k \<and> val d = x"
| "uk_assert k s op (ATCurrent u c) \<longleftrightarrow> caller_ok k s op u \<and> listed s (val c)"
| "uk_assert k s op (ATNext u c) \<longleftrightarrow> caller_ok k s op u \<and> listed s (val c)"
| "uk_assert k s op (ATCheck u c e) \<longleftrightarrow> caller_ok k s op u \<and> listed s (val c) \<and> next_read s c e"
| "uk_assert k s op (ATSwing u c e) \<longleftrightarrow> caller_ok k s op u \<and> listed s (val c) \<and> next_read s c e \<and> val e \<noteq> NULL"
| "uk_assert k s op (ATAlloc u c e) \<longleftrightarrow> caller_ok k s op u \<and> listed s (val c) \<and> val e = NULL"
| "uk_assert k s op (ATLink u c e a) \<longleftrightarrow> caller_ok k s op u \<and> listed s (val c) \<and> val e = NULL \<and> ushape s a = Some NULL"
| "uk_assert k s op (ATSet u c a) \<longleftrightarrow> caller_ok k s op u \<and> listed s (val c) \<and> a \<noteq> NULL \<and> ushape s (val c) = Some a"
| "uk_assert k s op UDHead \<longleftrightarrow> op = Deq"
| "uk_assert k s op (UDFind h r i) \<longleftrightarrow> op = Deq \<and> headed s (val h)"
| "uk_assert k s op (UDTail h f) \<longleftrightarrow> op = Deq \<and> headed s (val h) \<and> found_ok k (\<lambda>d. val d \<noteq> 0) f"
| "uk_assert k s op (UDCheck h f c) \<longleftrightarrow>
     op = Deq \<and> headed s (val h) \<and> listed s (val c) \<and> found_ok k (\<lambda>d. val d \<noteq> 0) f"
| "uk_assert k s op (UDCas h i d) \<longleftrightarrow> op = Deq \<and> headed s (val h) \<and> i < k \<and> val d \<noteq> 0"
| "uk_assert k s op (AHCurrent h) \<longleftrightarrow> op = Deq \<and> headed s (val h)"
| "uk_assert k s op (AHTail h) \<longleftrightarrow> op = Deq \<and> headed s (val h)"
| "uk_assert k s op (AHTailNext h c) \<longleftrightarrow> op = Deq \<and> tail_seen s h c"
| "uk_assert k s op (AHHeadNext h c e) \<longleftrightarrow> op = Deq \<and> tail_seen s h c \<and> next_read s c e"
| "uk_assert k s op (AHCheck h c e g) \<longleftrightarrow> op = Deq \<and> tail_seen s h c \<and> next_read s c e \<and> next_read s h g \<and>
     (val g = NULL \<longrightarrow> val c = val h \<and> val e = NULL)"
| "uk_assert k s op (AHTailCheck h c e g) \<longleftrightarrow> op = Deq \<and> tail_seen s h c \<and> next_read s c e \<and> next_read s h g \<and>
     val c = val h \<and> val e \<noteq> NULL \<and> val g \<noteq> NULL"
| "uk_assert k s op (AHSwing h c e g) \<longleftrightarrow> op = Deq \<and> tail_seen s h c \<and> next_read s c e \<and> next_read s h g \<and>
     val c = val h \<and> val e \<noteq> NULL \<and> val g \<noteq> NULL"
| "uk_assert k s op (AHDelete h g) \<longleftrightarrow> op = Deq \<and> passed s h g"
| "uk_assert k s op (AHSet h g) \<longleftrightarrow> op = Deq \<and> passed s h g"

definition uk_call_ok :: "u64 \<Rightarrow> tid \<Rightarrow> kf_op \<Rightarrow> bool" where
  "uk_call_ok k t op \<longleftrightarrow> k \<noteq> 0 \<and> op \<noteq> Enq 0"

definition uk_pinv :: "u64 \<Rightarrow> ukfifo \<Rightarrow> tid \<Rightarrow> kf_op \<Rightarrow> uk_pc \<Rightarrow> bool" where
  "uk_pinv k s t op p \<longleftrightarrow> uk_call_ok k t op \<and> uk_assert k s op p"

fun uk_own :: "uk_pc \<Rightarrow> addr set" where
  "uk_own (ATLink u c e a) = {a}"
| "uk_own p = {}"

fun caller_seen :: "caller \<Rightarrow> addr set" where
  "caller_seen (ByEnqueue x) = {}"
| "caller_seen (ByDequeue h i d) = {val h}"

fun uk_seen :: "uk_pc \<Rightarrow> addr set" where
  "uk_seen (UEntry x) = {}"
| "uk_seen (UTail x) = {}"
| "uk_seen (UHead x c) = {val c}"
| "uk_seen (UFind x c r i) = {val c}"
| "uk_seen (UCheck x c f) = {val c}"
| "uk_seen (UCas x c i d) = {val c}"
| "uk_seen (UComItem x c i d) = {val c}"
| "uk_seen (UComHead x c i d) = {val c}"
| "uk_seen (UComDeleted x c i d h) = {val c}"
| "uk_seen (UComTail x c i d) = {val c}"
| "uk_seen (UComBump x c i d h) = {val c}"
| "uk_seen (UComUndo x c i d) = {val c}"
| "uk_seen (ATCurrent u c) = insert (val c) (caller_seen u)"
| "uk_seen (ATNext u c) = insert (val c) (caller_seen u)"
| "uk_seen (ATCheck u c e) = insert (val c) (caller_seen u)"
| "uk_seen (ATSwing u c e) = insert (val c) (caller_seen u)"
| "uk_seen (ATAlloc u c e) = insert (val c) (caller_seen u)"
| "uk_seen (ATLink u c e a) = insert (val c) (caller_seen u)"
| "uk_seen (ATSet u c a) = insert (val c) (caller_seen u)"
| "uk_seen UDHead = {}"
| "uk_seen (UDFind h r i) = {val h}"
| "uk_seen (UDTail h f) = {val h}"
| "uk_seen (UDCheck h f c) = {val h, val c}"
| "uk_seen (UDCas h i d) = {val h}"
| "uk_seen (AHCurrent h) = {val h}"
| "uk_seen (AHTail h) = {val h}"
| "uk_seen (AHTailNext h c) = {val h, val c}"
| "uk_seen (AHHeadNext h c e) = {val h, val c}"
| "uk_seen (AHCheck h c e g) = {val h, val c}"
| "uk_seen (AHTailCheck h c e g) = {val h, val c}"
| "uk_seen (AHSwing h c e g) = {val h, val c}"
| "uk_seen (AHDelete h g) = {val h}"
| "uk_seen (AHSet h g) = {val h}"

text \<open>What a step leaves of a segment that its thread does not own.\<close>

definition keeps :: "ukfifo \<Rightarrow> ukfifo \<Rightarrow> addr \<Rightarrow> bool" where
  "keeps s s' a \<longleftrightarrow> (\<forall>nx. ushape s a = Some nx \<longrightarrow> nx \<noteq> NULL \<longrightarrow> ushape s' a = Some nx) \<and>
     (listed s a \<longrightarrow> listed s' a) \<and> (headed s a \<longrightarrow> headed s' a) \<and>
     (headed s a \<longrightarrow> val (uk_tail s') = a \<longrightarrow> uk_tail s' = uk_tail s)"

definition uk_rely :: "addr set \<Rightarrow> addr set \<Rightarrow> ukfifo \<Rightarrow> ukfifo \<Rightarrow> bool" where
  "uk_rely A B s s' \<longleftrightarrow> (\<forall>a \<in> A. ushape s' a = ushape s a) \<and> (\<forall>a \<in> B. keeps s s' a)"

lemma headed_listed: "uk_inv k s \<Longrightarrow> headed s a \<Longrightarrow> uk_heap s a \<noteq> None"
  by (auto simp: headed_def ushape_def)

lemma keepsD:
  assumes "keeps s s' a"
  shows "listed s a \<Longrightarrow> listed s' a" "headed s a \<Longrightarrow> headed s' a"
    "ushape s a = Some b \<Longrightarrow> b \<noteq> NULL \<Longrightarrow> ushape s' a = Some b"
    "headed s a \<Longrightarrow> val (uk_tail s') = a \<Longrightarrow> uk_tail s' = uk_tail s"
  using assms by (simp_all add: keeps_def)

lemma uk_stable:
  assumes "uk_rely (uk_own p) (uk_seen p) s s'" "uk_pinv k s t op p"
  shows "uk_pinv k s' t op p"
proof -
  have u: "caller_ok k s' op u" if "caller_ok k s op u" "\<forall>a \<in> caller_seen u. keeps s s' a" for u
    using that keepsD(2) by (cases u) simp_all
  have n: "next_read s' c e" if "next_read s c e" "keeps s s' (val c)" for c e
    using that(1) keepsD(3) [OF that(2), of "val e"] by (simp add: next_read_def)
  have t: "tail_seen s' h c" if "tail_seen s h c" "keeps s s' (val c)" "keeps s s' (val h)" for h c
    using that(1) keepsD(1) [OF that(2)] keepsD(2,4) [OF that(3)] by (auto simp: tail_seen_def)
  have g: "passed s' h g" if "passed s h g" "keeps s s' (val h)" for h g
    using that(1) keepsD(2,4) [OF that(2)] keepsD(3) [OF that(2), of "val g"] by (auto simp: passed_def)
  have r: "\<forall>a \<in> uk_own p. ushape s' a = ushape s a" "\<forall>a \<in> uk_seen p. keeps s s' a"
    using assms(1) by (simp_all add: uk_rely_def)
  note k = keepsD [of s s']
  have a: "uk_assert k s op p" and c: "uk_call_ok k t op" using assms(2) by (simp_all add: uk_pinv_def)
  have "uk_assert k s' op p" using a r by (cases p) (simp_all add: k u n t g)
  then show ?thesis using c by (simp add: uk_pinv_def)
qed

section \<open>What a step changes\<close>

lemma uk_addrs_eq:
  "path us_nx (uk_heap s) (val (uk_head s)) as NULL \<Longrightarrow> uk_heap s NULL = None \<Longrightarrow> uk_addrs s = as"
  by (simp add: uk_addrs_def path_chain)

lemma uk_invD:
  assumes "uk_inv k s"
  shows "uk_sizes k s" "uk_heap s NULL = None" "finite (dom (uk_heap s))"
    "path us_nx (uk_heap s) (val (uk_head s)) (uk_addrs s) NULL" "val (uk_tail s) \<in> set (uk_addrs s)"
proof -
  show n: "uk_sizes k s" "uk_heap s NULL = None" "finite (dom (uk_heap s))"
    using assms by (simp_all add: uk_inv_def)
  obtain as where p: "path us_nx (uk_heap s) (val (uk_head s)) as NULL" "val (uk_tail s) \<in> set as"
    using assms unfolding uk_inv_def by (elim conjE exE)
  show "path us_nx (uk_heap s) (val (uk_head s)) (uk_addrs s) NULL" "val (uk_tail s) \<in> set (uk_addrs s)"
    unfolding uk_addrs_eq [OF p(1) n(2)] by (rule p)+
qed

lemma uk_invI:
  "uk_sizes k s \<Longrightarrow> uk_heap s NULL = None \<Longrightarrow> finite (dom (uk_heap s)) \<Longrightarrow>
   path us_nx (uk_heap s) (val (uk_head s)) as NULL \<Longrightarrow> val (uk_tail s) \<in> set as \<Longrightarrow> uk_inv k s \<and> uk_addrs s = as"
  unfolding uk_inv_def by (intro conjI exI [of _ as] uk_addrs_eq)

lemma ushape_same_dom: "ushape s' = ushape s \<Longrightarrow> dom (uk_heap s') = dom (uk_heap s)"
proof (rule set_eqI)
  fix a
  assume "ushape s' = ushape s"
  then have "ushape s' a = ushape s a" by simp
  then show "a \<in> dom (uk_heap s') \<longleftrightarrow> a \<in> dom (uk_heap s)"
    by (cases "uk_heap s a"; cases "uk_heap s' a") (auto simp: ushape_def)
qed

lemma uk_quiet:
  assumes "uk_inv k s" "ushape s' = ushape s" "val (uk_head s') = val (uk_head s)" "uk_tail s' = uk_tail s" "uk_sizes k s'"
  shows "uk_inv k s' \<and> uk_addrs s' = uk_addrs s"
proof -
  note D = uk_invD [OF assms(1)]
  have d: "dom (uk_heap s') = dom (uk_heap s)" by (rule ushape_same_dom [OF assms(2)])
  have "path us_nx (uk_heap s') (val (uk_head s)) (uk_addrs s) NULL = path us_nx (uk_heap s) (val (uk_head s)) (uk_addrs s) NULL"
    by (rule path_shape) (use assms(2) in \<open>simp add: ushape_def fun_eq_iff\<close>)
  then show ?thesis
    using D d assms(3,4,5) by (intro uk_invI) (auto simp: domIff)
qed

text \<open>The items in the slots of all segments, also of those that were taken off the list.\<close>

definition uk_slots :: "ukfifo \<Rightarrow> u64 multiset" where
  "uk_slots s = (\<Sum>a \<in> dom (uk_heap s). slot_items (us_items (the (uk_heap s a))))"

fun uk_inserted :: "uk_pc \<Rightarrow> u64 option" where
  "uk_inserted (UComItem x c i d) = Some x"
| "uk_inserted (UComHead x c i d) = Some x"
| "uk_inserted (UComDeleted x c i d h) = Some x"
| "uk_inserted (UComTail x c i d) = Some x"
| "uk_inserted (UComBump x c i d h) = Some x"
| "uk_inserted (UComUndo x c i d) = Some x"
| "uk_inserted p = None"

lemma put_seg_simps [simp]:
  "uk_head (put_seg s a sg) = uk_head s" "uk_tail (put_seg s a sg) = uk_tail s"
  "uk_heap (put_seg s a sg) = (uk_heap s)(a \<mapsto> sg)" "uk_k (put_seg s a sg) = uk_k s"
  by (simp_all add: put_seg_def)

lemma put_seg_sizes:
  assumes "uk_sizes k s" "us_size sg = k" "length (us_items sg) = unat k"
  shows "uk_sizes k (put_seg s a sg)"
  using assms by (auto simp: uk_sizes_def put_seg_def ran_def)

lemma put_seg_shape:
  "uk_heap s a = Some sg \<Longrightarrow> us_next sg' = us_next sg \<Longrightarrow> ushape (put_seg s a sg') = ushape s"
  by (auto simp: ushape_def put_seg_def us_nx_def)

lemma uk_slots_put:
  assumes "finite (dom (uk_heap s))" "uk_heap s a = Some sg"
  shows "uk_slots (put_seg s a sg') + slot_items (us_items sg) = uk_slots s + slot_items (us_items sg')"
proof -
  have d: "dom (uk_heap s) = insert a (dom (uk_heap s) - {a})" using assms(2) by auto
  have "uk_slots (put_seg s a sg') = slot_items (us_items sg') + (\<Sum>b \<in> dom (uk_heap s) - {a}. slot_items (us_items (the (uk_heap s b))))"
    unfolding uk_slots_def using assms by (simp add: insert_absorb domI) (subst d, subst sum.insert, auto intro!: sum.cong)
  moreover have "uk_slots s = slot_items (us_items sg) + (\<Sum>b \<in> dom (uk_heap s) - {a}. slot_items (us_items (the (uk_heap s b))))"
    unfolding uk_slots_def using assms by (subst d, subst sum.insert) auto
  ultimately show ?thesis by simp
qed

lemma uk_slots_new:
  assumes "finite (dom (uk_heap s))" "uk_heap s a = None"
  shows "uk_slots (put_seg s a (ksegment_new k)) = uk_slots s"
  using assms by (simp add: uk_slots_def domIff ksegment_new_def) (rule sum.cong, auto)

lemma uk_segE:
  assumes "uk_sizes k s" "ushape s a = Some b"
  obtains sg where "uk_heap s a = Some sg" "us_size sg = k" "length (us_items sg) = unat k" "us_nx sg = b"
  using assms by (auto simp: ushape_def uk_sizes_def ran_def)

lemma listedE:
  assumes "uk_sizes k s" "listed s a"
  obtains sg where "uk_heap s a = Some sg" "us_size sg = k" "length (us_items sg) = unat k" "ushape s a = Some (us_nx sg)"
  using assms by (auto simp: listed_def elim!: uk_segE)

lemma headedE:
  assumes "uk_sizes k s" "headed s a"
  obtains sg where "uk_heap s a = Some sg" "us_size sg = k" "length (us_items sg) = unat k" "ushape s a = Some (us_nx sg)"
  using assms by (auto simp: headed_def elim!: uk_segE)

text \<open>
  Most steps are quiet: they change at most the slots and the deleted flag of a segment and
  the counter of the head. They balance the items of the slots against those of the thread.
\<close>

definition quiet :: "u64 \<Rightarrow> ukfifo \<Rightarrow> ukfifo \<Rightarrow> bool" where
  "quiet k s s' \<longleftrightarrow> ushape s' = ushape s \<and> val (uk_head s') = val (uk_head s) \<and> uk_tail s' = uk_tail s \<and> uk_sizes k s'"

definition uk_fine :: "u64 \<Rightarrow> ukfifo \<Rightarrow> kf_op \<Rightarrow> uk_pc \<Rightarrow> uk_out \<Rightarrow> bool" where
  "uk_fine k s op p o' \<longleftrightarrow> quiet k s (fst o') \<and>
     (case snd o' of Next p' \<Rightarrow> uk_assert k s op p' \<and> uk_own p' = {} \<and>
          uk_seen p' \<subseteq> uk_seen p \<union> {val (uk_head s), val (uk_tail s)}
      | Return r \<Rightarrow> True | Fault e \<Rightarrow> False) \<and>
     uk_slots (fst o') + out_item (\<lambda>_. None) (kf_got op) (snd o') + one (uk_inserted p) =
     uk_slots s + out_item uk_inserted (kf_stored op) (snd o')"

lemma quiet_refl: "uk_inv k s \<Longrightarrow> quiet k s s"
  by (simp add: quiet_def uk_invD)

lemma quiet_put:
  "uk_inv k s \<Longrightarrow> uk_heap s a = Some sg \<Longrightarrow> us_next sg' = us_next sg \<Longrightarrow> us_size sg' = k \<Longrightarrow>
   length (us_items sg') = unat k \<Longrightarrow> quiet k s (put_seg s a sg')"
  by (simp add: quiet_def put_seg_shape put_seg_sizes uk_invD)

lemma item_cas_quiet [consumes 5, case_names hit miss]:
  assumes "uk_inv k s" "uk_heap s a = Some sg" "us_size sg = k" "length (us_items sg) = unat k" "i < k"
  obtains (hit) s' where "item_cas s a i old new = (\<lambda>f. (s', f True))" "quiet k s s'"
      "uk_slots s' + one (item_of (val old)) = uk_slots s + one (item_of (val new))"
    | (miss) "item_cas s a i old new = (\<lambda>f. (s, f False))"
proof -
  have "slot_cas (us_items sg) i old new \<noteq> None" using assms(4,5) by (simp add: word_less_nat_alt)
  then obtain ys b where c: "slot_cas (us_items sg) i old new = Some (ys, b)"
    by (cases "slot_cas (us_items sg) i old new") (auto simp del: slot_cas_None)
  let ?s = "put_seg s a (sg\<lparr>us_items := ys\<rparr>)"
  have cas: "item_cas s a i old new = (\<lambda>f. (?s, f b))"
    using assms(2) c by (simp add: item_cas_def at_seg_def fun_eq_iff)
  from c show thesis
  proof (cases rule: slot_cas_cases)
    case hit
    have "uk_slots ?s + slot_items (us_items sg) = uk_slots s + slot_items ys"
      using uk_slots_put [OF uk_invD(3) [OF assms(1)] assms(2), of "sg\<lparr>us_items := ys\<rparr>"] by simp
    then have "uk_slots ?s + one (item_of (val old)) = uk_slots s + one (item_of (val new))"
      using hit(5) by (rule balance_chain)
    moreover have "quiet k s ?s"
      by (rule quiet_put [OF assms(1,2)]) (use slot_cas_length [OF c] assms(3,4) in simp_all)
    ultimately show thesis using that(1) cas hit(1) by simp
  next
    case miss
    have "sg\<lparr>us_items := ys\<rparr> = sg" using miss(4) by simp
    then have "?s = s" using assms(2) by (simp add: put_seg_def fun_upd_idem)
    then show thesis using that(2) cas miss(1) by simp
  qed
qed

lemma addrs_shape: "uk_inv k s \<Longrightarrow> a \<in> set (uk_addrs s) \<Longrightarrow> ushape s a \<noteq> None"
  using path_dom [OF uk_invD(4)] by (auto simp: ushape_def)

lemma tail_listed: "uk_inv k s \<Longrightarrow> listed s (val (uk_tail s))"
  using addrs_shape uk_invD(5) by (fastforce simp: listed_def)

lemma uk_addrs_cons:
  assumes "uk_inv k s"
  obtains sg as where "uk_addrs s = val (uk_head s) # as" "uk_heap s (val (uk_head s)) = Some sg"
    "path us_nx (uk_heap s) (us_nx sg) as NULL" "distinct (uk_addrs s)"
proof -
  note D = uk_invD [OF assms]
  obtain a as where a: "uk_addrs s = a # as" using D(5) by (cases "uk_addrs s") auto
  have "distinct (uk_addrs s)" using path_distinct [OF D(4)] D(2) by simp
  then show thesis using that a D(4) by (auto split: option.splits)
qed

lemma head_headed:
  assumes "uk_inv k s"
  shows "headed s (val (uk_head s))"
proof -
  obtain sg as where h: "uk_addrs s = val (uk_head s) # as" "uk_heap s (val (uk_head s)) = Some sg"
    "path us_nx (uk_heap s) (us_nx sg) as NULL" "distinct (uk_addrs s)" by (rule uk_addrs_cons [OF assms])
  have "val (uk_tail s) = val (uk_head s)" if "us_nx sg = NULL"
  proof -
    have "as = []" using h(3) that uk_invD(2) [OF assms] by (cases as) (auto split: option.splits)
    then show ?thesis using uk_invD(5) [OF assms] h(1) by simp
  qed
  then show ?thesis using h by (auto simp: headed_def ushape_def)
qed

lemma ufind_cases [consumes 3, case_names hit more miss]:
  assumes "us_size sg = k" "length (us_items sg) = unat k" "k \<noteq> 0"
  obtains (hit) i c where "uk_find_index sg free r j = Hit i c" "i < k" "free \<longleftrightarrow> val c = 0"
    | (more) i where "uk_find_index sg free r j = More i"
    | (miss) "uk_find_index sg free r j = Miss"
proof (cases "uk_find_index sg free r j")
  case (Hit i c)
  show thesis
    using Hit hit scan_Hit [OF Hit [unfolded uk_find_index_def]] index_less [OF assms(3)] by (auto simp: assms(1))
next
  case Wild
  have "uk_find_index sg free r j \<noteq> Wild" unfolding uk_find_index_def assms(1)
    by (rule scan_Wild) (use assms(2) index_less [OF assms(3)] in \<open>simp add: word_less_nat_alt\<close>)
  then show thesis using Wild by simp
qed (use more miss in auto)

lemmas uk_step_simps = uk_fine_def at_seg_def uk_back_def uk_draw_def

lemma fine_enqueue:
  assumes "uk_inv k s" "uk_pinv k s t op p" "uk_method p = UEnqueue"
  shows "uk_fine k s op p (uk_enqueue n s p)"
proof -
  note Q = quiet_refl [OF assms(1)] and L = listedE [OF uk_invD(1) [OF assms(1)]]
  have k: "k \<noteq> 0" "op \<noteq> Enq 0" and a: "uk_assert k s op p"
    using assms(2) by (simp_all add: uk_pinv_def uk_call_ok_def)
  note tl = tail_listed [OF assms(1)]
  show ?thesis
  proof (cases p)
    case (UHead x c)
    then have "listed s (val c)" using a by simp
    then show ?thesis by (rule L) (use UHead Q a k in \<open>simp add: uk_step_simps\<close>)
  next
    case (UFind x c r i)
    then have "listed s (val c)" using a by simp
    then obtain sg where sg: "uk_heap s (val c) = Some sg" "us_size sg = k" "length (us_items sg) = unat k"
      by (rule L)
    show ?thesis
      by (cases rule: ufind_cases [OF sg(2,3) k(1), of True r i]) (use UFind sg Q a in \<open>simp_all add: uk_step_simps\<close>)
  next
    case (UCheck x c f)
    then show ?thesis using Q a by (cases f) (auto simp: uk_step_simps)
  next
    case (UCas x c i d)
    then have "listed s (val c)" using a by simp
    then obtain sg where sg: "uk_heap s (val c) = Some sg" "us_size sg = k" "length (us_items sg) = unat k"
      by (rule L)
    have i: "i < k" using a UCas by simp
    show ?thesis
      by (cases rule: item_cas_quiet [OF assms(1) sg i, of d "cell x (aba d + 1)"])
        (use UCas Q a k in \<open>auto simp: uk_step_simps Let_def\<close>)
  qed (use assms(3) a k Q tl in \<open>auto simp: uk_method_def uk_step_simps\<close>)
qed

lemma fine_committed:
  assumes "uk_inv k s" "uk_pinv k s t op p" "uk_method p = UCommitted"
  shows "uk_fine k s op p (uk_committed s p)"
proof -
  note Q = quiet_refl [OF assms(1)] and L = listedE [OF uk_invD(1) [OF assms(1)]]
  have k: "k \<noteq> 0" "op \<noteq> Enq 0" and a: "uk_assert k s op p"
    using assms(2) by (simp_all add: uk_pinv_def uk_call_ok_def)
  show ?thesis
  proof (cases p)
    case (UComItem x c i d)
    then have "listed s (val c)" using a by simp
    then obtain sg where sg: "uk_heap s (val c) = Some sg" "us_size sg = k" "length (us_items sg) = unat k"
      by (rule L)
    have "unat i < unat k" using a UComItem by (simp add: word_less_nat_alt)
    then show ?thesis using UComItem sg Q a by (auto simp: uk_step_simps slot_at_def)
  next
    case (UComDeleted x c i d h)
    then have "listed s (val c)" using a by simp
    then show ?thesis by (rule L) (use UComDeleted Q a in \<open>auto simp: uk_step_simps\<close>)
  next
    case (UComTail x c i d)
    then have "listed s (val c)" using a by simp
    then show ?thesis by (rule L) (use UComTail Q a in \<open>auto simp: uk_step_simps\<close>)
  next
    case (UComBump x c i d h)
    then show ?thesis using Q a
      by (cases "uk_head s = h")
        (auto simp: uk_step_simps quiet_def cas_def ushape_def uk_sizes_def uk_slots_def fun_eq_iff)
  next
    case (UComUndo x c i d)
    then have "listed s (val c)" using a by simp
    then obtain sg where sg: "uk_heap s (val c) = Some sg" "us_size sg = k" "length (us_items sg) = unat k"
      by (rule L)
    have i: "i < k" using a UComUndo by simp
    show ?thesis
      by (cases rule: item_cas_quiet [OF assms(1) sg i, of d "cell 0 0"])
        (use UComUndo Q a k in \<open>auto simp: uk_step_simps\<close>)
  qed (use assms(3) Q a in \<open>auto simp: uk_method_def uk_step_simps\<close>)
qed

lemma fine_dequeue:
  assumes "uk_inv k s" "uk_pinv k s t op p" "uk_method p = UDequeue"
  shows "uk_fine k s op p (uk_dequeue n s p)"
proof -
  note Q = quiet_refl [OF assms(1)] and H = headedE [OF uk_invD(1) [OF assms(1)]]
  have k: "k \<noteq> 0" "op \<noteq> Enq 0" and a: "uk_assert k s op p"
    using assms(2) by (simp_all add: uk_pinv_def uk_call_ok_def)
  note tl = tail_listed [OF assms(1)] and hd = head_headed [OF assms(1)]
  show ?thesis
  proof (cases p)
    case UDHead
    show ?thesis by (rule H [OF hd]) (use UDHead Q a k hd in \<open>simp add: uk_step_simps\<close>)
  next
    case (UDFind h r i)
    then have "headed s (val h)" using a by simp
    then obtain sg where sg: "uk_heap s (val h) = Some sg" "us_size sg = k" "length (us_items sg) = unat k"
      by (rule H)
    show ?thesis
      by (cases rule: ufind_cases [OF sg(2,3) k(1), of False r i]) (use UDFind sg Q a in \<open>simp_all add: uk_step_simps\<close>)
  next
    case (UDTail h f)
    then show ?thesis using Q a tl by (simp add: uk_step_simps)
  next
    case (UDCheck h f c)
    then show ?thesis using Q a by (cases f) (auto simp: uk_step_simps)
  next
    case (UDCas h i d)
    then have "headed s (val h)" using a by simp
    then obtain sg where sg: "uk_heap s (val h) = Some sg" "us_size sg = k" "length (us_items sg) = unat k"
      by (rule H)
    have i: "i < k" using a UDCas by simp
    show ?thesis
      by (cases rule: item_cas_quiet [OF assms(1) sg i, of d "cell 0 (aba d + 1)"])
        (use UDCas Q a k in \<open>auto simp: uk_step_simps\<close>)
  qed (use assms(3) in \<open>simp_all add: uk_method_def\<close>)
qed

text \<open>What any step does: the state part, and the part of the thread.\<close>

definition uk_change :: "u64 \<Rightarrow> ukfifo \<Rightarrow> uk_pc \<Rightarrow> ukfifo \<Rightarrow> bool" where
  "uk_change k s p s' \<longleftrightarrow> uk_inv k s' \<and> (\<forall>a \<in> dom (uk_heap s) - uk_own p. keeps s s' a) \<and>
     (\<forall>a \<in> dom (uk_heap s) - uk_own p - set (uk_addrs s) - uk_seen p. ushape s' a = ushape s a) \<and>
     set (uk_addrs s') \<subseteq> set (uk_addrs s) \<union> uk_own p"

definition uk_good :: "u64 \<Rightarrow> ukfifo \<Rightarrow> kf_op \<Rightarrow> uk_pc \<Rightarrow> uk_out \<Rightarrow> bool" where
  "uk_good k s op p o' \<longleftrightarrow> uk_change k s p (fst o') \<and>
     (case snd o' of Next p' \<Rightarrow> uk_assert k (fst o') op p' \<and> uk_own p' \<subseteq> - dom (uk_heap s) \<and>
          uk_seen p' \<subseteq> uk_seen p \<union> set (uk_addrs s)
      | Return r \<Rightarrow> True | Fault e \<Rightarrow> False) \<and>
     uk_slots (fst o') + out_item (\<lambda>_. None) (kf_got op) (snd o') + one (uk_inserted p) =
     uk_slots s + out_item uk_inserted (kf_stored op) (snd o')"

lemma quiet_keeps:
  assumes "uk_inv k s" "quiet k s s'"
  shows "uk_inv k s'" "uk_addrs s' = uk_addrs s" "keeps s s' a"
proof -
  show c: "uk_inv k s'" "uk_addrs s' = uk_addrs s"
    using uk_quiet [OF assms(1), of s'] assms(2) by (simp_all add: quiet_def)
  show "keeps s s' a" using assms(2) c(2) by (simp add: keeps_def quiet_def listed_def headed_def)
qed

lemma quiet_assert:
  assumes "uk_inv k s" "quiet k s s'" "uk_pinv k s t op p"
  shows "uk_pinv k s' t op p"
proof (rule uk_stable [OF _ assms(3)])
  show "uk_rely (uk_own p) (uk_seen p) s s'"
    using quiet_keeps(3) [OF assms(1,2)] assms(2) by (simp add: uk_rely_def quiet_def)
qed

lemma fine_good:
  assumes "uk_inv k s" "uk_pinv k s t op p" "uk_fine k s op p o'"
  shows "uk_good k s op p o'"
proof -
  have q: "quiet k s (fst o')" using assms(3) by (simp add: uk_fine_def)
  note K = quiet_keeps [OF assms(1) q]
  have "val (uk_head s) \<in> set (uk_addrs s)" by (rule uk_addrs_cons [OF assms(1)]) simp
  note m = this uk_invD(5) [OF assms(1)]
  have a: "uk_assert k (fst o') op p'" if "uk_assert k s op p'" for p'
    using quiet_assert [OF assms(1) q, of t op p'] that assms(2) by (simp add: uk_pinv_def)
  have "uk_change k s p (fst o')" using K q by (simp add: uk_change_def quiet_def)
  moreover have "uk_seen p' \<subseteq> uk_seen p \<union> set (uk_addrs s)"
    if "uk_seen p' \<subseteq> uk_seen p \<union> {val (uk_head s), val (uk_tail s)}" for p' using that m by blast
  ultimately show ?thesis using assms(3) a by (auto simp: uk_good_def uk_fine_def split: outcome.splits)
qed

text \<open>The successor of a segment of the list comes behind the head.\<close>

lemma successor_in:
  assumes "uk_inv k s" "a \<in> set (uk_addrs s)" "ushape s a = Some b" "b \<noteq> NULL"
  shows "b \<in> set (tl (uk_addrs s))" "b \<noteq> a"
proof -
  note P = uk_invD(4) [OF assms(1)]
  have d: "distinct (uk_addrs s)" by (rule path_distinct [OF P uk_invD(2) [OF assms(1)]])
  obtain i where i: "i < length (uk_addrs s)" "uk_addrs s ! i = a"
    using assms(2) by (auto simp: in_set_conv_nth)
  have b: "Suc i < length (uk_addrs s)" "b = uk_addrs s ! Suc i"
    using path_nth [OF P i(1)] assms(3,4) i(2) by (auto simp: ushape_def split: if_splits)
  show "b \<noteq> a" unfolding b(2) i(2) [symmetric] using d i(1) b(1) by (simp add: nth_eq_iff_index_eq)
  have "tl (uk_addrs s) ! i \<in> set (tl (uk_addrs s))" by (rule nth_mem) (use b(1) in simp)
  then show "b \<in> set (tl (uk_addrs s))" using b by (simp add: nth_tl)
qed

lemma tail_moves:
  fixes x :: u64
  assumes "uk_inv k s" "ushape s (val (uk_tail s)) = Some b" "b \<noteq> NULL"
  defines "s' \<equiv> s\<lparr>uk_tail := cell b x\<rparr>"
  shows "uk_inv k s'" "uk_addrs s' = uk_addrs s" "keeps s s' a" "ushape s' = ushape s" "uk_slots s' = uk_slots s"
proof -
  note D = uk_invD [OF assms(1)] and b = successor_in [OF assms(1) D(5) assms(2,3)]
  have "b \<in> set (uk_addrs s)" using b(1) by (cases "uk_addrs s") auto
  then have "uk_inv k s' \<and> uk_addrs s' = uk_addrs s"
    using D by (intro uk_invI) (simp_all add: s'_def uk_sizes_def)
  then show i: "uk_inv k s'" "uk_addrs s' = uk_addrs s" by simp_all
  show sh: "ushape s' = ushape s" by (simp add: s'_def ushape_def fun_eq_iff)
  show "uk_slots s' = uk_slots s" by (simp add: s'_def uk_slots_def)
  have h: "ushape s a \<noteq> Some NULL \<and> a \<noteq> b" if "headed s a"
    using that b(1) assms(2,3) by (auto simp: headed_def)
  have t: "val (uk_tail s') = b" by (simp add: s'_def)
  show "keeps s s' a" using h by (auto simp: keeps_def listed_def headed_def sh i(2) t)
qed

lemma tail_next: "uk_inv k s \<Longrightarrow> ushape s (val (uk_tail s)) = Some b \<Longrightarrow> b \<noteq> NULL \<Longrightarrow> b \<noteq> val (uk_tail s)"
  by (rule successor_in(2)) (simp_all add: uk_invD)

lemma tail_change:
  assumes "uk_inv k s" "ushape s (val (uk_tail s)) = Some b" "b \<noteq> NULL"
  shows "uk_change k s p (s\<lparr>uk_tail := cell b x\<rparr>)"
  using tail_moves [OF assms] by (simp add: uk_change_def)

lemma alloc_change:
  assumes "uk_inv k s" "is_fresh (uk_heap s) n"
  defines "s' \<equiv> put_seg s n (ksegment_new (uk_k s))"
  shows "uk_change k s p s'" "\<And>a. uk_heap s a \<noteq> None \<Longrightarrow> keeps s s' a" "ushape s' n = Some NULL" "uk_slots s' = uk_slots s"
    "uk_addrs s' = uk_addrs s"
proof -
  note D = uk_invD [OF assms(1)]
  have n: "n \<noteq> NULL" "uk_heap s n = None" using assms(2) by (simp_all add: is_fresh_def)
  have k: "uk_k s = k" using D(1) by (simp add: uk_sizes_def)
  have na: "n \<notin> set (uk_addrs s)" using path_dom [OF D(4)] n(2) by auto
  have "uk_inv k s' \<and> uk_addrs s' = uk_addrs s"
    using D n na by (intro uk_invI) (simp_all add: s'_def heap_simps put_seg_sizes k ksegment_new_def)
  then have i': "uk_inv k s'" and i: "uk_addrs s' = uk_addrs s" by simp_all
  show "uk_addrs s' = uk_addrs s" by (rule i)
  have sh: "ushape s' a = ushape s a" if "a \<noteq> n" for a using that by (simp add: s'_def ushape_def)
  show "ushape s' n = Some NULL" by (simp add: s'_def ushape_def ksegment_new_def us_nx_def)
  show "uk_slots s' = uk_slots s" unfolding s'_def k by (rule uk_slots_new [OF D(3) n(2)])
  have t: "uk_tail s' = uk_tail s" by (simp add: s'_def)
  show kp: "keeps s s' a" if "uk_heap s a \<noteq> None" for a
  proof -
    have "a \<noteq> n" using that n(2) by auto
    then show ?thesis by (simp add: keeps_def listed_def headed_def sh i t)
  qed
  have "a \<noteq> n" if "a \<in> dom (uk_heap s)" for a using that n(2) by auto
  then show "uk_change k s p s'" using i i' kp sh by (auto simp: uk_change_def)
qed

lemma last_listed:
  assumes "uk_inv k s" "a \<in> set (uk_addrs s)" "ushape s a = Some NULL"
  obtains as where "uk_addrs s = as @ [a]"
proof -
  note P = uk_invD(4) [OF assms(1)] and N = uk_invD(2) [OF assms(1)]
  obtain as bs where as: "uk_addrs s = as @ a # bs" using assms(2) by (auto simp: in_set_conv_decomp)
  have "path us_nx (uk_heap s) NULL bs NULL"
    using P assms(3) unfolding as by (auto simp: path_append ushape_def split: option.splits)
  then have "bs = []" using N by (cases bs) auto
  then show thesis using that as by simp
qed

lemma link_change:
  fixes x :: u64
  assumes "uk_inv k s" "uk_heap s c = Some sg" "us_nx sg = NULL" "c \<in> set (uk_addrs s)"
    and "ushape s a = Some NULL" "a \<notin> set (uk_addrs s)"
  defines "s' \<equiv> put_seg s c (sg\<lparr>us_next := cell a x\<rparr>)"
  shows "uk_inv k s'" "uk_addrs s' = uk_addrs s @ [a]" "ushape s' = (ushape s)(c \<mapsto> a)" "uk_slots s' = uk_slots s"
    "b \<noteq> a \<Longrightarrow> keeps s s' b"
proof -
  note D = uk_invD [OF assms(1)]
  have c: "ushape s c = Some NULL" using assms(2,3) by (simp add: ushape_def)
  obtain as where as: "uk_addrs s = as @ [c]" by (rule last_listed [OF assms(1,4) c])
  have a: "a \<noteq> NULL" using assms(5) D(2) by (cases "a = NULL") (auto simp: ushape_def)
  have d: "c \<notin> set as" using path_distinct [OF D(4,2)] as by simp
  have ac: "a \<noteq> c" using assms(4,6) by auto
  have h: "uk_heap s' = (uk_heap s)(c \<mapsto> sg\<lparr>us_next := cell a x\<rparr>)" by (simp add: s'_def)
  have nx: "us_nx (sg\<lparr>us_next := cell a x\<rparr>) = a" by (simp add: us_nx_def)
  obtain sa where sa: "uk_heap s a = Some sa" "us_nx sa = NULL" using assms(5) by (auto simp: ushape_def)
  have "path us_nx (uk_heap s') (val (uk_head s)) as c"
    using D(4) d unfolding as h by (auto simp: path_append path_upd)
  then have "path us_nx (uk_heap s') (val (uk_head s)) (as @ [c]) a"
    by (rule path_snoc [OF _ d]) (auto simp: h nx)
  then have "path us_nx (uk_heap s') (val (uk_head s)) ((as @ [c]) @ [a]) NULL"
    by (rule path_snoc) (use assms(6) as sa ac in \<open>auto simp: h\<close>)
  moreover have "uk_sizes k s'"
    unfolding s'_def by (rule put_seg_sizes [OF D(1)]) (use D(1) assms(2) in \<open>auto simp: uk_sizes_def ran_def\<close>)
  moreover have "uk_heap s' NULL = None" using D(2) assms(2) by (cases "c = NULL") (simp_all add: h)
  moreover have "val (uk_tail s') \<in> set ((as @ [c]) @ [a])" using D(5) as by (auto simp: s'_def)
  ultimately have "uk_inv k s' \<and> uk_addrs s' = (as @ [c]) @ [a]"
    using D(3) by (intro uk_invI) (auto simp: s'_def)
  then show i: "uk_inv k s'" "uk_addrs s' = uk_addrs s @ [a]" using as by simp_all
  show sh: "ushape s' = (ushape s)(c \<mapsto> a)" by (auto simp: ushape_def h nx)
  show "uk_slots s' = uk_slots s"
    using uk_slots_put [OF D(3) assms(2), of "sg\<lparr>us_next := cell a x\<rparr>"] by (simp add: s'_def)
  have t: "uk_tail s' = uk_tail s" by (simp add: s'_def)
  have tl: "tl (uk_addrs s @ [a]) = tl (uk_addrs s) @ [a]" using as by (cases as) auto
  show "keeps s s' b" if "b \<noteq> a"
    using that a c by (auto simp: keeps_def listed_def headed_def sh i(2) t tl)
qed

lemma head_moves:
  fixes x :: u64
  assumes "uk_inv k s" "passed s (uk_head s) g"
  defines "s' \<equiv> s\<lparr>uk_head := cell (val g) x\<rparr>"
  shows "uk_change k s p s'" "uk_slots s' = uk_slots s" "uk_addrs s = val (uk_head s) # uk_addrs s'"
proof -
  note D = uk_invD [OF assms(1)]
  obtain sg as where as: "uk_addrs s = val (uk_head s) # as" "uk_heap s (val (uk_head s)) = Some sg"
    "path us_nx (uk_heap s) (us_nx sg) as NULL" "distinct (uk_addrs s)"
    by (rule uk_addrs_cons [OF assms(1)])
  have g: "us_nx sg = val g" "val g \<noteq> NULL" "val (uk_tail s) \<noteq> val (uk_head s)"
    using assms(2) as(2) by (simp_all add: passed_def ushape_def)
  have "val (uk_tail s) \<in> set as" using D(5) as(1) g(3) by simp
  then have "uk_inv k s' \<and> uk_addrs s' = as"
    using D as(3) g(1) by (intro uk_invI) (simp_all add: s'_def uk_sizes_def)
  then have i: "uk_inv k s'" "uk_addrs s' = as" by simp_all
  have sh: "ushape s' = ushape s" by (simp add: s'_def ushape_def fun_eq_iff)
  have t: "uk_tail s' = uk_tail s" by (simp add: s'_def)
  have "a \<notin> set (tl as)" if "a \<notin> set as" for a using that by (cases as) auto
  moreover have "ushape s (val (uk_head s)) \<noteq> Some NULL" using g as(2) by (simp add: ushape_def)
  ultimately have "keeps s s' a" for a
    by (auto simp: keeps_def listed_def headed_def sh i(2) t as(1))
  then show "uk_change k s p s'" using i sh as(1) by (auto simp: uk_change_def)
  show "uk_addrs s = val (uk_head s) # uk_addrs s'" using as(1) i(2) by simp
  show "uk_slots s' = uk_slots s" by (simp add: s'_def uk_slots_def)
qed

lemmas uk_good_simps = uk_good_def at_seg_def Let_def

lemma change_same: "uk_inv k s \<Longrightarrow> uk_change k s p s"
  by (simp add: uk_change_def keeps_def)

lemma tail_done_simps [simp]:
  "uk_assert k s op (tail_done u) = caller_ok k s op u" "uk_own (tail_done u) = {}"
  "uk_seen (tail_done u) = caller_seen u" "uk_inserted (tail_done u) = None"
  by (cases u; simp)+

lemma caller_keeps: "caller_ok k s op u \<Longrightarrow> (\<And>a. a \<in> caller_seen u \<Longrightarrow> keeps s s' a) \<Longrightarrow> caller_ok k s' op u"
  using keepsD(2) [of s s'] by (cases u) simp_all

lemma caller_seen_dom: "uk_inv k s \<Longrightarrow> caller_ok k s op u \<Longrightarrow> a \<in> caller_seen u \<Longrightarrow> uk_heap s a \<noteq> None"
  using headed_listed by (cases u) auto

lemma listed_dom: "listed s a \<Longrightarrow> uk_heap s a \<noteq> None"
  by (auto simp: listed_def ushape_def)

lemma good_advance_tail:
  assumes "uk_inv k s" "uk_pinv k s t op p" "uk_method p = UAdvTail"
    and "uk_own p \<inter> (set (uk_addrs s) \<union> uk_seen p) = {}"
  shows "uk_good k s op p (uk_advance_tail n s p)"
proof -
  note I = assms(1) and Q = quiet_refl [OF assms(1)] and C = change_same [OF assms(1)] and L = listedE [OF uk_invD(1) [OF assms(1)]]
  have a: "uk_assert k s op p" using assms(2) by (simp add: uk_pinv_def)
  note F = fine_good [OF assms(1,2)]
  show ?thesis
  proof (cases p)
    case (ATCurrent u c)
    show ?thesis by (rule F) (use ATCurrent Q a in \<open>auto simp: uk_step_simps\<close>)
  next
    case (ATNext u c)
    then have "listed s (val c)" using a by simp
    then obtain sg where "uk_heap s (val c) = Some sg" "ushape s (val c) = Some (us_nx sg)" by (rule L)
    then show ?thesis
      by (intro F) (use ATNext Q a in \<open>auto simp: uk_step_simps next_read_def us_nx_def\<close>)
  next
    case (ATCheck u c e)
    show ?thesis by (rule F) (use ATCheck Q a in \<open>auto simp: uk_step_simps\<close>)
  next
    case (ATSwing u c e)
    have e: "ushape s (val c) = Some (val e)" "val e \<noteq> NULL" "caller_ok k s op u"
      using a ATSwing by (simp_all add: next_read_def)
    show ?thesis
    proof (cases "uk_tail s = c")
      case True
      note T = tail_moves [OF I, of "val e" "aba e + 1", unfolded True, OF e(1,2)]
      have "uk_change k s p (s\<lparr>uk_tail := cell (val e) (aba e + 1)\<rparr>)"
        by (rule tail_change [OF I]) (use e True in simp_all)
      then show ?thesis using ATSwing True e(3) T(5) caller_keeps [OF e(3) T(3)] by (auto simp: uk_good_simps cas_def)
    next
      case False
      then show ?thesis using ATSwing C e(3) by (auto simp: uk_good_simps cas_def)
    qed
  next
    case (ATAlloc u c e)
    then have u: "caller_ok k s op u" "listed s (val c)" "val e = NULL" using a by simp_all
    show ?thesis
    proof (cases "is_fresh (uk_heap s) n")
      case True
      note A = alloc_change [OF I True]
      have "caller_ok k (put_seg s n (ksegment_new (uk_k s))) op u"
        by (rule caller_keeps [OF u(1)]) (use A(2) caller_seen_dom [OF I u(1)] in blast)
      moreover have "listed (put_seg s n (ksegment_new (uk_k s))) (val c)"
        by (rule keepsD(1) [OF A(2) [OF listed_dom [OF u(2)]] u(2)])
      ultimately show ?thesis
        using ATAlloc True A(1,3,4) u(3) is_fresh_notin_dom [OF True] by (auto simp: uk_good_simps)
    next
      case False
      show ?thesis by (rule F) (use ATAlloc False Q a in \<open>auto simp: uk_step_simps\<close>)
    qed
  next
    case (ATLink u c e b)
    then have u: "caller_ok k s op u" "listed s (val c)" "val e = NULL" "ushape s b = Some NULL"
      and b: "b \<notin> set (uk_addrs s)" "b \<noteq> val c" "b \<notin> caller_seen u"
      using a assms(4) by auto
    obtain sg where sg: "uk_heap s (val c) = Some sg" "ushape s (val c) = Some (us_nx sg)" by (rule L [OF u(2)])
    show ?thesis
    proof (cases "us_next sg = e")
      case True
      have n: "us_nx sg = NULL" using True u(3) by (simp add: us_nx_def)
      have c: "val c \<in> set (uk_addrs s)" using u(2) sg(2) n by (simp add: listed_def)
      note N = link_change [OF I sg(1) n c u(4) b(1), where x = "aba e + 1"]
      have b0: "b \<noteq> NULL" using u(4) uk_invD(2) [OF I] by (cases "b = NULL") (auto simp: ushape_def)
      let ?s = "put_seg s (val c) (sg\<lparr>us_next := cell b (aba e + 1)\<rparr>)"
      have "uk_change k s p ?s"
        using N c ATLink by (auto simp: uk_change_def)
      moreover have "caller_ok k ?s op u"
      proof (rule caller_keeps [OF u(1)])
        fix d
        assume "d \<in> caller_seen u"
        then have "d \<noteq> b" using b(3) by auto
        then show "keeps s ?s d" by (rule N(5))
      qed
      moreover have "listed ?s (val c)"
        using N(5) [of "val c"] b(2) u(2) keepsD(1) by blast
      ultimately show ?thesis using ATLink True sg(1) N(3,4) b0 by (auto simp: uk_good_simps cas_def)
    next
      case False
      then have "put_seg s (val c) (sg\<lparr>us_next := us_next sg\<rparr>) = s"
        using sg(1) by (simp add: put_seg_def fun_upd_idem)
      then show ?thesis using ATLink False C sg(1) u(1) by (auto simp: uk_good_simps cas_def)
    qed
  next
    case (ATSet u c b)
    then have e: "ushape s (val c) = Some b" "b \<noteq> NULL" "caller_ok k s op u" using a by simp_all
    show ?thesis
    proof (cases "uk_tail s = c")
      case True
      note T = tail_moves [OF I, of b "aba c + 1", unfolded True, OF e(1,2)]
      have "uk_change k s p (s\<lparr>uk_tail := cell b (aba c + 1)\<rparr>)"
        by (rule tail_change [OF I]) (use e True in simp_all)
      then show ?thesis using ATSet True e(3) T(5) caller_keeps [OF e(3) T(3)] by (auto simp: uk_good_simps cas_def)
    next
      case False
      then show ?thesis using ATSet C e(3) by (auto simp: uk_good_simps cas_def)
    qed
  qed (use assms(3) in \<open>simp_all add: uk_method_def\<close>)
qed

lemma good_advance_head:
  assumes "uk_inv k s" "uk_pinv k s t op p" "uk_method p = UAdvHead"
  shows "uk_good k s op p (uk_advance_head s p)"
proof -
  note I = assms(1) and Q = quiet_refl [OF assms(1)] and C = change_same [OF assms(1)]
    and L = listedE [OF uk_invD(1) [OF assms(1)]] and H = headedE [OF uk_invD(1) [OF assms(1)]]
  have a: "uk_assert k s op p" using assms(2) by (simp add: uk_pinv_def)
  note F = fine_good [OF assms(1,2)]
  show ?thesis
  proof (cases p)
    case (AHCurrent h)
    show ?thesis by (rule F) (use AHCurrent Q a in \<open>auto simp: uk_step_simps\<close>)
  next
    case (AHTail h)
    show ?thesis
      by (rule F) (use AHTail Q a tail_listed [OF I] in \<open>auto simp: uk_step_simps tail_seen_def\<close>)
  next
    case (AHTailNext h c)
    then have "listed s (val c)" using a by (simp add: tail_seen_def)
    then obtain sg where "uk_heap s (val c) = Some sg" "ushape s (val c) = Some (us_nx sg)" by (rule L)
    then show ?thesis
      by (intro F) (use AHTailNext Q a in \<open>auto simp: uk_step_simps next_read_def us_nx_def\<close>)
  next
    case (AHHeadNext h c e)
    then have t: "tail_seen s h c" "next_read s c e" "op = Deq" using a by simp_all
    then have h: "headed s (val h)" by (simp add: tail_seen_def)
    obtain sg where sg: "uk_heap s (val h) = Some sg" "ushape s (val h) = Some (us_nx sg)" by (rule H [OF h])
    have "val c = val h \<and> val e = NULL" if "us_nx sg = NULL"
    proof -
      have "val (uk_tail s) = val h" using h sg(2) that by (simp add: headed_def)
      then have "uk_tail s = c" using t(1) by (simp add: tail_seen_def)
      then show ?thesis using t(2) sg(2) that \<open>val (uk_tail s) = val h\<close> by (auto simp: next_read_def)
    qed
    then show ?thesis
      by (intro F) (use AHHeadNext Q t sg in \<open>auto simp: uk_step_simps next_read_def us_nx_def\<close>)
  next
    case (AHCheck h c e g)
    then have g: "tail_seen s h c" "next_read s c e" "next_read s h g" "op = Deq" "val g = NULL \<Longrightarrow> val c = val h \<and> val e = NULL"
      using a by simp_all
    have "passed s h g" if "val c \<noteq> val h"
      using g(1,3,5) that unfolding tail_seen_def passed_def next_read_def by metis
    moreover have "0 < val g" if "0 < val e" using g(5) that by (cases "val g = NULL") simp_all
    ultimately show ?thesis by (intro F) (use AHCheck Q g(1-4) in \<open>auto simp: uk_step_simps\<close>)
  next
    case (AHTailCheck h c e g)
    then have g: "tail_seen s h c" "next_read s h g" "op = Deq" "val g \<noteq> NULL" using a by simp_all
    have "passed s h g" if "uk_tail s \<noteq> c"
      using g that unfolding tail_seen_def passed_def next_read_def by metis
    then show ?thesis by (intro F) (use AHTailCheck Q a in \<open>auto simp: uk_step_simps\<close>)
  next
    case (AHSwing h c e g)
    then have ts: "tail_seen s h c" "next_read s c e" "next_read s h g" "op = Deq" "val c = val h" "val e \<noteq> NULL" "val g \<noteq> NULL"
      using a by simp_all
    have e: "ushape s (val c) = Some (val e)" "val e \<noteq> NULL" "op = Deq" "val c = val h"
      using ts(2,4-6) unfolding next_read_def by blast+
    have h: "headed s (val h)" "val (uk_tail s) = val h \<longrightarrow> uk_tail s = c" "val g \<noteq> NULL" "ushape s (val h) = Some (val g)"
      using ts(1,3,7) unfolding tail_seen_def next_read_def by blast+
    show ?thesis
    proof (cases "uk_tail s = c")
      case True
      let ?s = "s\<lparr>uk_tail := cell (val e) (aba c + 1)\<rparr>"
      note T = tail_moves [OF I, of "val e" "aba c + 1", unfolded True, OF e(1,2)]
      have "uk_change k s p ?s"
        by (rule tail_change [OF I]) (use e True in simp_all)
      moreover have "passed ?s h g"
        using keepsD(2) [OF T(3) h(1)] T(4) tail_next [OF I, unfolded True, OF e(1,2)] h(3,4) e(4)
        by (simp add: passed_def)
      ultimately show ?thesis using AHSwing True e(3) T(5) by (auto simp: uk_good_simps cas_def)
    next
      case False
      show ?thesis
        by (rule F) (use AHSwing False Q e h in \<open>auto simp: uk_step_simps cas_def passed_def\<close>)
    qed
  next
    case (AHDelete h g)
    then have h: "headed s (val h)" "passed s h g" "op = Deq" using a by (simp_all add: passed_def)
    obtain sg where sg: "uk_heap s (val h) = Some sg" "us_size sg = k" "length (us_items sg) = unat k" by (rule H [OF h(1)])
    let ?s = "put_seg s (val h) (sg\<lparr>us_deleted := True\<rparr>)"
    have "quiet k s ?s" by (rule quiet_put [OF I sg(1)]) (use sg in simp_all)
    moreover have "uk_slots ?s = uk_slots s"
      using uk_slots_put [OF uk_invD(3) [OF I] sg(1), of "sg\<lparr>us_deleted := True\<rparr>"] by simp
    ultimately show ?thesis by (intro F) (use AHDelete h sg in \<open>auto simp: uk_step_simps\<close>)
  next
    case (AHSet h g)
    then have g: "passed s h g" "op = Deq" using a by simp_all
    show ?thesis
    proof (cases "uk_head s = h")
      case True
      note M = head_moves [OF I g(1) [folded True], where x = "aba h + 1"]
      show ?thesis using AHSet True g(2) M by (auto simp: uk_good_simps cas_def)
    next
      case False
      show ?thesis by (rule F) (use AHSet False Q g in \<open>auto simp: uk_step_simps cas_def\<close>)
    qed
  qed (use assms(3) in \<open>simp_all add: uk_method_def\<close>)
qed

lemma uk_step_good:
  assumes "uk_inv k s" "uk_pinv k s t op p" "uk_own p \<inter> (set (uk_addrs s) \<union> uk_seen p) = {}"
  shows "uk_good k s op p (uk_body t n s p)"
  using fine_good [OF assms(1,2) fine_enqueue [OF assms(1,2)], of n] fine_good [OF assms(1,2) fine_committed [OF assms(1,2)]]
    fine_good [OF assms(1,2) fine_dequeue [OF assms(1,2)], of n] good_advance_tail [OF assms(1,2) _ assms(3), of n]
    good_advance_head [OF assms(1,2)]
  by (simp add: uk_body_def split: uk_method.split)

lemma uk_put_inserted: "uk_pinv k s t op p \<Longrightarrow> uk_inserted p = Some x \<Longrightarrow> kf_put op = Some x"
  by (cases p) (auto simp: uk_pinv_def)

lemma uk_init_inv: "a \<noteq> NULL \<Longrightarrow> uk_inv k (uk_init k a)"
  unfolding uk_inv_def
  by (intro conjI exI [of _ "[a]"]) (simp_all add: uk_init_def uk_sizes_def ksegment_new_def us_nx_def)

lemma uk_init_slots: "uk_slots (uk_init k a) = {#}"
  by (simp add: uk_slots_def uk_init_def ksegment_new_def)

lemma uk_common_used: "uk_inv k s \<Longrightarrow> set (uk_addrs s) \<subseteq> dom (uk_heap s)"
  by (rule path_dom) (rule uk_invD(4))

lemma uk_pinv_used: "uk_pinv k s t op p \<Longrightarrow> uk_own p \<union> uk_seen p \<subseteq> dom (uk_heap s)"
proof -
  assume p: "uk_pinv k s t op p"
  have l: "a \<in> dom (uk_heap s)" if "listed s a" for a using listed_dom [OF that] by auto
  have h: "a \<in> dom (uk_heap s)" if "headed s a" for a using that by (auto simp: headed_def ushape_def)
  have u: "caller_seen u \<subseteq> dom (uk_heap s)" if "caller_ok k s op u" for u using that h by (cases u) auto
  have sh: "a \<in> dom (uk_heap s)" if "ushape s a = Some b" for a b using that by (auto simp: ushape_def)
  have "uk_assert k s op p" using p by (simp add: uk_pinv_def)
  then show ?thesis
    by (cases p) (use l h u sh in \<open>simp_all add: tail_seen_def passed_def\<close>)
qed

interpretation uk: item_pool uk_prog "uk_init k (Suc a)" "uk_call_ok k" "uk_inv k" "uk_pinv k"
    "\<lambda>s. dom (uk_heap s)" "\<lambda>s. set (uk_addrs s)" "\<lambda>_. {}" uk_own uk_seen uk_rely "\<lambda>_ _. True"
    uk_slots kf_put kf_stored kf_got "\<lambda>_ _. uk_inserted" "\<lambda>_ _ _. None" for k a
proof (unfold_locales, goal_cases)
  case 1 show ?case by (rule uk_init_inv) simp
next
  case (2 s t op) then show ?case by (cases op) (auto simp: uk_pinv_def uk_call_ok_def)
next
  case (3 op) then show ?case by (cases op) simp_all
next
  case 6 then show ?case by (rule uk_pinv_used)
next
  case 7 then show ?case by (rule uk_common_used)
next
  case (8 s t op p n s' out)
  have g: "uk_good k s op p (s', out)" using uk_step_good [OF 8(1-3), of n] 8(4) by simp
  then show ?case by (auto simp: uk_good_def uk_change_def)
next
  case (9 s t op p n s' p')
  have g: "uk_good k s op p (s', Next p')" using uk_step_good [OF 9(1-3), of n] 9(4) by simp
  then have n: "uk_own p' \<subseteq> - dom (uk_heap s)" "uk_seen p' \<subseteq> uk_seen p \<union> set (uk_addrs s)"
    "set (uk_addrs s') \<subseteq> set (uk_addrs s) \<union> uk_own p" "uk_assert k s' op p'"
    by (simp_all add: uk_good_def uk_change_def)
  have "uk_own p' \<inter> (set (uk_addrs s') \<union> uk_seen p') = {}"
    using n(1-3) uk_pinv_used [OF 9(2)] uk_common_used [OF 9(1)] by blast
  then show ?case using n 9(2) by (auto simp: uk_pinv_def)
next
  case (10 s t op p n s' e)
  then show ?case using uk_step_good [OF 10(1-3), of n] by (auto simp: uk_good_def)
next
  case (11 s t op p n s' out A u B)
  have g: "uk_good k s op p (s', out)" using uk_step_good [OF 11(1-3), of n] 11(4) by simp
  then have c: "\<forall>a \<in> dom (uk_heap s) - uk_own p. keeps s s' a"
    "\<forall>a \<in> dom (uk_heap s) - uk_own p - set (uk_addrs s) - uk_seen p. ushape s' a = ushape s a"
    by (simp_all add: uk_good_def uk_change_def)
  show ?case unfolding uk_rely_def
  proof (intro conjI ballI)
    fix x assume "x \<in> A" then show "ushape s' x = ushape s x" using 11(5,6) by (intro c(2) [rule_format]) blast
  next
    fix x assume "x \<in> B" then show "keeps s s' x" using 11(8) by (intro c(1) [rule_format]) blast
  qed
next
  case (12 s s' t p op)
  then show ?case using uk_stable by simp
next
  case 16 show ?case by (rule uk_init_slots)
next
  case (17 s op) then show ?case by (cases op) simp_all
next
  case 18 then show ?case by (rule kf_item_stored)
next
  case 19 then show ?case using uk_put_inserted by blast
next
  case (20 s t op p n s' out)
  then show ?case using uk_step_good [OF 20(1-3), of n] by (simp add: uk_good_def)
qed simp_all

section \<open>Runs of the queue\<close>

abbreviation uk_run :: "u64 \<Rightarrow> addr \<Rightarrow> kf_op sched \<Rightarrow> (ukfifo, kf_op, kf_res, uk_pc) config" where
  "uk_run k a es \<equiv> exec uk_prog es (init (uk_init k (Suc a)))"

lemma uk_calls_ok: "k \<noteq> 0 \<Longrightarrow> no_null es \<Longrightarrow> list_all (valid_call (uk_call_ok k)) es"
  by (simp add: uk_call_ok_def [abs_def])

definition uk_two_threads :: "kf_op sched" where
  "uk_two_threads = [(0, Call (Enq 5)), (1, Call (Enq 6))] @
     concat (replicate 30 [(0, Go 7), (1, Go 8)]) @ [(0, Leave), (1, Leave), (0, Call Deq)] @
     replicate 12 (0, Go 9) @ [(0, Leave)]"

lemma uk_two_threads_idle: "threads (uk_run 1 0 uk_two_threads) t = Idle"
proof -
  have "threads (uk_run 1 0 uk_two_threads) 0 = Idle \<and> threads (uk_run 1 0 uk_two_threads) 1 = Idle" by code_simp
  moreover have "threads (uk_run 1 0 uk_two_threads) t = Idle" if "t \<noteq> 0" "t \<noteq> 1"
    using that by (subst exec_other) (simp_all add: uk_two_threads_def)
  ultimately show ?thesis by (cases "t = 0"; cases "t = 1") simp_all
qed

end
