(* ===== verification/Unbounded_KFifo_Commit.thy ===== *)
theory Unbounded_KFifo_Commit
  imports Unbounded_KFifo
begin

text \<open>
  What the committed test of the unbounded-size k-FIFO queue is for: a segment that is taken
  off the list holds no item that an enqueue has accepted. The theory Unbounded_KFifo counts
  the items of all the segments ever allocated; here the content of the queue is what can be
  reached from the head, and the theory shows that a segment goes only when each of its slots
  is free or belongs to an enqueue that will undo its insertion and try again. The proof goes
  over whole configurations: a slot that is in use behind the head must have its thread.
\<close>

section \<open>Content of the queue, insertions under way, scans\<close>

definition uk_items :: "ukfifo \<Rightarrow> u64 multiset" where
  "uk_items s = (\<Sum>a \<in> set (uk_addrs s). slot_items (us_items (the (uk_heap s a))))"

definition slot_of :: "ukfifo \<Rightarrow> addr \<Rightarrow> u64 \<Rightarrow> slot" where
  "slot_of s a i = us_items (the (uk_heap s a)) ! unat i"

definition gone :: "ukfifo \<Rightarrow> addr \<Rightarrow> bool" where
  "gone s a \<longleftrightarrow> us_deleted (the (uk_heap s a))"

text \<open>The slot and the word that a thread inside of committed has inserted.\<close>

fun uk_commits :: "uk_pc \<Rightarrow> (addr \<times> u64 \<times> slot) option" where
  "uk_commits (UComItem x c i d) = Some (val c, i, d)"
| "uk_commits (UComHead x c i d) = Some (val c, i, d)"
| "uk_commits (UComDeleted x c i d h) = Some (val c, i, d)"
| "uk_commits (UComTail x c i d) = Some (val c, i, d)"
| "uk_commits (UComBump x c i d h) = Some (val c, i, d)"
| "uk_commits (UComUndo x c i d) = Some (val c, i, d)"
| "uk_commits p = None"

text \<open>It cannot accept the insertion into the segment a as long as the head keeps its word.\<close>

fun uk_open :: "addr \<Rightarrow> uk_pc \<Rightarrow> bool" where
  "uk_open a (UComDeleted x c i d h) \<longleftrightarrow> val h = a"
| "uk_open a (UComBump x c i d h) \<longleftrightarrow> val h = a"
| "uk_open a (UComTail x c i d) \<longleftrightarrow> False"
| "uk_open a p \<longleftrightarrow> True"

text \<open>The slots of the head segment that a dequeue has found free, for the head word it has read.\<close>

definition scanned :: "u64 \<Rightarrow> u64 \<Rightarrow> u64 \<Rightarrow> u64 set" where
  "scanned k r i = {x. \<exists>j < unat i. unat x = (unat r + j) mod unat k}"

definition all_slots :: "u64 \<Rightarrow> u64 set" where
  "all_slots k = {x. x < k}"

fun uk_watch :: "u64 \<Rightarrow> uk_pc \<Rightarrow> (addr acell \<times> u64 set) option" where
  "uk_watch k (UDFind h r i) = Some (h, scanned k r i)"
| "uk_watch k (UDTail h f) = (if f = None then Some (h, all_slots k) else None)"
| "uk_watch k (UDCheck h f c) = (if f = None then Some (h, all_slots k) else None)"
| "uk_watch k (AHCurrent h) = Some (h, all_slots k)"
| "uk_watch k (AHTail h) = Some (h, all_slots k)"
| "uk_watch k (AHTailNext h c) = Some (h, all_slots k)"
| "uk_watch k (AHHeadNext h c e) = Some (h, all_slots k)"
| "uk_watch k (AHCheck h c e g) = Some (h, all_slots k)"
| "uk_watch k (AHTailCheck h c e g) = Some (h, all_slots k)"
| "uk_watch k (AHSwing h c e g) = Some (h, all_slots k)"
| "uk_watch k (AHDelete h g) = Some (h, all_slots k)"
| "uk_watch k (AHSet h g) = Some (h, all_slots k)"
| "uk_watch k p = None"

fun uk_more :: "u64 \<Rightarrow> ukfifo \<Rightarrow> uk_pc \<Rightarrow> bool" where
  "uk_more k s (UComBump x c i d h) \<longleftrightarrow> val c = val h"
| "uk_more k s (UDFind h r i) \<longleftrightarrow> r < k"
| "uk_more k s (AHSet h g) \<longleftrightarrow> gone s (val h)"
| "uk_more k s p \<longleftrightarrow> True"

lemma watch_commits: "uk_watch k p \<noteq> None \<Longrightarrow> uk_commits p = None"
  by (cases p) simp_all

lemma tail_done_quiet [simp]:
  "uk_commits (tail_done u) = None" "uk_watch k (tail_done u) = None" "uk_more k s (tail_done u)"
  by (cases u; simp)+

lemma start_quiet [simp]:
  "uk_commits (uk_start op) = None" "uk_watch k (uk_start op) = None" "uk_more k s (uk_start op)"
  by (cases op; simp)+

section \<open>What a step has to keep\<close>

definition seg_step :: "u64 \<Rightarrow> ukfifo \<Rightarrow> ukfifo \<Rightarrow> bool" where
  "seg_step k s s' \<longleftrightarrow>
     (\<forall>a \<in> dom (uk_heap s). a \<in> dom (uk_heap s') \<and> (gone s a \<longrightarrow> gone s' a)) \<and>
     (\<forall>a \<in> dom (uk_heap s') - dom (uk_heap s). ushape s' a = Some NULL \<and> (\<forall>i < k. val (slot_of s' a i) = 0)) \<and>
     (\<forall>a \<in> dom (uk_heap s) - set (uk_addrs s) - set (uk_addrs s'). ushape s a = Some NULL \<longrightarrow>
        ushape s' a = Some NULL \<and> (\<forall>i < k. slot_of s' a i = slot_of s a i))"

definition head_step :: "u64 \<Rightarrow> ukfifo \<Rightarrow> uk_pc \<Rightarrow> ukfifo \<Rightarrow> (uk_pc, kf_res) outcome \<Rightarrow> bool" where
  "head_step k s p s' out \<longleftrightarrow>
     (uk_head s' = uk_head s \<or> aba (uk_head s') = aba (uk_head s) + 1 \<and> (\<forall>p'. out = Next p' \<longrightarrow> uk_watch k p' = None)) \<and>
     (\<forall>a \<in> set (uk_addrs s) - set (uk_addrs s'). a = val (uk_head s) \<and> gone s a \<and>
        uk_watch k p = Some (uk_head s, all_slots k))"

definition slot_step :: "u64 \<Rightarrow> ukfifo \<Rightarrow> ukfifo \<Rightarrow> (uk_pc, kf_res) outcome \<Rightarrow> bool" where
  "slot_step k s s' out \<longleftrightarrow> (\<forall>a \<in> dom (uk_heap s). \<forall>i < k. slot_of s' a i = slot_of s a i \<or> val (slot_of s' a i) = 0 \<or>
     (\<exists>p'. out = Next p' \<and> uk_commits p' = Some (a, i, slot_of s' a i) \<and> uk_open a p'))"

definition hold_step :: "ukfifo \<Rightarrow> uk_pc \<Rightarrow> ukfifo \<Rightarrow> (uk_pc, kf_res) outcome \<Rightarrow> bool" where
  "hold_step s p s' out \<longleftrightarrow> (\<forall>a i w. uk_commits p = Some (a, i, w) \<and> slot_of s' a i = w \<longrightarrow>
     (a \<notin> set (uk_addrs s') \<and> gone s a \<longrightarrow> (\<exists>p'. out = Next p' \<and> uk_commits p' = Some (a, i, w))) \<and>
     (uk_open a p \<and> uk_head s' = uk_head s \<and> val (uk_head s) = a \<longrightarrow>
        (\<exists>p'. out = Next p' \<and> uk_commits p' = Some (a, i, w) \<and> uk_open a p')))"

definition watch_step :: "u64 \<Rightarrow> ukfifo \<Rightarrow> uk_pc \<Rightarrow> ukfifo \<Rightarrow> (uk_pc, kf_res) outcome \<Rightarrow> bool" where
  "watch_step k s p s' out \<longleftrightarrow> (\<forall>p'. out = Next p' \<longrightarrow> uk_more k s' p' \<and>
     (\<forall>h S. uk_watch k p' = Some (h, S) \<longrightarrow>
        (h = uk_head s \<or> (\<exists>S0. uk_watch k p = Some (h, S0))) \<and>
        (\<forall>i \<in> S. i < k \<longrightarrow> (\<exists>S0. uk_watch k p = Some (h, S0) \<and> i \<in> S0) \<or> val (slot_of s' (val h) i) = 0)))"

definition uk_kept :: "u64 \<Rightarrow> ukfifo \<Rightarrow> uk_pc \<Rightarrow> uk_out \<Rightarrow> bool" where
  "uk_kept k s p o' \<longleftrightarrow> seg_step k s (fst o') \<and> head_step k s p (fst o') (snd o') \<and> slot_step k s (fst o') (snd o') \<and>
     hold_step s p (fst o') (snd o') \<and> watch_step k s p (fst o') (snd o')"

lemmas local_steps = hold_step_def watch_step_def

text \<open>Steps that change neither a segment nor the head.\<close>

definition calm :: "ukfifo \<Rightarrow> ukfifo \<Rightarrow> bool" where
  "calm s s' \<longleftrightarrow> uk_heap s' = uk_heap s \<and> uk_head s' = uk_head s"

lemma calm_same [simp]: "calm s s" "calm s (s\<lparr>uk_tail := c\<rparr>)"
  by (simp_all add: calm_def)

lemma calm_eqs:
  assumes "calm s s'"
  shows "uk_addrs s' = uk_addrs s" "slot_of s' = slot_of s" "gone s' = gone s" "ushape s' = ushape s"
    "uk_heap s' = uk_heap s" "uk_head s' = uk_head s"
proof -
  show h: "uk_heap s' = uk_heap s" "uk_head s' = uk_head s" using assms by (simp_all add: calm_def)
  show "uk_addrs s' = uk_addrs s" "slot_of s' = slot_of s" "gone s' = gone s" "ushape s' = ushape s"
    by (simp_all add: h uk_addrs_def slot_of_def [abs_def] gone_def [abs_def] ushape_def [abs_def])
qed

lemma calm_kept:
  assumes "calm s (fst o')" "hold_step s p (fst o') (snd o')" "watch_step k s p (fst o') (snd o')"
  shows "uk_kept k s p o'"
  using assms(2,3) by (simp add: uk_kept_def seg_step_def head_step_def slot_step_def calm_eqs [OF assms(1)])

lemma hold_none [simp]: "uk_commits p = None \<Longrightarrow> hold_step s p s' out"
  by (simp add: hold_step_def)

text \<open>A step that replaces the word of one slot.\<close>

definition slot_put :: "u64 \<Rightarrow> ukfifo \<Rightarrow> addr \<Rightarrow> u64 \<Rightarrow> slot \<Rightarrow> ukfifo \<Rightarrow> bool" where
  "slot_put k s a i new s' \<longleftrightarrow> uk_head s' = uk_head s \<and> uk_addrs s' = uk_addrs s \<and> ushape s' = ushape s \<and> gone s' = gone s \<and>
     (\<forall>b j. j < k \<longrightarrow> slot_of s' b j = (if b = a \<and> j = i then new else slot_of s b j))"

lemma item_cas_put [consumes 5, case_names hit miss]:
  assumes "uk_inv k s" "uk_heap s a = Some sg" "us_size sg = k" "length (us_items sg) = unat k" "i < k"
  obtains (hit) s' where "item_cas s a i old new = (\<lambda>f. (s', f True))" "slot_of s a i = old" "slot_put k s a i new s'"
    | (miss) "item_cas s a i old new = (\<lambda>f. (s, f False))" "slot_of s a i \<noteq> old"
proof -
  have i: "unat i < length (us_items sg)" using assms(4,5) by (simp add: word_less_nat_alt)
  then have at: "slot_at (us_items sg) i = Some (us_items sg ! unat i)" by simp
  have so: "slot_of s a i = us_items sg ! unat i" using assms(2) by (simp add: slot_of_def)
  show thesis
  proof (cases "us_items sg ! unat i = old")
    case True
    let ?s = "put_seg s a (sg\<lparr>us_items := (us_items sg)[unat i := new]\<rparr>)"
    have q: "quiet k s ?s" by (rule quiet_put [OF assms(1,2)]) (use assms(3,4) in simp_all)
    have "slot_put k s a i new ?s"
      using quiet_keeps(2) [OF assms(1) q] q assms(2) i
      by (auto simp: slot_put_def quiet_def slot_of_def gone_def fun_eq_iff nth_list_update word_unat_eq_iff)
    moreover have "item_cas s a i old new = (\<lambda>f. (?s, f True))"
      using True by (simp add: item_cas_def at_seg_def slot_cas_def at assms(2) cas_def fun_eq_iff)
    ultimately show thesis using that(1) so True by blast
  next
    case False
    have "put_seg s a (sg\<lparr>us_items := us_items sg\<rparr>) = s" using assms(2) by (simp add: put_seg_def fun_upd_idem)
    then have "item_cas s a i old new = (\<lambda>f. (s, f False))"
      using False by (simp add: item_cas_def at_seg_def slot_cas_def at assms(2) cas_def fun_eq_iff)
    then show thesis using so False by (intro that(2)) simp_all
  qed
qed

lemma slot_put_kept:
  assumes "slot_put k s a i new s'" "fst o' = s'" "ushape s a = Some NULL \<Longrightarrow> a \<in> set (uk_addrs s)"
    and "val new = 0 \<or> (\<exists>p'. snd o' = Next p' \<and> uk_commits p' = Some (a, i, new) \<and> uk_open a p')"
    and "hold_step s p s' (snd o')" "watch_step k s p s' (snd o')"
  shows "uk_kept k s p o'"
proof -
  note P = assms(1)[unfolded slot_put_def]
  have d: "dom (uk_heap s') = dom (uk_heap s)" by (rule ushape_same_dom) (use P in simp)
  have "seg_step k s s'" using P d assms(3) by (auto simp: seg_step_def)
  moreover have "head_step k s p s' (snd o')" using P by (simp add: head_step_def)
  moreover have "slot_step k s s' (snd o')" using P assms(4) by (auto simp: slot_step_def)
  ultimately show ?thesis using assms(2,5,6) by (simp add: uk_kept_def)
qed

lemma headed_linked:
  assumes "uk_inv k s" "headed s a" "ushape s a = Some NULL"
  shows "a \<in> set (uk_addrs s)"
  using assms(2,3) uk_invD(5) [OF assms(1)] by (auto simp: headed_def)

lemma listed_linked: "listed s a \<Longrightarrow> ushape s a = Some NULL \<Longrightarrow> a \<in> set (uk_addrs s)"
  by (auto simp: listed_def)

lemmas kept_simps = at_seg_def uk_back_def uk_draw_def watch_step_def

lemma kept_enqueue:
  assumes "uk_inv k s" "uk_pinv k s t op p" "uk_method p = UEnqueue"
  shows "uk_kept k s p (uk_enqueue n s p)"
proof -
  note L = listedE [OF uk_invD(1) [OF assms(1)]]
  have k: "k \<noteq> 0" "op \<noteq> Enq 0" and a: "uk_assert k s op p"
    using assms(2) by (simp_all add: uk_pinv_def uk_call_ok_def)
  show ?thesis
  proof (cases p)
    case (UHead x c)
    then have "listed s (val c)" using a by simp
    then show ?thesis by (rule L) (use UHead k in \<open>auto intro!: calm_kept simp: kept_simps\<close>)
  next
    case (UFind x c r i)
    then have "listed s (val c)" using a by simp
    then obtain sg where sg: "uk_heap s (val c) = Some sg" by (rule L)
    show ?thesis
      by (rule calm_kept; cases "uk_find_index sg True r i") (use UFind sg in \<open>simp_all add: kept_simps\<close>)
  next
    case (UCheck x c f)
    then show ?thesis by (intro calm_kept; cases f) (auto simp: kept_simps)
  next
    case (UCas x c i d)
    then have l: "listed s (val c)" using a by simp
    then obtain sg where sg: "uk_heap s (val c) = Some sg" "us_size sg = k" "length (us_items sg) = unat k"
      by (rule L)
    have i: "i < k" using a UCas by simp
    show ?thesis
    proof (rule item_cas_put [OF assms(1) sg i, of d "cell x (aba d + 1)"], goal_cases)
      case hit: (1 s')
      then show ?thesis
        by (intro slot_put_kept [OF hit(3)]) (use UCas listed_linked [OF l] in \<open>auto simp: Let_def watch_step_def\<close>)
    next
      case miss: 2
      then show ?thesis by (intro calm_kept) (use UCas in \<open>auto simp: Let_def watch_step_def\<close>)
    qed
  qed (use assms(3) in \<open>auto intro!: calm_kept simp: uk_method_def kept_simps\<close>)
qed

lemma kept_committed:
  assumes "uk_inv k s" "uk_pinv k s t op p" "uk_method p = UCommitted" "uk_more k s p"
  shows "uk_kept k s p (uk_committed s p)"
proof -
  note L = listedE [OF uk_invD(1) [OF assms(1)]]
  have k: "k \<noteq> 0" "op \<noteq> Enq 0" and a: "uk_assert k s op p"
    using assms(2) by (simp_all add: uk_pinv_def uk_call_ok_def)
  have hin: "val (uk_head s) \<in> set (uk_addrs s)" by (rule uk_addrs_cons [OF assms(1)]) simp
  show ?thesis
  proof (cases p)
    case (UComItem x c i d)
    then have "listed s (val c)" using a by simp
    then obtain sg where sg: "uk_heap s (val c) = Some sg" "us_size sg = k" "length (us_items sg) = unat k"
      by (rule L)
    have "unat i < unat k" using a UComItem by (simp add: word_less_nat_alt)
    then show ?thesis
      by (intro calm_kept) (use UComItem sg in \<open>auto simp: kept_simps hold_step_def slot_at_def slot_of_def\<close>)
  next
    case (UComHead x c i d)
    then show ?thesis by (intro calm_kept) (auto simp: kept_simps hold_step_def)
  next
    case (UComDeleted x c i d h)
    then have "listed s (val c)" using a by simp
    then show ?thesis
      by (rule L, intro calm_kept) (use UComDeleted in \<open>auto simp: kept_simps hold_step_def gone_def\<close>)
  next
    case (UComTail x c i d)
    then have "listed s (val c)" using a by simp
    then show ?thesis
      by (rule L, intro calm_kept) (use UComTail in \<open>auto simp: kept_simps hold_step_def gone_def\<close>)
  next
    case (UComBump x c i d h)
    show ?thesis
    proof (cases "uk_head s = h")
      case True
      let ?s = "s\<lparr>uk_head := cell (val h) (aba h + 1)\<rparr>"
      have e: "uk_addrs ?s = uk_addrs s" "slot_of ?s = slot_of s" "gone ?s = gone s" "ushape ?s = ushape s"
        using True by (simp_all add: uk_addrs_def slot_of_def gone_def ushape_def fun_eq_iff)
      have ne: "uk_head ?s \<noteq> uk_head s"
      proof
        assume "uk_head ?s = uk_head s"
        then have "aba (uk_head ?s) = aba (uk_head s)" by (rule arg_cong)
        then show False using True by simp
      qed
      have "val c \<in> set (uk_addrs s)" using assms(4) UComBump True hin by simp
      then show ?thesis
        using UComBump True ne
        by (auto simp: uk_kept_def seg_step_def head_step_def slot_step_def hold_step_def kept_simps e cas_def)
    next
      case False
      then show ?thesis by (intro calm_kept) (use UComBump assms(4) in \<open>auto simp: kept_simps hold_step_def cas_def\<close>)
    qed
  next
    case (UComUndo x c i d)
    then have l: "listed s (val c)" using a by simp
    then obtain sg where sg: "uk_heap s (val c) = Some sg" "us_size sg = k" "length (us_items sg) = unat k"
      by (rule L)
    have i: "i < k" using a UComUndo by simp
    have d: "val d \<noteq> 0" using a k UComUndo by auto
    show ?thesis
    proof (rule item_cas_put [OF assms(1) sg i, of d "cell 0 0"], goal_cases)
      case hit: (1 s')
      have "slot_of s' (val c) i = cell 0 0" using hit(3) i by (simp add: slot_put_def)
      then have "hold_step s p s' out" for out using UComUndo d by (auto simp: hold_step_def)
      then show ?thesis
        by (intro slot_put_kept [OF hit(3)]) (use UComUndo hit listed_linked [OF l] in \<open>auto simp: kept_simps\<close>)
    next
      case miss: 2
      then show ?thesis by (intro calm_kept) (use UComUndo in \<open>auto simp: kept_simps hold_step_def\<close>)
    qed
  qed (use assms(3) in \<open>auto simp: uk_method_def\<close>)
qed

lemma scanned_step:
  assumes "r < k" "i < k" "unat k \<le> 2 ^ 63"
  shows "unat ((r + i) mod k) = (unat r + unat i) mod unat k" "scanned k r (i + 1) = insert ((r + i) mod k) (scanned k r i)"
proof -
  have u: "unat r < unat k" "unat i < unat k" using assms(1,2) by (simp_all add: word_less_nat_alt)
  then have "unat (r + i) = unat r + unat i" using assms(3) by (subst unat_add_no_overflow) simp_all
  then show m: "unat ((r + i) mod k) = (unat r + unat i) mod unat k" by (simp add: unat_mod)
  have "unat (i + 1) = Suc (unat i)" using u assms(3) by (subst unat_add_no_overflow) simp_all
  then show "scanned k r (i + 1) = insert ((r + i) mod k) (scanned k r i)"
    using m by (auto simp: scanned_def less_Suc_eq word_unat_eq_iff)
qed

lemma scanned_all:
  assumes "r < k" "\<not> i < k" "x < k"
  shows "x \<in> scanned k r i"
proof -
  have u: "unat r < unat k" "unat k \<le> unat i" "unat x < unat k"
    using assms by (simp_all add: word_less_nat_alt word_le_nat_alt not_less)
  let ?j = "if unat r \<le> unat x then unat x - unat r else unat x + unat k - unat r"
  have "?j < unat i" "(unat r + ?j) mod unat k = unat x" using u by auto
  then show ?thesis unfolding scanned_def by auto
qed

lemma kept_dequeue:
  assumes "uk_inv k s" "uk_pinv k s t op p" "uk_method p = UDequeue" "uk_more k s p" "unat k \<le> 2 ^ 63"
  shows "uk_kept k s p (uk_dequeue n s p)"
proof -
  note H = headedE [OF uk_invD(1) [OF assms(1)]]
  have k: "k \<noteq> 0" "op \<noteq> Enq 0" and a: "uk_assert k s op p"
    using assms(2) by (simp_all add: uk_pinv_def uk_call_ok_def)
  show ?thesis
  proof (cases p)
    case UDHead
    show ?thesis
      by (rule H [OF head_headed [OF assms(1)]], intro calm_kept)
        (use UDHead k index_less [OF k(1), of "of_nat n"] in \<open>auto simp: kept_simps scanned_def\<close>)
  next
    case (UDFind h r i)
    then have "headed s (val h)" using a by simp
    then obtain sg where sg: "uk_heap s (val h) = Some sg" "us_size sg = k" "length (us_items sg) = unat k"
      by (rule H)
    have r: "r < k" using assms(4) UDFind by simp
    have in': "unat ((r + i) mod k) < length (us_items sg)"
      using index_less [OF k(1), of "r + i"] sg(3) by (simp add: word_less_nat_alt)
    show ?thesis
    proof (cases "i < k")
      case True
      have so: "slot_of s (val h) ((r + i) mod k) = us_items sg ! unat ((r + i) mod k)" using sg(1) by (simp add: slot_of_def)
      have f: "uk_find_index sg False r i = (if val (us_items sg ! unat ((r + i) mod k)) \<noteq> 0
          then Hit ((r + i) mod k) (us_items sg ! unat ((r + i) mod k)) else More (i + 1))"
        using in' True by (simp add: uk_find_index_def scan_slot_def sg(2) slot_at_def)
      show ?thesis
        by (intro calm_kept)
          (use UDFind sg(1) so r f scanned_step(2) [OF r True assms(5)] in \<open>auto simp: kept_simps\<close>)
    next
      case False
      then have "uk_find_index sg False r i = Miss" by (simp add: uk_find_index_def scan_slot_def sg(2))
      then show ?thesis
        by (intro calm_kept) (use UDFind sg(1) scanned_all [OF r False] in \<open>auto simp: kept_simps all_slots_def\<close>)
    qed
  next
    case (UDTail h f)
    then show ?thesis by (intro calm_kept) (auto simp: kept_simps)
  next
    case (UDCheck h f c)
    then show ?thesis by (intro calm_kept; cases f) (auto simp: kept_simps split: if_splits)
  next
    case (UDCas h i d)
    then have h: "headed s (val h)" using a by simp
    then obtain sg where sg: "uk_heap s (val h) = Some sg" "us_size sg = k" "length (us_items sg) = unat k"
      by (rule H)
    have i: "i < k" using a UDCas by simp
    show ?thesis
    proof (rule item_cas_put [OF assms(1) sg i, of d "cell 0 (aba d + 1)"], goal_cases)
      case hit: (1 s')
      then show ?thesis
        by (intro slot_put_kept [OF hit(3)]) (use UDCas headed_linked [OF assms(1) h] in \<open>auto simp: kept_simps\<close>)
    next
      case miss: 2
      then show ?thesis by (intro calm_kept) (use UDCas in \<open>auto simp: kept_simps\<close>)
    qed
  qed (use assms(3) in \<open>simp_all add: uk_method_def\<close>)
qed

lemma alloc_kept:
  assumes "uk_inv k s" "is_fresh (uk_heap s) n" "fst o' = put_seg s n (ksegment_new (uk_k s))"
    and "uk_commits p = None" "watch_step k s p (fst o') (snd o')"
  shows "uk_kept k s p o'"
proof -
  let ?s = "put_seg s n (ksegment_new (uk_k s))"
  have n: "uk_heap s n = None" using assms(2) by (simp add: is_fresh_def)
  have k: "uk_k s = k" using uk_invD(1) [OF assms(1)] by (simp add: uk_sizes_def)
  note A = alloc_change [OF assms(1,2)]
  have same: "slot_of ?s a = slot_of s a" "gone ?s a = gone s a" "ushape ?s a = ushape s a" if "a \<in> dom (uk_heap s)" for a
    using that n by (auto simp: slot_of_def gone_def ushape_def fun_eq_iff)
  have "val (slot_of ?s n i) = 0" if "i < k" for i
    using that by (simp add: slot_of_def ksegment_new_def k free_slots_def word_less_nat_alt)
  then have "seg_step k s ?s" using same A(3,5) n by (auto simp: seg_step_def)
  moreover have "head_step k s p ?s (snd o')" using A(5) by (simp add: head_step_def)
  moreover have "slot_step k s ?s (snd o')" using same by (simp add: slot_step_def)
  ultimately show ?thesis using assms(3-5) by (simp add: uk_kept_def)
qed

lemma link_kept:
  assumes "uk_inv k s" "uk_heap s c = Some sg" "us_nx sg = NULL" "c \<in> set (uk_addrs s)"
    and "ushape s a = Some NULL" "a \<notin> set (uk_addrs s)" "fst o' = put_seg s c (sg\<lparr>us_next := cell a x\<rparr>)"
    and "uk_commits p = None" "watch_step k s p (fst o') (snd o')"
  shows "uk_kept k s p o'"
proof -
  let ?s = "put_seg s c (sg\<lparr>us_next := cell a x\<rparr>)"
  note N = link_change [OF assms(1-6), where x = x]
  have d: "dom (uk_heap ?s) = dom (uk_heap s)" using assms(2) by auto
  have same: "slot_of ?s = slot_of s" "gone ?s = gone s"
    using assms(2) by (simp_all add: slot_of_def [abs_def] gone_def [abs_def] fun_eq_iff)
  have sh: "ushape ?s b = ushape s b" if "b \<notin> set (uk_addrs s)" for b
    using that assms(4) N(3) by auto
  have "seg_step k s ?s" using d same sh by (auto simp: seg_step_def)
  moreover have "head_step k s p ?s (snd o')" using N(2) by (auto simp: head_step_def)
  moreover have "slot_step k s ?s (snd o')" using same by (simp add: slot_step_def)
  ultimately show ?thesis using assms(7-9) by (simp add: uk_kept_def)
qed

lemma kept_advance_tail:
  assumes "uk_inv k s" "uk_pinv k s t op p" "uk_method p = UAdvTail"
    and "uk_own p \<inter> (set (uk_addrs s) \<union> uk_seen p) = {}"
  shows "uk_kept k s p (uk_advance_tail n s p)"
proof -
  note L = listedE [OF uk_invD(1) [OF assms(1)]]
  have a: "uk_assert k s op p" using assms(2) by (simp add: uk_pinv_def)
  show ?thesis
  proof (cases p)
    case (ATNext u c)
    then have "listed s (val c)" using a by simp
    then show ?thesis by (rule L, intro calm_kept) (use ATNext in \<open>auto simp: kept_simps\<close>)
  next
    case (ATAlloc u c e)
    show ?thesis
    proof (cases "is_fresh (uk_heap s) n")
      case True
      show ?thesis by (rule alloc_kept [OF assms(1) True]) (use ATAlloc True in \<open>auto simp: kept_simps\<close>)
    next
      case False
      then show ?thesis by (intro calm_kept) (use ATAlloc in \<open>auto simp: kept_simps\<close>)
    qed
  next
    case (ATLink u c e b)
    then have u: "listed s (val c)" "val e = NULL" "ushape s b = Some NULL" and b: "b \<notin> set (uk_addrs s)"
      using a assms(4) by auto
    obtain sg where sg: "uk_heap s (val c) = Some sg" "ushape s (val c) = Some (us_nx sg)" by (rule L [OF u(1)])
    show ?thesis
    proof (cases "us_next sg = e")
      case True
      have n: "us_nx sg = NULL" using True u(2) by (simp add: us_nx_def)
      have c: "val c \<in> set (uk_addrs s)" using u(1) sg(2) n by (simp add: listed_def)
      show ?thesis
        by (rule link_kept [OF assms(1) sg(1) n c u(3) b, where x = "aba e + 1"])
          (use ATLink True sg(1) in \<open>auto simp: kept_simps cas_def\<close>)
    next
      case False
      then have "put_seg s (val c) (sg\<lparr>us_next := us_next sg\<rparr>) = s"
        using sg(1) by (simp add: put_seg_def fun_upd_idem)
      then show ?thesis by (intro calm_kept) (use ATLink False sg(1) in \<open>auto simp: kept_simps cas_def\<close>)
    qed
  qed (use assms(3) in \<open>auto intro!: calm_kept simp: uk_method_def kept_simps\<close>)
qed

lemma delete_kept:
  assumes "uk_inv k s" "uk_heap s a = Some sg" "us_size sg = k" "length (us_items sg) = unat k"
    and "fst o' = put_seg s a (sg\<lparr>us_deleted := True\<rparr>)" "uk_commits p = None" "watch_step k s p (fst o') (snd o')"
  shows "uk_kept k s p o'"
proof -
  let ?s = "put_seg s a (sg\<lparr>us_deleted := True\<rparr>)"
  have q: "quiet k s ?s" by (rule quiet_put [OF assms(1,2)]) (use assms(3,4) in simp_all)
  have sh: "ushape ?s = ushape s" using q by (simp add: quiet_def)
  have d: "dom (uk_heap ?s) = dom (uk_heap s)" by (rule ushape_same_dom [OF sh])
  have same: "slot_of ?s = slot_of s" "gone s b \<Longrightarrow> gone ?s b" "uk_addrs ?s = uk_addrs s" for b
    using assms(2) quiet_keeps(2) [OF assms(1) q] by (auto simp: slot_of_def [abs_def] gone_def fun_eq_iff)
  have "seg_step k s ?s" using d same sh by (auto simp: seg_step_def)
  moreover have "head_step k s p ?s (snd o')" using same by (simp add: head_step_def)
  moreover have "slot_step k s ?s (snd o')" using same by (simp add: slot_step_def)
  ultimately show ?thesis using assms(5-7) by (simp add: uk_kept_def)
qed

lemma kept_advance_head:
  assumes "uk_inv k s" "uk_pinv k s t op p" "uk_method p = UAdvHead" "uk_more k s p"
  shows "uk_kept k s p (uk_advance_head s p)"
proof -
  note L = listedE [OF uk_invD(1) [OF assms(1)]] and H = headedE [OF uk_invD(1) [OF assms(1)]]
  have a: "uk_assert k s op p" using assms(2) by (simp add: uk_pinv_def)
  show ?thesis
  proof (cases p)
    case (AHTailNext h c)
    then have "listed s (val c)" using a by (simp add: tail_seen_def)
    then show ?thesis by (rule L, intro calm_kept) (use AHTailNext in \<open>auto simp: kept_simps\<close>)
  next
    case (AHHeadNext h c e)
    then have "headed s (val h)" using a by (simp add: tail_seen_def)
    then show ?thesis by (rule H, intro calm_kept) (use AHHeadNext in \<open>auto simp: kept_simps\<close>)
  next
    case (AHDelete h g)
    then have "headed s (val h)" using a by (simp add: passed_def)
    then obtain sg where sg: "uk_heap s (val h) = Some sg" "us_size sg = k" "length (us_items sg) = unat k" by (rule H)
    show ?thesis
      by (rule delete_kept [OF assms(1) sg]) (use AHDelete sg(1) in \<open>auto simp: kept_simps gone_def\<close>)
  next
    case (AHSet h g)
    then have g: "passed s h g" "gone s (val h)" using a assms(4) by simp_all
    show ?thesis
    proof (cases "uk_head s = h")
      case True
      let ?s = "s\<lparr>uk_head := cell (val g) (aba h + 1)\<rparr>"
      note M = head_moves [OF assms(1) g(1) [folded True], where x = "aba h + 1"]
      have e: "slot_of ?s = slot_of s" "gone ?s = gone s" "ushape ?s = ushape s"
        by (simp_all add: slot_of_def gone_def ushape_def fun_eq_iff)
      show ?thesis
        using AHSet True g(2) M(3)
        by (auto simp: uk_kept_def seg_step_def head_step_def slot_step_def kept_simps e cas_def)
    next
      case False
      then show ?thesis by (intro calm_kept) (use AHSet in \<open>auto simp: kept_simps cas_def\<close>)
    qed
  qed (use assms(3) in \<open>auto intro!: calm_kept simp: uk_method_def kept_simps\<close>)
qed

lemma uk_step_kept:
  assumes "uk_inv k s" "uk_pinv k s t op p" "uk_own p \<inter> (set (uk_addrs s) \<union> uk_seen p) = {}"
    and "uk_more k s p" "unat k \<le> 2 ^ 63"
  shows "uk_kept k s p (uk_body t n s p)"
  using kept_enqueue [OF assms(1,2), of n] kept_committed [OF assms(1,2) _ assms(4)]
    kept_dequeue [OF assms(1,2) _ assms(4,5), of n] kept_advance_tail [OF assms(1,2) _ assms(3), of n]
    kept_advance_head [OF assms(1,2) _ assms(4)]
  by (simp add: uk_body_def split: uk_method.split)

section \<open>The invariant of a configuration\<close>

text \<open>
  A segment off the list is marked deleted, or was never linked and holds nothing; a slot of
  it that is in use has a thread inside of committed. A slot of the head segment that a
  dequeue has scanned for the present head word is free, or has a thread that cannot accept
  it. The counter of the head word tells its versions apart, m bounds their number.
\<close>

type_synonym uk_config = "(ukfifo, kf_op, kf_res, uk_pc) config"

definition off_list :: "u64 \<Rightarrow> ukfifo \<Rightarrow> bool" where
  "off_list k s \<longleftrightarrow> (\<forall>a \<in> dom (uk_heap s) - set (uk_addrs s).
     gone s a \<or> ushape s a = Some NULL \<and> (\<forall>i < k. val (slot_of s a i) = 0))"

definition stranded_held :: "u64 \<Rightarrow> uk_config \<Rightarrow> bool" where
  "stranded_held k c \<longleftrightarrow> (\<forall>a \<in> dom (uk_heap (shared c)) - set (uk_addrs (shared c)). \<forall>i < k.
     val (slot_of (shared c) a i) \<noteq> 0 \<longrightarrow>
     (\<exists>t op p. threads c t = Run op p \<and> uk_commits p = Some (a, i, slot_of (shared c) a i)))"

definition open_at :: "uk_config \<Rightarrow> addr \<Rightarrow> u64 \<Rightarrow> bool" where
  "open_at c a i \<longleftrightarrow> val (slot_of (shared c) a i) \<noteq> 0 \<longrightarrow>
     (\<exists>t op p. threads c t = Run op p \<and> uk_commits p = Some (a, i, slot_of (shared c) a i) \<and> uk_open a p)"

definition scans_held :: "u64 \<Rightarrow> uk_config \<Rightarrow> bool" where
  "scans_held k c \<longleftrightarrow> (\<forall>t op p S. threads c t = Run op p \<longrightarrow> uk_watch k p = Some (uk_head (shared c), S) \<longrightarrow>
     (\<forall>i \<in> S. i < k \<longrightarrow> open_at c (val (uk_head (shared c))) i))"

definition no_newer :: "addr acell \<Rightarrow> ukfifo \<Rightarrow> bool" where
  "no_newer h s \<longleftrightarrow> h = uk_head s \<or> unat (aba h) < unat (aba (uk_head s))"

definition uk_held :: "u64 \<Rightarrow> nat \<Rightarrow> uk_config \<Rightarrow> bool" where
  "uk_held k m c \<longleftrightarrow> uk.og_inv k c \<and> off_list k (shared c) \<and> stranded_held k c \<and> scans_held k c \<and>
     (\<forall>t op p. threads c t = Run op p \<longrightarrow> uk_more k (shared c) p \<and>
        (\<forall>h S. uk_watch k p = Some (h, S) \<longrightarrow> no_newer h (shared c))) \<and>
     unat (aba (uk_head (shared c))) \<le> m"

text \<open>A step of a thread, from what it keeps locally.\<close>

definition uk_goes :: "u64 \<Rightarrow> nat \<Rightarrow> uk_config \<Rightarrow> tid \<Rightarrow> kf_op \<Rightarrow> uk_pc \<Rightarrow> ukfifo \<Rightarrow> (uk_pc, kf_res) outcome \<Rightarrow> bool" where
  "uk_goes k m c t op p s' out \<longleftrightarrow> uk_held k m c \<and> threads c t = Run op p \<and> uk_kept k (shared c) p (s', out) \<and> m < 2 ^ 64 - 1"

definition uk_after :: "uk_config \<Rightarrow> tid \<Rightarrow> kf_op \<Rightarrow> ukfifo \<Rightarrow> (uk_pc, kf_res) outcome \<Rightarrow> uk_config" where
  "uk_after c t op s' out = \<lparr>shared = s', threads = (threads c)(t := resume op out)\<rparr>"

lemma after_simps [simp]:
  "shared (uk_after c t op s' out) = s'" "threads (uk_after c t op s' out) u = (if u = t then resume op out else threads c u)"
  by (simp_all add: uk_after_def)

lemma goesD:
  assumes "uk_goes k m c t op p s' out"
  shows "seg_step k (shared c) s'" "head_step k (shared c) p s' out" "slot_step k (shared c) s' out"
    "hold_step (shared c) p s' out" "watch_step k (shared c) p s' out" "uk_held k m c" "threads c t = Run op p"
    "off_list k (shared c)" "stranded_held k c" "scans_held k c" "unat (aba (uk_head (shared c))) < 2 ^ 64 - 1"
  using assms by (simp_all add: uk_goes_def uk_kept_def uk_held_def)

lemma head_counts:
  assumes "uk_goes k m c t op p s' out"
  shows "uk_head s' = uk_head (shared c) \<or> unat (aba (uk_head s')) = Suc (unat (aba (uk_head (shared c)))) \<and>
    (\<forall>p'. out = Next p' \<longrightarrow> uk_watch k p' = None)"
proof -
  have "unat (aba (uk_head (shared c)) + 1) = Suc (unat (aba (uk_head (shared c))))"
    using goesD(11) [OF assms] by (subst unat_add_no_overflow) simp_all
  then show ?thesis using goesD(2) [OF assms] by (auto simp: head_step_def)
qed

text \<open>A witness that another thread gives remains; the one of the thread itself is what hold_step is about.\<close>

lemma witness_other:
  assumes "uk_goes k m c t op p s' out" "threads c u = Run op' q" "u \<noteq> t"
  shows "threads (uk_after c t op s' out) u = Run op' q"
  using assms(2,3) by simp

lemma holdD:
  assumes "hold_step s p s' out" "uk_commits p = Some (a, i, w)" "slot_of s' a i = w"
  shows "a \<notin> set (uk_addrs s') \<Longrightarrow> gone s a \<Longrightarrow> \<exists>p'. out = Next p' \<and> uk_commits p' = Some (a, i, w)"
    "uk_open a p \<Longrightarrow> uk_head s' = uk_head s \<Longrightarrow> val (uk_head s) = a \<Longrightarrow>
      \<exists>p'. out = Next p' \<and> uk_commits p' = Some (a, i, w) \<and> uk_open a p'"
  using assms unfolding hold_step_def by blast+

lemma open_next:
  assumes "uk_goes k m c t op p s' out" "uk_head s' = uk_head (shared c)" "a = val (uk_head s')"
    and "a \<in> dom (uk_heap (shared c))" "i < k" "open_at c a i"
  shows "open_at (uk_after c t op s' out) a i"
  unfolding open_at_def
proof
  note G = goesD [OF assms(1)]
  let ?w = "slot_of s' a i"
  assume "val (slot_of (shared (uk_after c t op s' out)) a i) \<noteq> 0"
  then have nz: "val ?w \<noteq> 0" by simp
  from G(3) assms(4,5) nz consider "slot_of (shared c) a i = ?w"
    | p' where "out = Next p'" "uk_commits p' = Some (a, i, ?w)" "uk_open a p'"
    unfolding slot_step_def by metis
  then show "\<exists>u op' q. threads (uk_after c t op s' out) u = Run op' q \<and>
      uk_commits q = Some (a, i, slot_of (shared (uk_after c t op s' out)) a i) \<and> uk_open a q"
  proof cases
    case 1
    then obtain u op' q where q: "threads c u = Run op' q" "uk_commits q = Some (a, i, ?w)" "uk_open a q"
      using assms(6) nz unfolding open_at_def by auto
    show ?thesis
    proof (cases "u = t")
      case True
      then have cp: "uk_commits p = Some (a, i, ?w)" "uk_open a p" using q G(7) by simp_all
      have "val (uk_head (shared c)) = a" using assms(2,3) by simp
      then obtain p' where "out = Next p'" "uk_commits p' = Some (a, i, ?w)" "uk_open a p'"
        using holdD(2) [OF G(4) cp(1) refl cp(2) assms(2)] by blast
      then show ?thesis by (intro exI [of _ t]) simp
    next
      case False
      then show ?thesis using q by (intro exI [of _ u]) simp
    qed
  next
    case 2
    then show ?thesis by (intro exI [of _ t]) simp
  qed
qed

lemma goes_inv:
  assumes "uk_goes k m c t op p s' out"
  shows "uk_inv k (shared c)" "val (uk_head (shared c)) \<in> dom (uk_heap (shared c))"
proof -
  show i: "uk_inv k (shared c)" using goesD(6) [OF assms] uk.og_sinv by (auto simp: uk_held_def)
  show "val (uk_head (shared c)) \<in> dom (uk_heap (shared c))" by (rule uk_addrs_cons [OF i]) auto
qed

lemma off_list_next:
  assumes "uk_goes k m c t op p s' out"
  shows "off_list k s'"
  unfolding off_list_def
proof
  note G = goesD [OF assms]
  fix a
  assume a: "a \<in> dom (uk_heap s') - set (uk_addrs s')"
  consider "a \<notin> dom (uk_heap (shared c))" | "a \<in> dom (uk_heap (shared c))" "a \<in> set (uk_addrs (shared c))"
    | "a \<in> dom (uk_heap (shared c))" "a \<notin> set (uk_addrs (shared c))" by blast
  then show "gone s' a \<or> ushape s' a = Some NULL \<and> (\<forall>i < k. val (slot_of s' a i) = 0)"
  proof cases
    case 1
    then show ?thesis using G(1) a unfolding seg_step_def by blast
  next
    case 2
    then show ?thesis using G(1,2) a unfolding seg_step_def head_step_def by blast
  next
    case 3
    then have "gone (shared c) a \<or> ushape (shared c) a = Some NULL \<and> (\<forall>i < k. val (slot_of (shared c) a i) = 0)"
      using G(8) unfolding off_list_def by blast
    moreover have "a \<in> dom (uk_heap (shared c)) - set (uk_addrs (shared c)) - set (uk_addrs s')" using 3 a by blast
    ultimately show ?thesis using G(1) 3(1) unfolding seg_step_def by fastforce
  qed
qed

lemma stranded_next:
  assumes "uk_goes k m c t op p s' out"
  shows "stranded_held k (uk_after c t op s' out)"
  unfolding stranded_held_def after_simps(1)
proof (intro ballI allI impI)
  note G = goesD [OF assms]
  fix a i
  assume a: "a \<in> dom (uk_heap s') - set (uk_addrs s')" and i: "i < k" and nz: "val (slot_of s' a i) \<noteq> 0"
  let ?w = "slot_of s' a i"
  let ?goal = "\<exists>u op' q. threads (uk_after c t op s' out) u = Run op' q \<and> uk_commits q = Some (a, i, ?w)"
  have ad: "a \<in> dom (uk_heap (shared c))" using G(1) a i nz unfolding seg_step_def by blast
  then consider "slot_of (shared c) a i = ?w" | p' where "out = Next p'" "uk_commits p' = Some (a, i, ?w)"
    using G(3) i nz unfolding slot_step_def by metis
  then show ?goal
  proof cases
    case same: 1
    have "\<exists>u op' q. threads c u = Run op' q \<and> uk_commits q = Some (a, i, ?w) \<and>
      (u = t \<longrightarrow> gone (shared c) a)"
    proof (cases "a \<in> set (uk_addrs (shared c))")
      case True
      then have h: "a = val (uk_head (shared c))" "uk_watch k p = Some (uk_head (shared c), all_slots k)"
        using G(2) a unfolding head_step_def by blast+
      have "open_at c a i" using G(10) G(7) h i unfolding scans_held_def all_slots_def by blast
      then obtain u op' q where q: "threads c u = Run op' q" "uk_commits q = Some (a, i, ?w)"
        using nz same unfolding open_at_def by auto
      then have "u \<noteq> t" using G(7) watch_commits [of k p] h(2) by auto
      then show ?thesis using q by blast
    next
      case False
      then have "gone (shared c) a" using G(8) ad i nz same unfolding off_list_def by fastforce
      moreover have "val (slot_of (shared c) a i) \<noteq> 0" using nz same by simp
      then have "\<exists>u op' q. threads c u = Run op' q \<and> uk_commits q = Some (a, i, slot_of (shared c) a i)"
        using G(9) False ad i unfolding stranded_held_def by blast
      then have "\<exists>u op' q. threads c u = Run op' q \<and> uk_commits q = Some (a, i, ?w)" by (simp only: same)
      ultimately show ?thesis by blast
    qed
    then obtain u op' q where q: "threads c u = Run op' q" "uk_commits q = Some (a, i, ?w)" "u = t \<longrightarrow> gone (shared c) a"
      by blast
    show ?goal
    proof (cases "u = t")
      case True
      then obtain p' where "out = Next p'" "uk_commits p' = Some (a, i, ?w)"
        using holdD(1) [OF G(4) _ refl, of a i] G(7) q a by auto
      then show ?thesis by (intro exI [of _ t]) simp
    next
      case False
      then show ?thesis using q by (intro exI [of _ u]) simp
    qed
  next
    case 2
    then show ?goal by (intro exI [of _ t]) simp
  qed
qed

lemma resume_run: "resume op out = Run op' q \<longleftrightarrow> out = Next q \<and> op' = op"
  by (cases out) auto

lemma no_newer_next:
  assumes "uk_goes k m c t op p s' out" "threads (uk_after c t op s' out) u = Run op' q" "uk_watch k q = Some (h, S)"
  shows "no_newer h s'"
proof -
  note G = goesD [OF assms(1)] and C = head_counts [OF assms(1)]
  have old: "no_newer h (shared c)" if "threads c v = Run op2 p2" "uk_watch k p2 = Some (h, S2)" for v op2 p2 S2
    using G(6) that unfolding uk_held_def by blast
  show ?thesis
  proof (cases "u = t")
    case True
    then have q: "out = Next q" using assms(2) by (simp add: resume_run)
    then have "uk_head s' = uk_head (shared c)" using C assms(3) by auto
    moreover have "no_newer h (shared c)"
      using G(5) q assms(3) old G(7) unfolding watch_step_def no_newer_def by blast
    ultimately show ?thesis by (simp add: no_newer_def)
  next
    case False
    then have "no_newer h (shared c)" using assms(2,3) old by simp
    then show ?thesis using C by (auto simp: no_newer_def)
  qed
qed

lemma scans_next:
  assumes "uk_goes k m c t op p s' out"
  shows "scans_held k (uk_after c t op s' out)"
  unfolding scans_held_def after_simps(1)
proof (intro allI impI ballI)
  note G = goesD [OF assms] and C = head_counts [OF assms] and I = goes_inv [OF assms]
  fix u op' q S i
  assume q: "threads (uk_after c t op s' out) u = Run op' q" "uk_watch k q = Some (uk_head s', S)" and i: "i \<in> S" "i < k"
  show "open_at (uk_after c t op s' out) (val (uk_head s')) i"
  proof (cases "u = t")
    case True
    then have o': "out = Next q" using q(1) by (simp add: resume_run)
    then have h: "uk_head s' = uk_head (shared c)" using C q(2) by auto
    from G(5) o' q(2) i consider "val (slot_of s' (val (uk_head s')) i) = 0"
      | S0 where "uk_watch k p = Some (uk_head s', S0)" "i \<in> S0" unfolding watch_step_def by blast
    then show ?thesis
    proof cases
      case 1
      then show ?thesis by (simp add: open_at_def)
    next
      case 2
      then have "open_at c (val (uk_head (shared c))) i" using G(7,10) i(2) h unfolding scans_held_def by metis
      then show ?thesis using open_next [OF assms h refl _ i(2)] I(2) h by simp
    qed
  next
    case False
    then have r: "threads c u = Run op' q" using q(1) by simp
    then have n: "no_newer (uk_head s') (shared c)" using G(6) q(2) unfolding uk_held_def by blast
    have h: "uk_head s' = uk_head (shared c)" using C n by (auto simp: no_newer_def)
    have "open_at c (val (uk_head (shared c))) i" using G(10) r q(2) i h unfolding scans_held_def by metis
    then show ?thesis using open_next [OF assms h refl _ i(2)] I(2) h by simp
  qed
qed

lemma more_next:
  assumes "uk_goes k m c t op p s' out" "threads (uk_after c t op s' out) u = Run op' q"
  shows "uk_more k s' q"
proof (cases "u = t")
  case True
  then show ?thesis using goesD(5) [OF assms(1)] assms(2) by (simp add: resume_run watch_step_def)
next
  case False
  then have r: "threads c u = Run op' q" using assms(2) by simp
  have inv: "uk.og_inv k c" and more: "uk_more k (shared c) q"
    using goesD(6) [OF assms(1)] r unfolding uk_held_def by blast+
  show ?thesis
  proof (cases q)
    case (AHSet h g)
    have "uk_pinv k (shared c) u op' q" by (rule uk.og_pinv [OF inv r])
    then have "val h \<in> dom (uk_heap (shared c))" using AHSet by (auto simp: uk_pinv_def passed_def headed_def ushape_def)
    then show ?thesis using goesD(1) [OF assms(1)] more AHSet by (simp add: seg_step_def)
  qed (use more in simp_all)
qed

lemma held_outside:
  assumes "uk_held k m c" "uk.og_inv k c'" "shared c' = shared c" "\<And>u. u \<noteq> t \<Longrightarrow> threads c' u = threads c u"
    and "\<And>op p. threads c t \<noteq> Run op p" "\<And>op p. threads c' t = Run op p \<Longrightarrow> p = uk_start op"
  shows "uk_held k m c'"
proof -
  have r: "threads c' u = Run op p" if "threads c u = Run op p" for u op p
    using that assms(4,5) by (cases "u = t") auto
  have r': "threads c u = Run op p" if "threads c' u = Run op p" "p \<noteq> uk_start op" for u op p
    using that assms(4) [of u] assms(6) by (cases "u = t") auto
  have op: "open_at c' a i" if "open_at c a i" for a i
    using that r unfolding open_at_def assms(3) by blast
  have "stranded_held k c'" using assms(1) r unfolding uk_held_def stranded_held_def assms(3) by blast
  moreover have "scans_held k c'" unfolding scans_held_def assms(3)
  proof (intro allI impI ballI)
    fix u op p S i
    assume u: "threads c' u = Run op p" "uk_watch k p = Some (uk_head (shared c), S)" "i \<in> S" "i < k"
    have "p \<noteq> uk_start op" using u(2) by auto
    then have "threads c u = Run op p" using r' u(1) by blast
    then have "open_at c (val (uk_head (shared c))) i" using assms(1) u(2-4) unfolding uk_held_def scans_held_def by blast
    then show "open_at c' (val (uk_head (shared c))) i" by (rule op)
  qed
  moreover have "uk_more k (shared c) p \<and> (\<forall>h S. uk_watch k p = Some (h, S) \<longrightarrow> no_newer h (shared c))"
    if "threads c' u = Run op p" for u op p
  proof (cases "p = uk_start op")
    case False
    then show ?thesis using assms(1) r' [OF that] unfolding uk_held_def by blast
  qed simp
  ultimately show ?thesis using assms(1,2) by (simp add: uk_held_def assms(3))
qed

lemma held_go:
  assumes "uk_goes k m c t op p s' out" "uk.og_inv k (uk_after c t op s' out)"
  shows "uk_held k (Suc m) (uk_after c t op s' out)"
proof -
  have "unat (aba (uk_head (shared c))) \<le> m" using goesD(6) [OF assms(1)] by (simp add: uk_held_def)
  then have "unat (aba (uk_head s')) \<le> Suc m" using head_counts [OF assms(1)] by auto
  moreover note off_list_next [OF assms(1)] stranded_next [OF assms(1)] scans_next [OF assms(1)]
    more_next [OF assms(1)] no_newer_next [OF assms(1)]
  ultimately show ?thesis using assms(2) unfolding uk_held_def after_simps(1) by blast
qed

lemma held_step:
  assumes "uk_held k m c" "m < 2 ^ 64 - 1" "unat k \<le> 2 ^ 63" "valid_call (uk_call_ok k) e"
  shows "uk_held k (Suc m) (step uk_prog e c)"
proof -
  have inv: "uk.og_inv k c" using assms(1) by (simp add: uk_held_def)
  have inv': "uk.og_inv k (step uk_prog e c)" by (rule uk.og_step [OF inv assms(4)])
  have mono: "uk_held k (Suc m) c'" if "uk_held k m c'" for c' using that by (auto simp: uk_held_def)
  show ?thesis
  proof (cases rule: step_cases [of e c uk_prog])
    case (call t op)
    show ?thesis
      by (rule mono, rule held_outside [OF assms(1) inv', of t]) (use call in auto)
  next
    case (leave t op r)
    show ?thesis
      by (rule mono, rule held_outside [OF assms(1) inv', of t]) (use leave in auto)
  next
    case (stutter t a)
    then show ?thesis using mono [OF assms(1)] by simp
  next
    case (go t n op p s' out)
    have "uk_more k (shared c) p" using assms(1) go(2) unfolding uk_held_def by blast
    then have "uk_kept k (shared c) p (s', out)"
      using uk_step_kept [OF uk.og_sinv [OF inv] uk.og_pinv [OF inv go(2)] uk.og_common [OF inv go(2)] _ assms(3), of n] go(3)
      by simp
    then have "uk_goes k m c t op p s' out" using assms(1,2) go(2) by (simp add: uk_goes_def)
    then show ?thesis using held_go inv' go(4) unfolding uk_after_def by fastforce
  qed
qed

lemma held_exec:
  assumes "uk_held k m c" "m + length es < 2 ^ 64" "unat k \<le> 2 ^ 63" "list_all (valid_call (uk_call_ok k)) es"
  shows "uk_held k (m + length es) (exec uk_prog es c)"
  using assms
proof (induction es arbitrary: c m)
  case (Cons e es)
  have "uk_held k (Suc m) (step uk_prog e c)" by (rule held_step [OF Cons.prems(1)]) (use Cons.prems in simp_all)
  from Cons.IH [OF this] Cons.prems show ?case by simp
qed simp

lemma held_init: "uk_held k 0 (init (uk_init k (Suc a)))"
proof -
  have "uk_addrs (uk_init k (Suc a)) = [Suc a]"
    by (rule uk_addrs_eq) (simp_all add: uk_init_def ksegment_new_def us_nx_def)
  then have "off_list k (uk_init k (Suc a))" "stranded_held k (init (uk_init k (Suc a)))"
    by (simp_all add: off_list_def stranded_held_def uk_init_def)
  then show ?thesis using uk.og_init by (simp add: uk_held_def scans_held_def uk_init_def)
qed

section \<open>The content of the queue\<close>

definition uk_stranded :: "ukfifo \<Rightarrow> u64 multiset" where
  "uk_stranded s = (\<Sum>a \<in> dom (uk_heap s) - set (uk_addrs s). slot_items (us_items (the (uk_heap s a))))"

lemma slots_split:
  assumes "uk_inv k s"
  shows "uk_slots s = uk_items s + uk_stranded s"
  unfolding uk_slots_def uk_items_def uk_stranded_def
  by (rule sum.subset_diff [OF uk_common_used [OF assms] uk_invD(3) [OF assms], THEN trans]) (rule add.commute)

lemma stranded_none:
  assumes "uk_held k m c" "\<And>t. threads c t = Idle"
  shows "uk_stranded (shared c) = {#}"
proof -
  let ?s = "shared c"
  have inv: "uk_inv k ?s" using assms(1) uk.og_sinv by (auto simp: uk_held_def)
  have "slot_items (us_items (the (uk_heap ?s a))) = {#}" if a: "a \<in> dom (uk_heap ?s) - set (uk_addrs ?s)" for a
  proof -
    obtain sg where sg: "uk_heap ?s a = Some sg" using a by auto
    then have len: "length (us_items sg) = unat k" using uk_invD(1) [OF inv] by (auto simp: uk_sizes_def ran_def)
    have "val (us_items sg ! j) = 0" if "j < unat k" for j
    proof -
      have j: "unat (of_nat j :: u64) = j" using that unsigned_less [of k, where ?'a = nat]
        by (simp add: unsigned_of_nat take_bit_nat_eq_self)
      then have "of_nat j < k" using that by (simp add: word_less_nat_alt)
      then have "val (slot_of ?s a (of_nat j)) = 0"
        using assms a unfolding uk_held_def stranded_held_def by (metis tstate.distinct(1))
      then show ?thesis using sg j by (simp add: slot_of_def)
    qed
    then have "\<forall>x \<in> set (us_items sg). val x = 0" by (auto simp: in_set_conv_nth len)
    then show ?thesis using sg by (auto simp: slot_items_def)
  qed
  then show ?thesis by (simp add: uk_stranded_def)
qed

section \<open>Properties\<close>

text \<open>
  C33: the unbounded-size k-FIFO queue loses, duplicates and invents no item while its list
  of segments grows, its tail is helped on and its emptied segments are taken off: whatever
  the interleaving, the items in the segments that can be reached from the head together with
  those dequeued are among those that enqueue was called with, as often; when no call is
  running they are exactly those that enqueue accepted, so that none is left behind in a
  segment that was taken off; while calls are running, each slot in use behind the head is the
  insertion of an enqueue that is still inside of committed. No thread follows a null or
  dangling pointer. The segment size is at most 2 to the 63, and the run has fewer than 2 to
  the 64 steps, so that the counter of the head word does not come round.
\<close>

theorem ukfifo_conservation:
  fixes a :: addr
  assumes "k \<noteq> 0" "unat k \<le> 2 ^ 63" "no_null es" "length es < 2 ^ 64"
  defines "c \<equiv> uk_run k a es" and "H \<equiv> history uk_prog es (init (uk_init k (Suc a)))"
  shows "uk_items (shared c) + ret_items kf_got H \<subseteq># inv_items kf_put H \<and>
    ((\<forall>t. threads c t = Idle) \<longrightarrow> uk_items (shared c) + ret_items kf_got H = ret_items kf_stored H) \<and>
    stranded_held k c \<and> (\<forall>t op e. threads c t \<noteq> Dead op e)"
proof -
  note ok = uk_calls_ok [OF assms(1,3)]
  have held: "uk_held k (length es) c"
    using held_exec [OF held_init _ assms(2) ok, of a] assms(4) by (simp add: c_def)
  have split: "uk_slots (shared c) = uk_items (shared c) + uk_stranded (shared c)"
    by (rule slots_split) (use held uk.og_sinv in \<open>auto simp: uk_held_def\<close>)
  have "uk_items (shared c) + ret_items kf_got H \<subseteq># uk_slots (shared c) + ret_items kf_got H"
    unfolding split by (simp add: ac_simps)
  also have "\<dots> \<subseteq># inv_items kf_put H"
    using uk.pool_no_invention [OF ok] unfolding c_def H_def by blast
  finally have sub: "uk_items (shared c) + ret_items kf_got H \<subseteq># inv_items kf_put H" .
  have "uk_items (shared c) + ret_items kf_got H = ret_items kf_stored H" if idle: "\<forall>t. threads c t = Idle"
    using uk.pool_conserved [OF ok, of a] idle stranded_none [OF held] split unfolding c_def H_def by simp
  moreover have "stranded_held k c" using held by (simp add: uk_held_def)
  moreover have "\<forall>t op e. threads c t \<noteq> Dead op e"
    using uk.og_no_fault [OF ok] unfolding c_def by blast
  ultimately show ?thesis using sub by blast
qed

theorem ukfifo_conservation_witness:
  "uk_items (shared (uk_run 1 0 uk_two_threads)) + {#5#} = {#5, 6#}"
proof -
  let ?H = "history uk_prog uk_two_threads (init (uk_init 1 1))"
  have "ret_items kf_got ?H = {#5#} \<and> ret_items kf_stored ?H = {#5, 6#}" by code_simp
  moreover have "no_null uk_two_threads" by code_simp
  moreover have "length uk_two_threads < 2 ^ 64" by (simp add: uk_two_threads_def length_concat sum_list_replicate)
  ultimately show ?thesis
    using ukfifo_conservation [of 1 uk_two_threads 0] uk_two_threads_idle by simp
qed

end
