(* ===== verification/Random_Dequeue.thy ===== *)
theory Random_Dequeue
  imports MS_Queue
begin

text \<open>
  The random dequeue queue, src/src/datastructures/random_dequeue_queue.h: a Michael-Scott
  queue whose nodes carry a deleted flag. enqueue is the one of MSQueue; dequeue claims one of
  the first quasi_factor nodes behind the head by setting its flag, and moves the head over
  claimed nodes. The program counters of enqueue and the names of the operations and results
  are those of the theory MS_Queue.
\<close>

section \<open>State and methods\<close>

record rnode =
  r_next :: "addr acell"
  r_value :: u64
  r_deleted :: bool

record rdq =
  rd_quasi_factor :: u64
  rd_max_retries :: u64
  rd_head :: "addr acell"
  rd_tail :: "addr acell"
  rd_heap :: "rnode heap"

text \<open>
  The constructor does not store its argument max_retries: the field keeps what the memory
  held, here the argument junk.
\<close>

definition rd_init :: "u64 \<Rightarrow> u64 \<Rightarrow> u64 \<Rightarrow> rdq" where
  "rd_init junk quasi_factor max_retries = \<lparr>rd_quasi_factor = quasi_factor, rd_max_retries = junk,
     rd_head = cell FIRST 0, rd_tail = cell FIRST 0,
     rd_heap = [FIRST \<mapsto> \<lparr>r_next = cell NULL 0, r_value = 0, r_deleted = False\<rparr>]\<rparr>"

datatype rd_pc =
    RdEntry u64
  | RdEnq "u64 ms_pc"
  | RdHead u64
  | RdTail u64 "addr acell"
  | RdNext u64 "addr acell" "addr acell"
  | RdCheck u64 "addr acell" "addr acell" "addr acell"
  | RdHelp u64 "addr acell" "addr acell"
  | RdClean u64 "addr acell" "addr acell" addr
  | RdCleanCas u64 "addr acell" "addr acell" addr
  | RdCleanNext u64 "addr acell" "addr acell"
  | RdWalk u64 addr u64 u64
  | RdStep u64 addr u64 u64
  | RdTest u64 addr
  | RdClaim u64 addr
  | RdValue addr

type_synonym rd_out = "rdq \<times> (rd_pc, u64 ms_res) outcome"

definition at_node :: "rdq \<Rightarrow> addr \<Rightarrow> (rnode \<Rightarrow> rd_out) \<Rightarrow> rd_out" where
  "at_node s a f = (case rd_heap s a of None \<Rightarrow> (s, Fault (fault_at a)) | Some nd \<Rightarrow> f nd)"

definition put_node :: "rdq \<Rightarrow> addr \<Rightarrow> rnode \<Rightarrow> rdq" where
  "put_node s a nd = s\<lparr>rd_heap := (rd_heap s)(a \<mapsto> nd)\<rparr>"

definition rd_tail_cas :: "rdq \<Rightarrow> addr acell \<Rightarrow> addr \<Rightarrow> rdq" where
  "rd_tail_cas s tail_old n = s\<lparr>rd_tail := fst (cas (rd_tail s) tail_old (cell n (aba tail_old + 1)))\<rparr>"

fun rd_enqueue :: "nat \<Rightarrow> rdq \<Rightarrow> u64 ms_pc \<Rightarrow> rd_out" where
  "rd_enqueue a s (EnqAlloc item) = (if is_fresh (rd_heap s) a
     then (put_node s a \<lparr>r_next = cell NULL 0, r_value = item, r_deleted = False\<rparr>, Next (RdEnq (EnqTail a)))
     else (s, Next (RdEnq (EnqAlloc item))))"
| "rd_enqueue a s (EnqTail n) = (s, Next (RdEnq (EnqNext n (rd_tail s))))"
| "rd_enqueue a s (EnqNext n tail_old) =
     at_node s (val tail_old) (\<lambda>nd. (s, Next (RdEnq (EnqCheck n tail_old (r_next nd)))))"
| "rd_enqueue a s (EnqCheck n tail_old nx) = (s, Next (RdEnq (if tail_old = rd_tail s
     then (if val nx = NULL then EnqLink n tail_old nx else EnqHelp n tail_old nx)
     else EnqTail n)))"
| "rd_enqueue a s (EnqLink n tail_old nx) = at_node s (val tail_old) (\<lambda>nd.
     let (nx', b) = cas (r_next nd) nx (cell n (aba nx + 1))
     in (put_node s (val tail_old) (nd\<lparr>r_next := nx'\<rparr>), Next (RdEnq (if b then EnqSwing n tail_old else EnqTail n))))"
| "rd_enqueue a s (EnqHelp n tail_old nx) = (rd_tail_cas s tail_old (val nx), Next (RdEnq (EnqTail n)))"
| "rd_enqueue a s (EnqSwing n tail_old) = (rd_tail_cas s tail_old n, Return (Enqueued True))"
| "rd_enqueue a s p = (s, Fault (Undefined ''enqueue''))"

text \<open>The choice of random_index, and the branch on it.\<close>

definition rd_choose :: "nat \<Rightarrow> rdq \<Rightarrow> u64 \<Rightarrow> addr acell \<Rightarrow> addr acell \<Rightarrow> addr \<Rightarrow> (rd_pc, u64 ms_res) outcome" where
  "rd_choose n s retries head_old tail_old node =
     (if rd_max_retries s \<le> retries then Next (RdClean (retries + 1) head_old tail_old node)
      else if rd_quasi_factor s = 0 then Fault (Undefined ''mod'')
      else let random_index = of_nat n mod rd_quasi_factor s
        in Next (if random_index = 0 then RdClean (retries + 1) head_old tail_old node
          else RdWalk (retries + 1) node random_index 0))"

fun rd_dequeue :: "nat \<Rightarrow> rdq \<Rightarrow> rd_pc \<Rightarrow> rd_out" where
  "rd_dequeue n s (RdHead k) = (s, Next (RdTail k (rd_head s)))"
| "rd_dequeue n s (RdTail k head_old) = (s, Next (RdNext k head_old (rd_tail s)))"
| "rd_dequeue n s (RdNext k head_old tail_old) =
     at_node s (val head_old) (\<lambda>nd. (s, Next (RdCheck k head_old tail_old (r_next nd))))"
| "rd_dequeue n s (RdCheck k head_old tail_old nx) = (s, if rd_head s = head_old then
     (if val head_old = val tail_old
      then (if val nx = NULL then Return (Dequeued None) else Next (RdHelp k tail_old nx))
      else rd_choose n s k head_old tail_old (val nx))
     else Next (RdHead k))"
| "rd_dequeue n s (RdHelp k tail_old nx) = (rd_tail_cas s tail_old (val nx), Next (RdHead k))"
| "rd_dequeue n s (RdClean k head_old tail_old node) = (if node = NULL then (s, Return (Dequeued None))
     else at_node s node (\<lambda>nd. (s, Next (if r_deleted nd then RdCleanCas k head_old tail_old node else RdTest k node))))"
| "rd_dequeue n s (RdCleanCas k head_old tail_old node) =
     (let head_new = cell node (aba head_old + 1); (head', b) = cas (rd_head s) head_old head_new
      in (s\<lparr>rd_head := head'\<rparr>, Next (if \<not> b \<or> node = val tail_old then RdHead k else RdCleanNext k head_new tail_old)))"
| "rd_dequeue n s (RdCleanNext k head_old tail_old) =
     at_node s (val head_old) (\<lambda>nd. (s, Next (RdClean k head_old tail_old (val (r_next nd)))))"
| "rd_dequeue n s (RdWalk k node random_index i) = (if i < random_index
     then at_node s node (\<lambda>nd. (s, Next (if val (r_next nd) \<noteq> NULL then RdStep k node random_index i else RdTest k node)))
     else (s, Next (RdTest k node)))"
| "rd_dequeue n s (RdStep k node random_index i) =
     at_node s node (\<lambda>nd. (s, Next (RdWalk k (val (r_next nd)) random_index (i + 1))))"
| "rd_dequeue n s (RdTest k node) =
     at_node s node (\<lambda>nd. (s, Next (if \<not> r_deleted nd then RdClaim k node else RdHead k)))"
| "rd_dequeue n s (RdClaim k node) = at_node s node (\<lambda>nd. if \<not> r_deleted nd
     then (put_node s node (nd\<lparr>r_deleted := True\<rparr>), Next (RdValue node))
     else (s, Next (RdHead k)))"
| "rd_dequeue n s (RdValue node) = at_node s node (\<lambda>nd. (s, Return (Dequeued (Some (r_value nd)))))"
| "rd_dequeue n s p = (s, Fault (Undefined ''dequeue''))"

fun rd_body :: "tid \<Rightarrow> nat \<Rightarrow> rdq \<Rightarrow> rd_pc \<Rightarrow> rd_out" where
  "rd_body t n s (RdEntry item) = (s, if item = 0 then Fault (Abort ''assert'') else Next (RdEnq (EnqAlloc item)))"
| "rd_body t n s (RdEnq p) = rd_enqueue n s p"
| "rd_body t n s p = rd_dequeue n s p"

fun rd_start :: "u64 ms_op \<Rightarrow> rd_pc" where
  "rd_start (Enq item) = RdEntry item"
| "rd_start op = RdHead 0"

definition rd_prog :: "(rdq, u64 ms_op, u64 ms_res, rd_pc) prog" where
  "rd_prog = \<lparr>start = rd_start, body = rd_body\<rparr>"

lemma rd_prog_simps [simp]: "start rd_prog = rd_start" "body rd_prog = rd_body"
  by (simp_all add: rd_prog_def)

section \<open>The sequential specification\<close>

text \<open>A queue whose dequeue may take any of the first k items.\<close>

definition remove_at :: "nat \<Rightarrow> 'a list \<Rightarrow> 'a list" where
  "remove_at i xs = take i xs @ drop (Suc i) xs"

fun quasi_spec :: "nat \<Rightarrow> u64 list \<Rightarrow> u64 ms_op \<Rightarrow> u64 ms_res \<Rightarrow> u64 list \<Rightarrow> bool" where
  "quasi_spec k q (Enq x) r q' \<longleftrightarrow> r = Enqueued True \<and> q' = q @ [x]"
| "quasi_spec k q op r q' \<longleftrightarrow> r = Dequeued None \<and> q = [] \<and> q' = q \<or>
     (\<exists>i < min k (length q). r = Dequeued (Some (q ! i)) \<and> q' = remove_at i q)"

section \<open>The layout of the nodes\<close>

text \<open>Without the flags the nodes are those of a Michael-Scott queue.\<close>

definition plain :: "rnode \<Rightarrow> u64 mnode" where
  "plain nd = \<lparr>m_next = r_next nd, m_value = r_value nd\<rparr>"

definition rd_ms :: "rdq \<Rightarrow> u64 msq" where
  "rd_ms s = \<lparr>m_head = rd_head s, m_tail = rd_tail s, m_heap = (\<lambda>a. map_option plain (rd_heap s a))\<rparr>"

definition dead :: "rdq \<Rightarrow> addr \<Rightarrow> bool" where
  "dead s a \<longleftrightarrow> r_deleted (the (rd_heap s a))"

definition r_nodes :: "rdq \<Rightarrow> addr list" where
  "r_nodes s = nodes (rd_ms s)"

text \<open>The nodes that still hold an item, up to a position of the list.\<close>

definition alive :: "rdq \<Rightarrow> nat \<Rightarrow> addr list" where
  "alive s m = filter (\<lambda>a. \<not> dead s a) (tl (take m (r_nodes s)))"

definition rd_abs :: "rdq \<Rightarrow> u64 list" where
  "rd_abs s = map (m_item (rd_ms s)) (alive s (length (r_nodes s)))"

definition rd_inv :: "u64 \<Rightarrow> rdq \<Rightarrow> bool" where
  "rd_inv k s \<longleftrightarrow> ms_inv (rd_ms s) \<and> rd_quasi_factor s = k \<and> alive s (Suc (hpos (rd_ms s))) = []"

definition reach :: "rdq \<Rightarrow> addr \<Rightarrow> nat \<Rightarrow> bool" where
  "reach s a j \<longleftrightarrow> (\<exists>m. 0 < m \<and> m < length (r_nodes s) \<and> r_nodes s ! m = a \<and> length (alive s m) \<le> j)"

definition has_next :: "rdq \<Rightarrow> addr \<Rightarrow> nat \<Rightarrow> bool" where
  "has_next s a j \<longleftrightarrow> (\<exists>m. 0 < m \<and> Suc m < length (r_nodes s) \<and> r_nodes s ! m = a \<and> length (alive s m) \<le> j)"

fun rd_own :: "rd_pc \<Rightarrow> addr set" where
  "rd_own (RdEnq p) = ms_own p"
| "rd_own p = {}"

fun rd_mark :: "rdq \<Rightarrow> rd_pc \<Rightarrow> u64 ms_res mark" where
  "rd_mark s (RdEnq p) = ms_mark p"
| "rd_mark s (RdCheck k ho to nx) = ms_mark (DeqCheck Plain ho to nx :: u64 ms_pc)"
| "rd_mark s (RdValue a) = Fixed (Dequeued (Some (m_item (rd_ms s) a)))"
| "rd_mark s p = Pend"

fun rd_assert :: "u64 \<Rightarrow> rdq \<Rightarrow> tid \<Rightarrow> u64 ms_op \<Rightarrow> rd_pc \<Rightarrow> bool" where
  "rd_assert k s t op (RdEntry x) \<longleftrightarrow> op = Enq x"
| "rd_assert k s t op (RdEnq p) \<longleftrightarrow> (\<exists>x. op = Enq x) \<and> ms_pinv (rd_ms s) t op p \<and> (\<forall>a \<in> ms_own p. \<not> dead s a)"
| "rd_assert k s t op (RdHead r) \<longleftrightarrow> op = Deq Plain"
| "rd_assert k s t op (RdTail r ho) \<longleftrightarrow> op = Deq Plain \<and> ms_pinv (rd_ms s) t op (DeqTail Plain ho)"
| "rd_assert k s t op (RdNext r ho to) \<longleftrightarrow> op = Deq Plain \<and> ms_pinv (rd_ms s) t op (DeqNext Plain ho to)"
| "rd_assert k s t op (RdCheck r ho to nx) \<longleftrightarrow> op = Deq Plain \<and> ms_pinv (rd_ms s) t op (DeqCheck Plain ho to nx)"
| "rd_assert k s t op (RdHelp r to nx) \<longleftrightarrow> op = Deq Plain \<and> ms_pinv (rd_ms s) t op (DeqHelp Plain to nx)"
| "rd_assert k s t op (RdClean r ho to a) \<longleftrightarrow> op = Deq Plain \<and> ms_pinv (rd_ms s) t op (DeqValue Plain ho to (cell a 1))"
| "rd_assert k s t op (RdCleanCas r ho to a) \<longleftrightarrow>
     op = Deq Plain \<and> ms_pinv (rd_ms s) t op (DeqValue Plain ho to (cell a 1)) \<and> dead s a"
| "rd_assert k s t op (RdCleanNext r ho to) \<longleftrightarrow>
     op = Deq Plain \<and> (\<exists>i j. was_head (rd_ms s) ho i \<and> was_tail (rd_ms s) to j \<and> i < j)"
| "rd_assert k s t op (RdWalk r a idx i) \<longleftrightarrow> op = Deq Plain \<and> idx < k \<and> i \<le> idx \<and> reach s a (unat i)"
| "rd_assert k s t op (RdStep r a idx i) \<longleftrightarrow> op = Deq Plain \<and> idx < k \<and> i < idx \<and> has_next s a (unat i)"
| "rd_assert k s t op (RdTest r a) \<longleftrightarrow> op = Deq Plain \<and> (\<exists>j < unat k. reach s a j)"
| "rd_assert k s t op (RdClaim r a) \<longleftrightarrow> op = Deq Plain \<and> (\<exists>j < unat k. reach s a j)"
| "rd_assert k s t op (RdValue a) \<longleftrightarrow> op = Deq Plain \<and> (\<exists>m < length (r_nodes s). r_nodes s ! m = a)"

fun rd_call_ok :: "u64 \<Rightarrow> u64 ms_op \<Rightarrow> bool" where
  "rd_call_ok k (Enq x) \<longleftrightarrow> k \<noteq> 0 \<and> x \<noteq> 0"
| "rd_call_ok k op \<longleftrightarrow> k \<noteq> 0 \<and> op = Deq Plain"

definition rd_pinv :: "u64 \<Rightarrow> rdq \<Rightarrow> tid \<Rightarrow> u64 ms_op \<Rightarrow> rd_pc \<Rightarrow> bool" where
  "rd_pinv k s t op p \<longleftrightarrow> rd_call_ok k op \<and> rd_assert k s t op p"

definition rd_rely :: "addr set \<Rightarrow> addr set \<Rightarrow> rdq \<Rightarrow> rdq \<Rightarrow> bool" where
  "rd_rely A B s s' \<longleftrightarrow> ms_rely A B (rd_ms s) (rd_ms s') \<and> (\<forall>a \<in> A. dead s' a = dead s a) \<and>
     (\<forall>a \<in> set (r_nodes s). dead s a \<longrightarrow> dead s' a)"

section \<open>What the others leave of an assertion\<close>

lemma length_filter_imp: "(\<And>x. x \<in> set xs \<Longrightarrow> P x \<Longrightarrow> Q x) \<Longrightarrow> length (filter P xs) \<le> length (filter Q xs)"
  by (induction xs) (auto intro: le_SucI)

lemma alive_mono:
  assumes "r_nodes s' = r_nodes s @ ys" "\<forall>a \<in> set (r_nodes s). dead s a \<longrightarrow> dead s' a" "m \<le> length (r_nodes s)"
  shows "length (alive s' m) \<le> length (alive s m)"
proof -
  have t: "take m (r_nodes s') = take m (r_nodes s)" using assms(1,3) by simp
  let ?xs = "tl (take m (r_nodes s))"
  have "set ?xs \<subseteq> set (r_nodes s)" by (metis list.set_sel(2) set_take_subset subset_iff tl_Nil)
  then have "length (filter (\<lambda>a. \<not> dead s' a) ?xs) \<le> length (filter (\<lambda>a. \<not> dead s a) ?xs)"
    using assms(2) by (intro length_filter_imp) auto
  then show ?thesis by (simp add: alive_def t)
qed

lemma alive_Suc: "0 < m \<Longrightarrow> m < length (r_nodes s) \<Longrightarrow>
    alive s (Suc m) = alive s m @ (if dead s (r_nodes s ! m) then [] else [r_nodes s ! m])"
  by (cases m; cases "r_nodes s") (auto simp: alive_def take_Suc_conv_app_nth)

lemma rd_stable:
  assumes "rd_inv k s" "rd_rely (rd_own p) B s s'" "rd_pinv k s t op p"
  shows "rd_pinv k s' t op p" "rd_mark s' p = rd_mark s p"
proof -
  have I: "ms_inv (rd_ms s)" using assms(1) by (simp add: rd_inv_def)
  have R: "ms_rely (rd_own p) B (rd_ms s) (rd_ms s')" "\<forall>a \<in> rd_own p. dead s' a = dead s a"
    "\<forall>a \<in> set (r_nodes s). dead s a \<longrightarrow> dead s' a" using assms(2) by (simp_all add: rd_rely_def)
  obtain ys where ys: "r_nodes s' = r_nodes s @ ys" using R(1) by (auto simp: ms_rely_def r_nodes_def)
  have it: "m_item (rd_ms s') a = m_item (rd_ms s) a" if "a \<in> set (r_nodes s)" for a
    using R(1) that by (simp add: ms_rely_def r_nodes_def)
  have rc: "reach s' a j" if "reach s a j" for a j
  proof -
    obtain m where m: "0 < m" "m < length (r_nodes s)" "r_nodes s ! m = a" "length (alive s m) \<le> j"
      using \<open>reach s a j\<close> by (auto simp: reach_def)
    have "length (alive s' m) \<le> j" using alive_mono [OF ys R(3), of m] m(2,4) by simp
    then show ?thesis unfolding reach_def using m ys by (intro exI [of _ m]) (simp add: nth_append)
  qed
  have hn: "has_next s' a j" if "has_next s a j" for a j
  proof -
    obtain m where m: "0 < m" "Suc m < length (r_nodes s)" "r_nodes s ! m = a" "length (alive s m) \<le> j"
      using \<open>has_next s a j\<close> by (auto simp: has_next_def)
    have "length (alive s' m) \<le> j" using alive_mono [OF ys R(3), of m] m(2,4) by simp
    then show ?thesis unfolding has_next_def using m ys by (intro exI [of _ m]) (simp add: nth_append)
  qed
  note W = rely_was [OF I R(1)]
  have ms: "ms_pinv (rd_ms s') t op q" if "ms_pinv (rd_ms s) t op q" "ms_own q = rd_own p" for q
    using ms_stable [OF I _ that(1), of B "rd_ms s'"] R(1) that(2) by simp
  have av: "\<exists>m < length (r_nodes s'). r_nodes s' ! m = a" if "\<exists>m < length (r_nodes s). r_nodes s ! m = a" for a
    using that ys by (auto simp: nth_append intro: less_le_trans)
  have dd: "dead s' a" if "dead s a" "\<exists>i. linked (rd_ms s) i (cell a 1)" for a
    using R(3) that by (auto simp: linked_def r_nodes_def)
  have a: "rd_assert k s t op p" "rd_call_ok k op" using assms(3) by (simp_all add: rd_pinv_def)
  have "rd_assert k s' t op p"
  proof (cases p)
    case (RdEnq q)
    then show ?thesis using a(1) ms [of q] R(2) by simp
  next
    case (RdCleanCas r ho to b)
    then have "ms_pinv (rd_ms s') t op (DeqValue Plain ho to (cell b 1))"
      using a(1) ms [of "DeqValue Plain ho to (cell b 1)"] by simp
    moreover have "dead s' b" using a(1) RdCleanCas by (intro dd) auto
    ultimately show ?thesis using a(1) RdCleanCas by (simp del: ms_pinv.simps)
  next
    case (RdCleanNext r ho to)
    then show ?thesis using a(1) W(1,2) by simp metis
  next
    case (RdTail r ho)
    then show ?thesis using a(1) ms [of "DeqTail Plain ho"] by (auto simp del: ms_pinv.simps)
  next
    case (RdNext r ho to)
    then show ?thesis using a(1) ms [of "DeqNext Plain ho to"] by (auto simp del: ms_pinv.simps)
  next
    case (RdCheck r ho to nx)
    then show ?thesis using a(1) ms [of "DeqCheck Plain ho to nx"] by (auto simp del: ms_pinv.simps)
  next
    case (RdHelp r to nx)
    then show ?thesis using a(1) ms [of "DeqHelp Plain to nx"] by (auto simp del: ms_pinv.simps)
  next
    case (RdClean r ho to b)
    then show ?thesis using a(1) ms [of "DeqValue Plain ho to (cell b 1)"] by (auto simp del: ms_pinv.simps)
  next
    case (RdValue b)
    then show ?thesis using a(1) av by simp
  next
    case (RdTest r b)
    then show ?thesis using a(1) rc by auto
  next
    case (RdClaim r b)
    then show ?thesis using a(1) rc by auto
  qed (use a(1) rc hn in simp_all)
  then show "rd_pinv k s' t op p" using a(2) by (simp add: rd_pinv_def)
  show "rd_mark s' p = rd_mark s p" using a(1) by (cases p) (auto simp: it)
qed

section \<open>Steps\<close>

lemma rd_invD:
  assumes "rd_inv k s"
  shows "ms_inv (rd_ms s)" "rd_quasi_factor s = k" "alive s (Suc (hpos (rd_ms s))) = []"
  using assms by (simp_all add: rd_inv_def)

lemma rd_node:
  assumes "rd_inv k s" "m < length (r_nodes s)"
  obtains nd where "rd_heap s (r_nodes s ! m) = Some nd"
    "r_next nd = (if Suc m < length (r_nodes s) then cell (r_nodes s ! Suc m) 1 else cell NULL 0)"
    "r_nodes s ! m \<noteq> NULL" "r_value nd = m_item (rd_ms s) (r_nodes s ! m)"
proof -
  note L = ms_invD [OF rd_invD(1) [OF assms(1)]]
  obtain pd where pd: "m_heap (rd_ms s) (r_nodes s ! m) = Some pd"
    "m_next pd = (if Suc m < length (r_nodes s) then cell (r_nodes s ! Suc m) 1 else cell NULL 0)"
    using layout_node [OF L, of m] assms(2) unfolding r_nodes_def by metis
  have n: "r_nodes s ! m \<noteq> NULL" using layoutD(13) [OF L] assms(2) nth_mem unfolding r_nodes_def by metis
  obtain nd where "rd_heap s (r_nodes s ! m) = Some nd" "plain nd = pd"
    using pd(1) by (auto simp: rd_ms_def)
  then show thesis using that [of nd] pd n by (auto simp: plain_def m_item_def)
qed

lemma rd_abs_cong:
  assumes "r_nodes s' = r_nodes s" "\<And>a. a \<in> set (r_nodes s) \<Longrightarrow> dead s' a = dead s a"
    "\<And>a. a \<in> set (r_nodes s) \<Longrightarrow> m_item (rd_ms s') a = m_item (rd_ms s) a"
  shows "alive s' m = alive s m" "rd_abs s' = rd_abs s"
proof -
  have sub: "set (tl (take m (r_nodes s))) \<subseteq> set (r_nodes s)" for m
    by (metis list.set_sel(2) set_take_subset subset_iff tl_Nil)
  show a: "alive s' m = alive s m" for m
    unfolding alive_def assms(1) by (rule filter_cong [OF refl]) (use assms(2) sub in blast)
  have "set (alive s m) \<subseteq> set (r_nodes s)" for m using sub by (auto simp: alive_def)
  then show "rd_abs s' = rd_abs s"
    unfolding rd_abs_def a assms(1) by (intro map_cong refl assms(3)) blast
qed

text \<open>The steps of enqueue are those of the enqueue of MSQueue on the nodes without their flags.\<close>

fun en_out :: "(u64 ms_pc, u64 ms_res) outcome \<Rightarrow> (rd_pc, u64 ms_res) outcome" where
  "en_out (Next p) = Next (RdEnq p)"
| "en_out (Return r) = Return r"
| "en_out (Fault e) = Fault e"

lemma rd_ms_simps [simp]:
  "m_head (rd_ms s) = rd_head s" "m_tail (rd_ms s) = rd_tail s" "m_heap (rd_ms s) a = map_option plain (rd_heap s a)"
  "is_fresh (m_heap (rd_ms s)) n = is_fresh (rd_heap s) n"
  by (simp_all add: rd_ms_def is_fresh_def)

lemma plain_simps [simp]: "m_next (plain nd) = r_next nd" "m_value (plain nd) = r_value nd"
  by (simp_all add: plain_def)

lemma rd_ms_put: "rd_ms (put_node s a nd) = (rd_ms s)\<lparr>m_heap := (m_heap (rd_ms s))(a \<mapsto> plain nd)\<rparr>"
  by (simp add: rd_ms_def put_node_def fun_eq_iff)

lemma rd_ms_tail_cas: "rd_ms (rd_tail_cas s c n) = tail_cas (rd_ms s) c n"
  by (simp add: rd_ms_def rd_tail_cas_def tail_cas_def)

lemma rd_enqueue_sim:
  "rd_ms (fst (rd_enqueue n s p)) = fst (enqueue_body n (rd_ms s) p) \<and>
   snd (rd_enqueue n s p) = en_out (snd (enqueue_body n (rd_ms s) p))"
  by (cases p; simp add: at_node_def next_of_def rd_ms_tail_cas rd_ms_put link_cas_def Let_def plain_def node_new_def
      split: option.split prod.split)

lemma rd_enqueue_dead: "rd_heap s b \<noteq> None \<Longrightarrow> dead (fst (rd_enqueue n s p)) b = dead s b"
  by (cases p) (auto simp: at_node_def dead_def put_node_def rd_tail_cas_def is_fresh_def Let_def
      split: option.split prod.split)

lemma rd_enqueue_factor: "rd_quasi_factor (fst (rd_enqueue n s p)) = rd_quasi_factor s"
  by (cases p) (simp_all add: at_node_def put_node_def rd_tail_cas_def Let_def split: option.split prod.split)

text \<open>The spec of a Michael-Scott queue gives the relaxed one for steps that change no item.\<close>

lemma spec_transfer:
  assumes "rd_inv k s" "op = Enq x \<or> op = Deq Plain" "queue_spec (ms_abs (rd_ms s)) op r (ms_abs (rd_ms s))"
  shows "quasi_spec n (rd_abs s) op r (rd_abs s)"
proof -
  note L = layoutD [OF ms_invD [OF rd_invD(1) [OF assms(1)]]]
  obtain xs e where m: "ms_abs (rd_ms s) = (xs, e)" by (cases "ms_abs (rd_ms s)")
  have "op = Deq Plain \<and> r = Dequeued None \<and> xs = []"
    using assms(2,3) m by (auto simp: found_empty_def took_def)
  moreover have "rd_abs s = []" if "xs = []"
  proof -
    have "Suc (hpos (rd_ms s)) = length (r_nodes s)"
      using ms_abs_eq(1) [OF rd_invD(1) [OF assms(1)]] m that by (simp add: r_nodes_def)
    then show ?thesis using rd_invD(3) [OF assms(1)] by (simp add: rd_abs_def)
  qed
  ultimately show ?thesis by simp
qed

lemma lin_transfer:
  assumes "rd_inv k s" "op = Enq x \<or> op = Deq Plain"
    and "lin_own queue_spec op (ms_abs (rd_ms s)) m (ms_abs (rd_ms s)) m'"
  shows "lin_own (quasi_spec n) op (rd_abs s) m (rd_abs s) m'"
  using assms(3) spec_transfer [OF assms(1,2)] unfolding lin_own_def by blast

text \<open>
  A step is quiet (only the tail may move), or it allocates a node, links one, moves the
  head over a claimed node, or claims a node.
\<close>

definition rd_quiet :: "u64 \<Rightarrow> rdq \<Rightarrow> tid \<Rightarrow> u64 ms_op \<Rightarrow> rd_pc \<Rightarrow> (rd_pc, u64 ms_res) outcome \<Rightarrow> bool" where
  "rd_quiet k s t op p out \<longleftrightarrow>
     lin_own (quasi_spec (unat k)) op (rd_abs s) (rd_mark s p) (rd_abs s) (out_mark (rd_mark s) out) \<and>
     (case out of Next p' \<Rightarrow> rd_assert k s t op p' \<and> rd_own p' \<subseteq> rd_own p | Return r \<Rightarrow> True | Fault e \<Rightarrow> False)"

definition rd_moved :: "rdq \<Rightarrow> rdq \<Rightarrow> bool" where
  "rd_moved s s' \<longleftrightarrow> tail_moved (rd_ms s) (rd_ms s') \<and> rd_quasi_factor s' = rd_quasi_factor s \<and>
     (\<forall>a. rd_heap s a \<noteq> None \<longrightarrow> dead s' a = dead s a)"

lemma moved_refl [simp]: "rd_moved s s"
  by (simp add: rd_moved_def tail_moved_def)

lemma rd_quiet_next:
  "rd_assert k s t op p' \<Longrightarrow> rd_own p' \<subseteq> rd_own p \<Longrightarrow> evolves (rd_mark s p) (rd_mark s p') \<Longrightarrow> rd_quiet k s t op p (Next p')"
  by (simp add: rd_quiet_def lin_own_def)

lemma rd_enq_cases [consumes 4, case_names quiet alloc link]:
  assumes "rd_inv k s" "rd_assert k s t (Enq x) (RdEnq p)" "ms_own p \<inter> set (r_nodes s) = {}"
    and "rd_enqueue n s p = (s', out)"
  obtains
    (quiet) "rd_moved s s'" "rd_quiet k s t (Enq x) (RdEnq p) out"
  | (alloc) y where "is_fresh (rd_heap s) n" "p = EnqAlloc y" "out = Next (RdEnq (EnqTail n))"
      "s' = put_node s n \<lparr>r_next = cell NULL 0, r_value = y, r_deleted = False\<rparr>"
  | (link) m nd where "unlinked (rd_ms s) m x" "m \<notin> set (r_nodes s)" "Suc (tpos (rd_ms s)) = length (r_nodes s)"
      "m_heap (rd_ms s) (r_nodes s ! tpos (rd_ms s)) = Some nd"
      "rd_ms s' = (rd_ms s)\<lparr>m_heap := (m_heap (rd_ms s))(r_nodes s ! tpos (rd_ms s) \<mapsto> nd\<lparr>m_next := cell m 1\<rparr>)\<rparr>"
      "p = EnqLink m (rd_tail s) (cell NULL 0)" "out = Next (RdEnq (EnqSwing m (rd_tail s)))"
proof -
  note I = rd_invD [OF assms(1)]
  have pin: "ms_pinv (rd_ms s) t (Enq x) p" and nd: "\<forall>a \<in> ms_own p. \<not> dead s a" using assms(2) by auto
  obtain ms' mo where b: "ms_body t n (rd_ms s) p = (ms', mo)" by fastforce
  have enq: "ms_body t n (rd_ms s) p = enqueue_body n (rd_ms s) p" using pin by (cases p) auto
  have ms': "ms' = rd_ms s'" and out: "out = en_out mo"
    using rd_enqueue_sim [of n s p] assms(4) b enq by simp_all
  have fl: "rd_heap s a \<noteq> None \<longrightarrow> dead s' a = dead s a" for a using rd_enqueue_dead [of s a n p] assms(4) by simp
  have qf: "rd_quasi_factor s' = rd_quasi_factor s" using rd_enqueue_factor [of n s p] assms(4) by simp
  have own: "ms_own p \<inter> set (nodes (rd_ms s)) = {}" using assms(3) by (simp add: r_nodes_def)
  from I(1) pin own b show thesis
  proof (cases rule: ms_body_cases)
    case q: quiet
    have "rd_quiet k s t (Enq x) (RdEnq p) out"
    proof -
      have l: "lin_own queue_spec (Enq x) (ms_abs (rd_ms s)) (ms_mark p) (ms_abs (rd_ms s)) (out_mark ms_mark mo)"
        using q(2) by (simp add: quiet_def)
      have "out_mark (rd_mark s) out = out_mark ms_mark mo" unfolding out by (cases mo) simp_all
      then have "lin_own (quasi_spec (unat k)) (Enq x) (rd_abs s) (ms_mark p) (rd_abs s) (out_mark (rd_mark s) out)"
        using lin_transfer [OF assms(1) _ l] by simp
      moreover have "case out of Next p' \<Rightarrow> rd_assert k s t (Enq x) p' \<and> rd_own p' \<subseteq> rd_own (RdEnq p) | Return r \<Rightarrow> True | Fault e \<Rightarrow> False"
        using q(2) nd unfolding out by (cases mo) (auto simp: quiet_def)
      ultimately show ?thesis by (simp add: rd_quiet_def)
    qed
    moreover have "rd_moved s s'" using q(1) ms' fl qf by (simp add: rd_moved_def)
    ultimately show thesis using quiet by blast
  next
    case a: (alloc y to nx)
    then have "p = EnqAlloc y" using pin by auto
    then show thesis using a assms(4) out by (intro alloc) auto
  next
    case l: (link m y nd)
    then have "y = x" by auto
    then show thesis using l ms' out by (intro link [of m nd]) (auto simp: r_nodes_def)
  next
    case (head d to nx)
    then show thesis by simp
  qed
qed

text \<open>The first half of dequeue is the one of MSQueue.\<close>

fun de_pc :: "u64 \<Rightarrow> u64 ms_pc \<Rightarrow> rd_pc" where
  "de_pc r (DeqHead d) = RdHead r"
| "de_pc r (DeqTail d ho) = RdTail r ho"
| "de_pc r (DeqNext d ho to) = RdNext r ho to"
| "de_pc r (DeqCheck d ho to nx) = RdCheck r ho to nx"
| "de_pc r (DeqHelp d to nx) = RdHelp r to nx"
| "de_pc r p = RdEnq p"

fun de_out :: "u64 \<Rightarrow> (u64 ms_pc, u64 ms_res) outcome \<Rightarrow> (rd_pc, u64 ms_res) outcome" where
  "de_out r (Next p) = Next (de_pc r p)"
| "de_out r (Return x) = Return x"
| "de_out r (Fault e) = Fault e"

lemma rd_tail_moved:
  "rd_moved s (rd_tail_cas s c n) = tail_moved (rd_ms s) (tail_cas (rd_ms s) c n)"
  by (simp add: rd_moved_def rd_ms_tail_cas) (simp add: rd_tail_cas_def dead_def)

lemma de_quiet:
  assumes "rd_inv k s" "quiet (rd_ms s) t (Deq Plain) q mo"
    and "rd_mark s p = ms_mark q" "mo = Next q' \<Longrightarrow> q' = DeqHead Plain \<or> q' = DeqTail Plain ho \<or> q' = DeqNext Plain ho to \<or>
      q' = DeqCheck Plain ho to nx \<or> q' = DeqHelp Plain to nx" "mo = Next q' \<or> mo = Return x"
  shows "rd_quiet k s t (Deq Plain) p (de_out r mo)"
proof -
  have l: "lin_own queue_spec (Deq Plain) (ms_abs (rd_ms s)) (ms_mark q) (ms_abs (rd_ms s)) (out_mark ms_mark mo)"
    using assms(2) by (simp add: quiet_def)
  have "out_mark (rd_mark s) (de_out r mo) = out_mark ms_mark mo"
    using assms(4,5) by (cases mo) auto
  then have "lin_own (quasi_spec (unat k)) (Deq Plain) (rd_abs s) (rd_mark s p) (rd_abs s) (out_mark (rd_mark s) (de_out r mo))"
    using lin_transfer [OF assms(1) _ l] assms(3) by simp
  moreover have "case de_out r mo of Next p' \<Rightarrow> rd_assert k s t (Deq Plain) p' \<and> rd_own p' \<subseteq> rd_own p | Return r \<Rightarrow> True | Fault e \<Rightarrow> False"
    using assms(2,4,5) by (cases mo) (auto simp: quiet_def simp del: ms_pinv.simps)
  ultimately show ?thesis by (simp add: rd_quiet_def)
qed

lemma reach_node:
  assumes "rd_inv k s" "reach s a j"
  obtains nd m where "0 < m" "m < length (r_nodes s)" "a = r_nodes s ! m" "rd_heap s a = Some nd" "length (alive s m) \<le> j"
    "r_next nd = (if Suc m < length (r_nodes s) then cell (r_nodes s ! Suc m) 1 else cell NULL 0)"
    "r_value nd = m_item (rd_ms s) a"
proof -
  obtain m where m: "0 < m" "m < length (r_nodes s)" "r_nodes s ! m = a" "length (alive s m) \<le> j"
    using assms(2) by (auto simp: reach_def)
  show thesis by (rule rd_node [OF assms(1) m(2)]) (use that [of m] m in auto)
qed

text \<open>The node behind the head that a dequeue goes on with.\<close>

lemma clean_node:
  assumes "rd_inv k s" "was_head (rd_ms s) ho i" "was_tail (rd_ms s) to j" "i < j"
  shows "Suc i < length (r_nodes s)" "val ho = r_nodes s ! i" "reach s (r_nodes s ! Suc i) 0"
    "linked (rd_ms s) i (cell (r_nodes s ! Suc i) 1)"
proof -
  note I = rd_invD [OF assms(1)]
  note L = layoutD [OF ms_invD [OF I(1)]] and W = was_positions [OF I(1)]
  show n: "Suc i < length (r_nodes s)" using W(3) [OF assms(3)] assms(4) by (simp add: r_nodes_def)
  show "val ho = r_nodes s ! i" using W(4) [OF assms(2)] by (simp add: r_nodes_def)
  have "i \<le> hpos (rd_ms s)" using assms(2) by (simp add: was_head_def)
  then have "alive s (Suc i) = []"
  proof -
    assume i: "i \<le> hpos (rd_ms s)"
    then have "take (Suc i) (r_nodes s) = take (Suc i) (take (Suc (hpos (rd_ms s))) (r_nodes s))" by (simp add: min_def)
    then have "alive s (Suc i) = filter (\<lambda>a. \<not> dead s a) (take i (tl (take (Suc (hpos (rd_ms s))) (r_nodes s))))"
      by (simp add: alive_def tl_take)
    moreover have "\<forall>a \<in> set (tl (take (Suc (hpos (rd_ms s))) (r_nodes s))). dead s a"
      using I(3) by (auto simp: alive_def filter_empty_conv)
    ultimately show ?thesis by (auto simp: filter_empty_conv dest: in_set_takeD)
  qed
  then show "reach s (r_nodes s ! Suc i) 0" using n by (auto simp: reach_def)
  show "linked (rd_ms s) i (cell (r_nodes s ! Suc i) 1)" using n by (simp add: linked_def r_nodes_def)
qed

lemma rd_deq_first:
  assumes "rd_inv k s" "rd_assert k s t (Deq Plain) p" "rd_dequeue n s p = (s', out)"
    and "p = RdHead r \<or> p = RdTail r ho \<or> p = RdNext r ho to \<or> p = RdHelp r to nx"
  shows "rd_moved s s' \<and> rd_quiet k s t (Deq Plain) p out"
proof -
  note I = rd_invD [OF assms(1)]
  note D = ms_deq_cases [OF I(1)]
  show ?thesis
    using assms(4)
  proof (elim disjE)
    assume p: "p = RdHead r"
    have "quiet (rd_ms s) t (Deq Plain) (DeqHead Plain) (Next (DeqTail Plain (rd_head s)))"
      using D [of t "Deq Plain" "DeqHead Plain" Plain "rd_ms s" "Next (DeqTail Plain (rd_head s))"] by simp
    from de_quiet [OF assms(1) this, of p "DeqTail Plain (rd_head s)" "rd_head s" to nx undefined r]
    show ?thesis using assms(3) p by auto
  next
    assume p: "p = RdTail r ho"
    have "quiet (rd_ms s) t (Deq Plain) (DeqTail Plain ho) (Next (DeqNext Plain ho (rd_tail s)))"
      using D [of t "Deq Plain" "DeqTail Plain ho" Plain "rd_ms s" "Next (DeqNext Plain ho (rd_tail s))"] p assms(2) by simp
    from de_quiet [OF assms(1) this, of p "DeqNext Plain ho (rd_tail s)" ho "rd_tail s" nx undefined r]
    show ?thesis using assms(3) p by auto
  next
    assume p: "p = RdNext r ho to"
    then obtain i where i: "was_head (rd_ms s) ho i" using assms(2) by auto
    then have il: "i < length (r_nodes s)" "val ho = r_nodes s ! i"
      using was_positions(4) [OF I(1) i] by (simp_all add: r_nodes_def)
    obtain nd where nd: "rd_heap s (val ho) = Some nd" by (rule rd_node [OF assms(1) il(1)]) (use il(2) in simp)
    have "quiet (rd_ms s) t (Deq Plain) (DeqNext Plain ho to) (Next (DeqCheck Plain ho to (r_next nd)))"
      using D [of t "Deq Plain" "DeqNext Plain ho to" Plain "rd_ms s" "Next (DeqCheck Plain ho to (r_next nd))"] p assms(2) nd
      by (simp add: next_of_def)
    from de_quiet [OF assms(1) this, of p "DeqCheck Plain ho to (r_next nd)" ho to "r_next nd" undefined r]
    show ?thesis using assms(3) p nd by (auto simp: at_node_def)
  next
    assume p: "p = RdHelp r to nx"
    have "tail_moved (rd_ms s) (tail_cas (rd_ms s) to (val nx)) \<and>
        quiet (rd_ms s) t (Deq Plain) (DeqHelp Plain to nx) (Next (DeqHead Plain))"
      using D [of t "Deq Plain" "DeqHelp Plain to nx" Plain "tail_cas (rd_ms s) to (val nx)" "Next (DeqHead Plain)"] p assms(2)
      by simp
    then show ?thesis
      using de_quiet [OF assms(1), of t "DeqHelp Plain to nx" "Next (DeqHead Plain)" p "DeqHead Plain" ho to nx undefined r]
        assms(3) p by (auto simp: rd_tail_moved)
  qed
qed

lemma rd_deq_check:
  assumes "rd_inv k s" "k \<noteq> 0" "rd_assert k s t (Deq Plain) (RdCheck r ho to nx)" "rd_dequeue n s (RdCheck r ho to nx) = (s', out)"
  shows "s' = s \<and> rd_quiet k s t (Deq Plain) (RdCheck r ho to nx) out"
proof -
  note I = rd_invD [OF assms(1)]
  let ?q = "DeqCheck Plain ho to nx" and ?p = "RdCheck r ho to nx"
  have pin: "ms_pinv (rd_ms s) t (Deq Plain) ?q" using assms(3) by simp
  obtain mo where b: "dequeue_body Plain (rd_ms s) ?q = (rd_ms s, mo)" by simp
  have q: "quiet (rd_ms s) t (Deq Plain) ?q mo"
    using ms_deq_cases [OF I(1) pin b] by blast
  have s': "s' = s" using assms(4) by auto
  consider (other) "rd_head s \<noteq> ho" | (empty) "rd_head s = ho" "val ho = val to" "val nx = NULL"
    | (lagging) "rd_head s = ho" "val ho = val to" "val nx \<noteq> NULL" | (choose) "rd_head s = ho" "val ho \<noteq> val to" by blast
  then show ?thesis
  proof cases
    case other
    then have "mo = Next (DeqHead Plain)" "out = Next (RdHead r)" using b assms(4) by auto
    then show ?thesis using s' de_quiet [OF assms(1) q, of ?p "DeqHead Plain" ho to nx undefined r] by simp
  next
    case empty
    then have "mo = Return (Dequeued None)" "out = Return (Dequeued None)" using b assms(4) by auto
    then show ?thesis using s' de_quiet [OF assms(1) q, of ?p "DeqHead Plain" ho to nx "Dequeued None" r] by simp
  next
    case lagging
    then have "mo = Next (DeqHelp Plain to nx)" "out = Next (RdHelp r to nx)" using b assms(4) by auto
    then show ?thesis using s' de_quiet [OF assms(1) q, of ?p "DeqHelp Plain to nx" ho to nx undefined r] by simp
  next
    case choose
    then have "mo = Next (DeqValue Plain ho to nx)" using b by auto
    then have v: "ms_pinv (rd_ms s) t (Deq Plain) (DeqValue Plain ho to nx)" using q by (simp add: quiet_def)
    then obtain i j where ij: "was_head (rd_ms s) ho i" "was_tail (rd_ms s) to j" "i < j" "linked (rd_ms s) i nx" by auto
    note c = clean_node [OF assms(1) ij(1-3)]
    have nx: "nx = cell (r_nodes s ! Suc i) 1" using ij(4) by (simp add: linked_def r_nodes_def)
    have out: "out = rd_choose n s r ho to (val nx)" using choose assms(4) by auto
    have clean: "rd_quiet k s t (Deq Plain) ?p (Next (RdClean (r + 1) ho to (val nx)))"
    proof (rule rd_quiet_next)
      have "cell (val nx) 1 = nx" using nx by simp
      then show "rd_assert k s t (Deq Plain) (RdClean (r + 1) ho to (val nx))" using v by (simp del: ms_pinv.simps)
    qed (use choose in simp_all)
    have walk: "rd_quiet k s t (Deq Plain) ?p (Next (RdWalk (r + 1) (val nx) (of_nat n mod k) 0))"
    proof (rule rd_quiet_next)
      show "rd_assert k s t (Deq Plain) (RdWalk (r + 1) (val nx) (of_nat n mod k) 0)"
        using c(3) nx index_less [OF assms(2)] by simp
    qed (use choose in simp_all)
    show ?thesis using s' clean walk assms(2) I(2) unfolding out rd_choose_def by (simp add: Let_def)
  qed
qed

lemma rd_deq_cases [consumes 4, case_names quiet head claim]:
  assumes "rd_inv k s" "k \<noteq> 0" "rd_assert k s t (Deq Plain) p" "rd_dequeue n s p = (s', out)"
  obtains
    (quiet) "rd_moved s s'" "rd_quiet k s t (Deq Plain) p out"
  | (head) r to a where "p = RdCleanCas r (rd_head s) to a" "hpos (rd_ms s) < tpos (rd_ms s)"
      "s' = s\<lparr>rd_head := mword (r_nodes s) (Suc (hpos (rd_ms s)))\<rparr>" "a = r_nodes s ! Suc (hpos (rd_ms s))" "dead s a"
      "\<exists>j. was_tail (rd_ms s) to j \<and> hpos (rd_ms s) < j"
      "out = Next (if a = val to then RdHead r else RdCleanNext r (mword (r_nodes s) (Suc (hpos (rd_ms s)))) to)"
  | (claim) r a nd m where "p = RdClaim r a" "0 < m" "m < length (r_nodes s)" "a = r_nodes s ! m" "length (alive s m) < unat k"
      "rd_heap s a = Some nd" "\<not> r_deleted nd" "s' = put_node s a (nd\<lparr>r_deleted := True\<rparr>)" "out = Next (RdValue a)"
proof -
  note I = rd_invD [OF assms(1)]
  have q: thesis if "s' = s" "rd_quiet k s t (Deq Plain) p out" using that quiet by simp
  have first: thesis if "p = RdHead r \<or> p = RdTail r ho \<or> p = RdNext r ho to \<or> p = RdHelp r to nx" for r ho to nx
    using rd_deq_first [OF assms(1,3,4) that] quiet by blast
  have nxt: thesis if "s' = s" "out = Next p'" "rd_assert k s t (Deq Plain) p'" "rd_own p' = {}" "rd_mark s p = Pend" "rd_mark s p' = Pend" for p'
    using q that by (simp add: rd_quiet_next)
  have w: "j < unat k" if "i < k" "j = unat i" for i :: u64 and j using that by (simp add: word_less_nat_alt)
  show thesis
  proof (cases p)
    case (RdCheck r ho to nx)
    then show thesis using q rd_deq_check [OF assms(1,2)] assms(3,4) by blast
  next
    case (RdClean r ho to a)
    then obtain i j where ij: "was_head (rd_ms s) ho i" "was_tail (rd_ms s) to j" "i < j" "a = r_nodes s ! Suc i"
      using assms(3) by (auto simp: linked_def r_nodes_def)
    note c = clean_node [OF assms(1) ij(1-3)]
    obtain nd where nd: "rd_heap s a = Some nd" "a \<noteq> NULL" by (rule rd_node [OF assms(1) c(1)]) (use ij(4) in simp)
    have out: "s' = s" "out = Next (if r_deleted nd then RdCleanCas r ho to a else RdTest r a)"
      using assms(4) RdClean nd by (auto simp: at_node_def)
    have "0 < unat k" using assms(2) by (simp add: unat_gt_0)
    then have "rd_assert k s t (Deq Plain) (if r_deleted nd then RdCleanCas r ho to a else RdTest r a)"
      using assms(3) RdClean c(3) ij(4) nd(1) by (auto simp: dead_def simp del: ms_pinv.simps)
    then have "rd_quiet k s t (Deq Plain) p out" unfolding out RdClean by (rule rd_quiet_next) simp_all
    then show thesis using q out(1) by simp
  next
    case (RdCleanCas r ho to a)
    then obtain i j where ij: "was_head (rd_ms s) ho i" "was_tail (rd_ms s) to j" "i < j" "a = r_nodes s ! Suc i" "dead s a"
      using assms(3) by (auto simp: linked_def r_nodes_def)
    note c = clean_node [OF assms(1) ij(1-3)]
    show thesis
    proof (cases "rd_head s = ho")
      case True
      have i: "i = hpos (rd_ms s)" using was_positions(2) [OF I(1)] ij(1) True by auto
      have ab: "aba ho = of_nat i" using was_positions(4) [OF I(1) ij(1)] by simp
      have "j \<le> tpos (rd_ms s)" using ij(2) by (simp add: was_tail_def)
      then show thesis using True assms(4) RdCleanCas ij i ab
        by (intro head [of r to a]) (auto simp: cas_def mword_def add.commute Let_def)
    next
      case False
      then have "s' = s" "out = Next (RdHead r)" using assms(4) RdCleanCas by (auto simp: cas_def Let_def)
      moreover have "rd_quiet k s t (Deq Plain) p (Next (RdHead r))" using RdCleanCas by (auto intro!: rd_quiet_next)
      ultimately show thesis using q by simp
    qed
  next
    case (RdCleanNext r ho to)
    then obtain i j where ij: "was_head (rd_ms s) ho i" "was_tail (rd_ms s) to j" "i < j" using assms(3) by auto
    note c = clean_node [OF assms(1) ij]
    obtain nd where nd: "rd_heap s (val ho) = Some nd" "r_next nd = cell (r_nodes s ! Suc i) 1"
      by (rule rd_node [OF assms(1), of i]) (use c(1,2) in auto)
    have out: "s' = s" "out = Next (RdClean r ho to (r_nodes s ! Suc i))"
      using assms(4) RdCleanNext nd by (auto simp: at_node_def)
    moreover have "rd_quiet k s t (Deq Plain) p out" unfolding out(2) RdCleanNext
      by (rule rd_quiet_next) (use c(4) ij in auto)
    ultimately show thesis using q by simp
  next
    case (RdWalk r a idx i)
    then have x: "idx < k" "i \<le> idx" "reach s a (unat i)" using assms(3) by auto
    obtain nd m where m: "0 < m" "m < length (r_nodes s)" "a = r_nodes s ! m" "rd_heap s a = Some nd" "length (alive s m) \<le> unat i"
      "r_next nd = (if Suc m < length (r_nodes s) then cell (r_nodes s ! Suc m) 1 else cell NULL 0)"
      by (rule reach_node [OF assms(1) x(3)])
    have "i < k" using x(2,1) by (rule order.strict_trans1)
    then have test: "rd_assert k s t (Deq Plain) (RdTest r a)" using x w [of i] by auto
    have step: "rd_assert k s t (Deq Plain) (RdStep r a idx i)" if "i < idx" "val (r_next nd) \<noteq> NULL"
      using x(1) m that by (auto simp: has_next_def split: if_splits)
    consider "out = Next (RdTest r a)" | "i < idx" "val (r_next nd) \<noteq> NULL" "out = Next (RdStep r a idx i)"
      using assms(4) RdWalk m(4) by (auto simp: at_node_def split: if_splits)
    moreover have "s' = s" using assms(4) RdWalk m(4) by (auto simp: at_node_def split: if_splits)
    ultimately show thesis
    proof cases
      case 1
      then show thesis by (rule nxt [OF \<open>s' = s\<close>]) (use test RdWalk in simp_all)
    next
      case 2
      then show thesis using step by (intro nxt [OF \<open>s' = s\<close>, of "RdStep r a idx i"]) (use RdWalk in simp_all)
    qed
  next
    case (RdStep r a idx i)
    then have x: "idx < k" "i < idx" "has_next s a (unat i)" using assms(3) by auto
    then obtain m where m: "0 < m" "Suc m < length (r_nodes s)" "r_nodes s ! m = a" "length (alive s m) \<le> unat i"
      by (auto simp: has_next_def)
    obtain nd where nd: "rd_heap s a = Some nd" "r_next nd = cell (r_nodes s ! Suc m) 1"
      by (rule rd_node [OF assms(1), of m]) (use m in auto)
    have "unat (i + 1) = Suc (unat i)" by (rule unat_incr [OF x(2)])
    moreover have "i + 1 \<le> idx" using x(2) by (simp add: inc_le)
    ultimately have "rd_assert k s t (Deq Plain) (RdWalk r (r_nodes s ! Suc m) idx (i + 1))"
      using x m alive_Suc [OF m(1), of s] by (auto simp: reach_def intro!: exI [of _ "Suc m"])
    then show thesis using assms(4) RdStep nd
      by (intro nxt [of "RdWalk r (r_nodes s ! Suc m) idx (i + 1)"]) (auto simp: at_node_def)
  next
    case (RdTest r a)
    then obtain j where j: "j < unat k" "reach s a j" using assms(3) by auto
    obtain nd where nd: "rd_heap s a = Some nd" by (rule reach_node [OF assms(1) j(2)])
    then show thesis using assms(3,4) RdTest
      by (intro nxt [of "if r_deleted nd then RdHead r else RdClaim r a"]) (auto simp: at_node_def)
  next
    case (RdClaim r a)
    then obtain j where j: "j < unat k" "reach s a j" using assms(3) by auto
    obtain nd m where m: "0 < m" "m < length (r_nodes s)" "a = r_nodes s ! m" "rd_heap s a = Some nd" "length (alive s m) \<le> j"
      by (rule reach_node [OF assms(1) j(2)])
    show thesis
    proof (cases "r_deleted nd")
      case True
      then show thesis using assms(4) RdClaim m(4) by (intro nxt [of "RdHead r"]) (auto simp: at_node_def)
    next
      case False
      then show thesis using claim [of r a m nd] assms(4) RdClaim m j(1) by (auto simp: at_node_def)
    qed
  next
    case (RdValue a)
    then obtain m where m: "m < length (r_nodes s)" "r_nodes s ! m = a" using assms(3) by auto
    obtain nd where nd: "rd_heap s a = Some nd" "r_value nd = m_item (rd_ms s) a"
      by (rule rd_node [OF assms(1) m(1)]) (use m(2) in auto)
    then have "rd_quiet k s t (Deq Plain) p out" "s' = s" using assms(4) RdValue
      by (auto simp: at_node_def rd_quiet_def)
    then show thesis using q by simp
  qed (use first assms(3) in \<open>auto\<close>)
qed

section \<open>The obligations of the interface\<close>

definition rd_good :: "u64 \<Rightarrow> rdq \<Rightarrow> tid \<Rightarrow> u64 ms_op \<Rightarrow> rd_pc \<Rightarrow> rdq \<Rightarrow> (rd_pc, u64 ms_res) outcome \<Rightarrow> bool" where
  "rd_good k s t op p s' out \<longleftrightarrow> rd_inv k s' \<and> set (r_nodes s') \<subseteq> set (r_nodes s) \<union> rd_own p \<and>
     (\<forall>A B. A \<subseteq> dom (rd_heap s) - rd_own p \<longrightarrow> A \<inter> set (r_nodes s) = {} \<longrightarrow> rd_rely A B s s') \<and>
     (case out of Next p' \<Rightarrow> rd_assert k s' t op p' \<and> rd_own p' \<subseteq> rd_own p \<union> - dom (rd_heap s) \<and>
        rd_own p' \<inter> set (r_nodes s') = {} | Return r \<Rightarrow> True | Fault e \<Rightarrow> False) \<and>
     lin_own (quasi_spec (unat k)) op (rd_abs s) (rd_mark s p) (rd_abs s') (out_mark (rd_mark s') out)"

lemma dom_rd_ms: "dom (m_heap (rd_ms s)) = dom (rd_heap s)"
  by (auto simp: dom_def rd_ms_def)

lemma rd_nodes_dom: "rd_inv k s \<Longrightarrow> set (r_nodes s) \<subseteq> dom (rd_heap s)"
  using layout_dom [OF ms_invD [OF rd_invD(1)], of k s] by (simp add: r_nodes_def dom_rd_ms)

lemma rd_own_dom:
  assumes "rd_assert k s t op p"
  shows "rd_own p \<subseteq> dom (rd_heap s)"
proof (cases p)
  case (RdEnq q)
  then have "ms_pinv (rd_ms s) t op q" using assms by simp
  from ms.pinv_used [OF this] show ?thesis using RdEnq by (simp add: dom_rd_ms)
qed simp_all

lemma rd_good_quiet:
  assumes "rd_inv k s" "rd_call_ok k op" "rd_moved s s'" "rd_quiet k s t op p out" "rd_own p \<inter> set (r_nodes s) = {}"
  shows "rd_good k s t op p s' out"
proof -
  note I = rd_invD [OF assms(1)] and N = rd_nodes_dom [OF assms(1)]
  note M = ms_move_tail [OF I(1), of "rd_ms s'"]
  have tm: "tail_moved (rd_ms s) (rd_ms s')" "rd_quasi_factor s' = k" and
    d: "\<And>a. rd_heap s a \<noteq> None \<Longrightarrow> dead s' a = dead s a" using assms(3) I(2) by (auto simp: rd_moved_def)
  note M = M [OF tm(1)]
  have n: "r_nodes s' = r_nodes s" using M(2) by (simp add: r_nodes_def)
  have it: "m_item (rd_ms s') a = m_item (rd_ms s) a" for a using M(5) by (simp add: m_item_def)
  note C = rd_abs_cong [of s' s, OF n _ it]
  have dn: "dead s' a = dead s a" if "a \<in> set (r_nodes s)" for a using d N that by blast
  have inv: "rd_inv k s'" using M(1,3) tm(2) I(3) C(1) [OF dn] by (simp add: rd_inv_def)
  have rely: "rd_rely A B s s'" if "A \<subseteq> dom (rd_heap s)" for A B
    using that d dn M(2-5) n it by (auto simp: rd_rely_def ms_rely_def)
  note own = rd_own_dom
  have st: "rd_assert k s' t op p' \<and> rd_mark s' p' = rd_mark s p'" if "rd_assert k s t op p'" for p'
    using rd_stable [OF assms(1) rely [OF own [OF that]]] that assms(2) by (simp add: rd_pinv_def)
  have l: "lin_own (quasi_spec (unat k)) op (rd_abs s) (rd_mark s p) (rd_abs s) (out_mark (rd_mark s) out)"
    using assms(4) by (simp add: rd_quiet_def)
  have "out_mark (rd_mark s') out = out_mark (rd_mark s) out"
    using assms(4) st by (cases out) (simp_all add: rd_quiet_def)
  then have lin: "lin_own (quasi_spec (unat k)) op (rd_abs s) (rd_mark s p) (rd_abs s') (out_mark (rd_mark s') out)"
    using l C(2) [OF dn] by simp
  have "\<forall>A B. A \<subseteq> dom (rd_heap s) - rd_own p \<longrightarrow> A \<inter> set (r_nodes s) = {} \<longrightarrow> rd_rely A B s s'"
    by (intro allI impI rely) blast
  moreover have "case out of Next p' \<Rightarrow> rd_assert k s' t op p' \<and> rd_own p' \<subseteq> rd_own p \<union> - dom (rd_heap s) \<and>
      rd_own p' \<inter> set (r_nodes s') = {} | Return r \<Rightarrow> True | Fault e \<Rightarrow> False"
    using assms(4,5) st n by (cases out) (auto simp: rd_quiet_def)
  ultimately show ?thesis unfolding rd_good_def using inv n lin by (intro conjI) simp_all
qed

lemma rd_good_alloc:
  assumes "rd_inv k s" "is_fresh (rd_heap s) n"
    and "s' = put_node s n \<lparr>r_next = cell NULL 0, r_value = x, r_deleted = False\<rparr>"
  shows "rd_good k s t (Enq x) (RdEnq (EnqAlloc x)) s' (Next (RdEnq (EnqTail n)))"
proof -
  note I = rd_invD [OF assms(1)] and N = rd_nodes_dom [OF assms(1)]
  have f: "is_fresh (m_heap (rd_ms s)) n" using assms(2) by simp
  have e: "rd_ms s' = (rd_ms s)\<lparr>m_heap := (m_heap (rd_ms s))(n \<mapsto> node_new x)\<rparr>"
    unfolding assms(3) by (simp add: rd_ms_put plain_def node_new_def)
  note M = ms_move_alloc [OF I(1) f e]
  have n: "r_nodes s' = r_nodes s" using M(2) by (simp add: r_nodes_def)
  have d: "dead s' a = dead s a" if "a \<noteq> n" for a using that assms(3) by (simp add: dead_def put_node_def)
  have it: "m_item (rd_ms s') a = m_item (rd_ms s) a" if "a \<noteq> n" for a using that e by (simp add: m_item_def)
  have nn: "a \<noteq> n" if "a \<in> set (r_nodes s)" for a using that M(6) by (auto simp: r_nodes_def)
  note C = rd_abs_cong [of s' s, OF n d [OF nn] it [OF nn]]
  have nd: "a \<noteq> n" if "a \<in> dom (rd_heap s)" for a using that assms(2) by (auto simp: is_fresh_def)
  have q: "rd_quasi_factor s' = k" using I(2) assms(3) by (simp add: put_node_def)
  have "rd_rely A B s s'" if "A \<subseteq> dom (rd_heap s)" for A B
    using that d nd nn M(2-4) n it e unfolding rd_rely_def ms_rely_def r_nodes_def [symmetric]
    by (auto intro!: exI [of _ "[]"])
  moreover have "unlinked (rd_ms s') n x" unfolding unlinked_def e by simp
  moreover have "\<not> dead s' n" using assms(3) by (simp add: dead_def put_node_def)
  ultimately show ?thesis
    using M n q C I(3) nn assms(2) unfolding rd_good_def rd_inv_def by (auto simp: is_fresh_def)
qed

lemma rd_good_link:
  assumes "rd_inv k s" "unlinked (rd_ms s) m x" "m \<notin> set (r_nodes s)" "Suc (tpos (rd_ms s)) = length (r_nodes s)"
      "m_heap (rd_ms s) (r_nodes s ! tpos (rd_ms s)) = Some nd"
      "rd_ms s' = (rd_ms s)\<lparr>m_heap := (m_heap (rd_ms s))(r_nodes s ! tpos (rd_ms s) \<mapsto> nd\<lparr>m_next := cell m 1\<rparr>)\<rparr>"
    and "\<not> dead s m" "\<And>a. rd_heap s a \<noteq> None \<Longrightarrow> dead s' a = dead s a" "rd_quasi_factor s' = k"
  shows "rd_good k s t (Enq x) (RdEnq (EnqLink m (rd_tail s) (cell NULL 0))) s' (Next (RdEnq (EnqSwing m (rd_tail s))))"
proof -
  note I = rd_invD [OF assms(1)] and N = rd_nodes_dom [OF assms(1)]
  note L = layoutD [OF ms_invD [OF I(1)]]
  note M = ms_move_link [OF I(1) assms(2) assms(3-5) [unfolded r_nodes_def] assms(6) [unfolded r_nodes_def]]
  have n: "r_nodes s' = r_nodes s @ [m]" using M(2) by (simp add: r_nodes_def)
  have dn: "dead s' a = dead s a" if "a \<in> set (r_nodes s)" for a using assms(8) N that by blast
  have "rd_heap s m \<noteq> None" using assms(2) by (auto simp: unlinked_def)
  then have dm: "\<not> dead s' m" using assms(7,8) by simp
  have al: "alive s' i = alive s i" if "i \<le> length (r_nodes s)" for i
  proof -
    have "take i (r_nodes s') = take i (r_nodes s)" using n that by simp
    moreover have "set (tl (take i (r_nodes s))) \<subseteq> set (r_nodes s)" by (metis list.set_sel(2) set_take_subset subset_iff tl_Nil)
    moreover have "filter (\<lambda>a. \<not> dead s' a) xs = filter (\<lambda>a. \<not> dead s a) xs" if "set xs \<subseteq> set (r_nodes s)" for xs
      using that dn by (intro filter_cong) auto
    ultimately show ?thesis unfolding alive_def by simp
  qed
  have pos: "0 < length (r_nodes s)" "Suc (hpos (rd_ms s)) \<le> length (r_nodes s)"
    using assms(4) L(4,5) by (simp_all add: r_nodes_def) (auto simp: Suc_length_conv)
  have "alive s' (length (r_nodes s')) = alive s (length (r_nodes s)) @ [m]"
    using alive_Suc [OF pos(1), of s'] n dm al [of "length (r_nodes s)"] by (simp add: nth_append)
  moreover have "m_item (rd_ms s) m = x" using assms(2) by (auto simp: unlinked_def m_item_def node_new_def)
  ultimately have abs: "rd_abs s' = rd_abs s @ [x]" using M(5) by (simp add: rd_abs_def)
  have inv: "rd_inv k s'" using M(1,3) al [OF pos(2)] I(3) assms(9) by (simp add: rd_inv_def)
  have tn: "r_nodes s ! tpos (rd_ms s) \<in> set (r_nodes s)" using assms(4) by simp
  have rely: "rd_rely A B s s'" if "A \<subseteq> dom (rd_heap s)" "A \<inter> set (r_nodes s) = {}" for A B
  proof -
    have "m_heap (rd_ms s') a = m_heap (rd_ms s) a" if "a \<in> A" for a
      using assms(6) tn \<open>A \<inter> set (r_nodes s) = {}\<close> that by auto
    then show ?thesis using that dn assms(8) M(2-5) by (auto simp: rd_rely_def ms_rely_def)
  qed
  have "was_tail (rd_ms s') (rd_tail s) (tpos (rd_ms s))"
    using was_moved [OF M(2)] M tail_was [OF I(1)] I(1) by simp
  moreover have "linked (rd_ms s') (tpos (rd_ms s)) (cell m 1)"
    using M(2) assms(4) by (simp add: linked_def nth_append r_nodes_def)
  ultimately show ?thesis using inv rely n abs unfolding rd_good_def by (auto intro!: lin_own_point)
qed

lemma rd_good_head:
  assumes "rd_inv k s" "hpos (rd_ms s) < tpos (rd_ms s)" "s' = s\<lparr>rd_head := mword (r_nodes s) (Suc (hpos (rd_ms s)))\<rparr>"
    "a = r_nodes s ! Suc (hpos (rd_ms s))" "dead s a" "\<exists>j. was_tail (rd_ms s) to j \<and> hpos (rd_ms s) < j"
  shows "rd_good k s t (Deq Plain) (RdCleanCas r ho to a) s'
    (Next (if a = val to then RdHead r else RdCleanNext r (mword (r_nodes s) (Suc (hpos (rd_ms s)))) to))"
proof -
  note I = rd_invD [OF assms(1)]
  note L = layoutD [OF ms_invD [OF I(1)]]
  have e: "rd_ms s' = (rd_ms s)\<lparr>m_head := mword (nodes (rd_ms s)) (Suc (hpos (rd_ms s)))\<rparr>"
    using assms(3) by (simp add: rd_ms_def r_nodes_def)
  note M = ms_move_head [OF I(1) assms(2) e]
  have n: "r_nodes s' = r_nodes s" using M(2) by (simp add: r_nodes_def)
  have d: "dead s' b = dead s b" for b using assms(3) by (simp add: dead_def)
  have it: "m_item (rd_ms s') b = m_item (rd_ms s) b" for b using M(5) by (simp add: m_item_def)
  note C = rd_abs_cong [of s' s, OF n d it]
  have len: "Suc (hpos (rd_ms s)) < length (r_nodes s)" using assms(2) L(5) by (simp add: r_nodes_def)
  have "alive s (Suc (Suc (hpos (rd_ms s)))) = []"
    using alive_Suc [OF _ len] assms(4,5) I(3) by simp
  then have inv: "rd_inv k s'" using M(1,3) I(2) C(1) assms(3) by (simp add: rd_inv_def)
  have rely: "rd_rely A B s s'" for A B using d M(2-5) n it by (simp add: rd_rely_def ms_rely_def)
  have "rd_assert k s' t (Deq Plain) (RdCleanNext r (mword (r_nodes s) (Suc (hpos (rd_ms s)))) to)" if "a \<noteq> val to"
  proof -
    obtain j where j: "was_tail (rd_ms s) to j" "hpos (rd_ms s) < j" using assms(6) by blast
    have "Suc (hpos (rd_ms s)) \<noteq> j" using was_positions(3) [OF I(1) j(1)] that assms(4) by (auto simp: r_nodes_def)
    moreover have "was_head (rd_ms s') (mword (r_nodes s) (Suc (hpos (rd_ms s)))) (Suc (hpos (rd_ms s)))"
      using M(2,3) by (simp add: was_head_def r_nodes_def)
    moreover have "was_tail (rd_ms s') to j" using j(1) M(2,4) by (simp add: was_tail_def)
    moreover have "Suc (hpos (rd_ms s)) < j" using calculation(1) j(2) by simp
    ultimately show ?thesis by auto
  qed
  then show ?thesis using inv rely n C(2) unfolding rd_good_def by auto
qed

text \<open>Claiming a node takes its item out of the queue, at one of its first k positions.\<close>

lemma rd_good_claim:
  assumes "rd_inv k s" "0 < m" "m < length (r_nodes s)" "a = r_nodes s ! m" "length (alive s m) < unat k"
    "rd_heap s a = Some nd" "\<not> r_deleted nd" "s' = put_node s a (nd\<lparr>r_deleted := True\<rparr>)"
  shows "rd_good k s t (Deq Plain) (RdClaim r a) s' (Next (RdValue a))"
proof -
  note I = rd_invD [OF assms(1)]
  note L = layoutD [OF ms_invD [OF I(1)]]
  have e: "rd_ms s' = rd_ms s"
    using assms(6,8) by (simp add: rd_ms_def put_node_def plain_def fun_eq_iff)
  have n: "r_nodes s' = r_nodes s" by (simp add: r_nodes_def e)
  have d: "dead s' b \<longleftrightarrow> dead s b \<or> b = a" for b using assms(6,8) by (auto simp: dead_def put_node_def)
  have na: "\<not> dead s a" using assms(6,7) by (simp add: dead_def)
  obtain x0 xs where xs: "r_nodes s = x0 # xs" using assms(3) by (cases "r_nodes s") auto
  let ?as = "take (m - 1) xs" and ?bs = "drop m xs"
  have "xs = ?as @ a # ?bs" using assms(2-4) xs id_take_nth_drop [of "m - 1" xs] by (cases m) simp_all
  then have split: "tl (r_nodes s) = ?as @ a # ?bs" using xs by simp
  have dist: "distinct (?as @ a # ?bs)" using L(9) split xs unfolding r_nodes_def by (metis distinct_tl)
  have tk: "tl (take m (r_nodes s)) = ?as" using assms(2) xs by (cases m) simp_all
  let ?f = "filter (\<lambda>b. \<not> dead s b)"
  have am: "alive s m = ?f ?as" by (simp add: alive_def tk)
  have al: "alive s (length (r_nodes s)) = ?f ?as @ a # ?f ?bs" using split na by (simp add: alive_def)
  have "filter (\<lambda>b. \<not> dead s' b) ys = ?f ys" if "a \<notin> set ys" for ys
    using that d by (intro filter_cong) auto
  then have al': "alive s' (length (r_nodes s')) = ?f ?as @ ?f ?bs" using split dist n d by (simp add: alive_def)
  let ?i = "length (alive s m)"
  have abs: "rd_abs s = map (m_item (rd_ms s)) (?f ?as) @ m_item (rd_ms s) a # map (m_item (rd_ms s)) (?f ?bs)"
    "rd_abs s' = map (m_item (rd_ms s)) (?f ?as) @ map (m_item (rd_ms s)) (?f ?bs)"
    using al al' by (simp_all add: rd_abs_def e)
  have "?i < length (rd_abs s)" "rd_abs s ! ?i = m_item (rd_ms s) a" "rd_abs s' = remove_at ?i (rd_abs s)"
    using abs am by (simp_all add: nth_append remove_at_def)
  then have spec: "quasi_spec (unat k) (rd_abs s) (Deq Plain) (Dequeued (Some (m_item (rd_ms s) a))) (rd_abs s')"
    using assms(5) by auto
  have "alive s' (Suc (hpos (rd_ms s))) = []"
    using I(3) d n by (auto simp: alive_def filter_empty_conv)
  then have inv: "rd_inv k s'" using I(1,2) e assms(8) by (simp add: rd_inv_def put_node_def)
  have "a \<in> set (r_nodes s)" using assms(3,4) by simp
  then have rely: "rd_rely A B s s'" if "A \<inter> set (r_nodes s) = {}" for A B
    using that d by (auto simp: rd_rely_def ms_rely_def e)
  have "\<exists>i < length (r_nodes s'). r_nodes s' ! i = a" using assms(3,4) n by auto
  moreover have "lin_own (quasi_spec (unat k)) (Deq Plain) (rd_abs s) Pend (rd_abs s') (Fixed (Dequeued (Some (m_item (rd_ms s) a))))"
    by (rule lin_own_point) (simp_all only: spec open_mark.simps)
  ultimately show ?thesis using inv rely n unfolding rd_good_def by (simp add: e)
qed

lemma rd_entry_good:
  assumes "rd_inv k s" "rd_call_ok k (Enq x)"
  shows "rd_good k s t (Enq x) (RdEntry x) s (Next (RdEnq (EnqAlloc x)))"
  by (rule rd_good_quiet) (use assms in \<open>auto intro!: rd_quiet_next\<close>)

lemma rd_good_enqueue:
  assumes "rd_inv k s" "rd_call_ok k (Enq x)" "rd_assert k s t (Enq x) (RdEnq p)" "ms_own p \<inter> set (r_nodes s) = {}"
    and "rd_enqueue n s p = (s', out)"
  shows "rd_good k s t (Enq x) (RdEnq p) s' out"
  using assms(1,3,4,5)
proof (cases rule: rd_enq_cases)
  case quiet
  then show ?thesis using assms by (intro rd_good_quiet) simp_all
next
  case (alloc y)
  then have "y = x" using assms(3) by simp
  then show ?thesis using rd_good_alloc [OF assms(1) alloc(1,4)] alloc(2,3) by simp
next
  case (link m nd)
  have "\<not> dead s m" using assms(3) link(6) by simp
  moreover have "dead s' a = dead s a" if "rd_heap s a \<noteq> None" for a
    using rd_enqueue_dead [OF that, of n p] assms(5) by simp
  moreover have "rd_quasi_factor s' = k"
    using rd_enqueue_factor [of n s p] assms(5) rd_invD(2) [OF assms(1)] by simp
  ultimately show ?thesis using rd_good_link [OF assms(1) link(1-5)] unfolding link(6,7) by blast
qed

lemma rd_good_dequeue:
  assumes "rd_inv k s" "rd_call_ok k (Deq Plain)" "rd_assert k s t (Deq Plain) p" "rd_dequeue n s p = (s', out)" "rd_own p = {}"
  shows "rd_good k s t (Deq Plain) p s' out"
proof -
  have k: "k \<noteq> 0" using assms(2) by simp
  from assms(1) k assms(3,4) show ?thesis
  proof (cases rule: rd_deq_cases)
    case quiet
    then show ?thesis using assms by (intro rd_good_quiet) simp_all
  next
    case (head r to a)
    show ?thesis using rd_good_head [OF assms(1) head(2-6)] unfolding head(1,7) .
  next
    case (claim r a nd m)
    show ?thesis using rd_good_claim [OF assms(1) claim(2-8)] unfolding claim(1,9) .
  qed
qed

lemma rd_step_good:
  assumes "rd_inv k s" "rd_pinv k s t op p" "rd_own p \<inter> set (r_nodes s) = {}" "rd_body t n s p = (s', out)"
  shows "rd_good k s t op p s' out"
proof -
  have ok: "rd_call_ok k op" and a: "rd_assert k s t op p" using assms(2) by (simp_all add: rd_pinv_def)
  show ?thesis
  proof (cases p)
    case (RdEntry x)
    then show ?thesis using rd_entry_good [OF assms(1)] ok a assms(4) by auto
  next
    case (RdEnq q)
    then obtain x where "op = Enq x" using a by auto
    then show ?thesis using rd_good_enqueue [OF assms(1), of x t q n s' out] ok a assms(3,4) RdEnq by simp
  qed (use rd_good_dequeue [OF assms(1) _ _ _, of t p n s' out] ok a assms(4) in auto)
qed

lemma rd_ms_init: "rd_ms (rd_init junk k r) = ms_init"
  by (auto simp: rd_ms_def rd_init_def ms_init_def node_new_def plain_def fun_eq_iff)

lemmas ms_init_nodes = layoutD(10,11) [OF ms_init_layout]

lemma rd_init_inv: "rd_inv k (rd_init junk k r)"
  using layout_inv [OF ms_init_layout]
  by (simp add: rd_inv_def rd_ms_init alive_def r_nodes_def ms_init_nodes) (simp add: rd_init_def)

lemma rd_init_abs: "rd_abs (rd_init junk k r) = []"
  by (simp add: rd_abs_def rd_ms_init alive_def r_nodes_def ms_init_nodes)

interpretation rd: lf_object rd_prog "rd_init junk k r" "\<lambda>_. rd_call_ok k" "rd_inv k" "rd_pinv k"
    "\<lambda>s. dom (rd_heap s)" "\<lambda>s. set (r_nodes s)" "\<lambda>_. {}" rd_own "\<lambda>_. {}" rd_rely "\<lambda>_ _. True"
    rd_abs "quasi_spec (unat k)" rd_mark for k junk r
proof (unfold_locales, goal_cases)
  case 1 show ?case by (rule rd_init_inv)
next
  case (2 s t op) then show ?case by (cases op) (auto simp: rd_pinv_def)
next
  case (3 op) then show ?case by (cases op) simp_all
next
  case (6 s t op p) then show ?case using rd_own_dom [of k s t op p] by (simp add: rd_pinv_def)
next
  case (7 s) then show ?case by (rule rd_nodes_dom)
next
  case (8 s t op p n s' out) then show ?case using rd_step_good [of k s t op p n s' out] by (auto simp: rd_good_def)
next
  case (9 s t op p n s' p')
  then have "rd_good k s t op p s' (Next p')" using rd_step_good [of k s t op p n s' "Next p'"] by simp
  then show ?case using 9(2) by (simp add: rd_good_def rd_pinv_def)
next
  case (10 s t op p n s' e)
  then show ?case using rd_step_good [of k s t op p n s' "Fault e"] by (auto simp: rd_good_def)
next
  case (11 s t op p n s' out A u B)
  then have "rd_good k s t op p s' out" using rd_step_good [of k s t op p n s' out] by simp
  then show ?case using 11 by (simp add: rd_good_def)
next
  case 12 then show ?case using rd_stable(1) [OF 12(1) _ 12(4)] by simp
next
  case (16 s op) then show ?case by (cases op) simp_all
next
  case (17 s t op p n s' out)
  then have "rd_good k s t op p s' out" using rd_step_good [of k s t op p n s' out] by simp
  then show ?case by (simp add: rd_good_def)
next
  case 18 then show ?case using rd_stable(2) [OF 18(1) _ 18(4)] by simp
qed simp_all

section \<open>Properties\<close>

abbreviation rd_calls :: "u64 \<Rightarrow> u64 ms_op sched \<Rightarrow> bool" where
  "rd_calls k es \<equiv> list_all (valid_call (\<lambda>_. rd_call_ok k)) es"

abbreviation rd_run :: "u64 \<Rightarrow> u64 \<Rightarrow> u64 ms_op sched \<Rightarrow> (rdq, u64 ms_op, u64 ms_res, rd_pc) config" where
  "rd_run junk k es \<equiv> exec rd_prog es (init (rd_init junk k 0))"

text \<open>
  C34: whatever the interleaving and the random numbers, the random dequeue queue is
  linearizable to a queue whose dequeue takes one of the first quasi_factor items, and finds
  nothing only when the queue is empty; no thread follows a null or dangling pointer. It does
  not matter which value max_retries_, which the constructor leaves uninitialized, happens to
  have.
\<close>

theorem random_dequeue_quasi_linearizable:
  assumes "rd_calls k es"
  shows "linearizable_to (quasi_spec (unat k)) [] (history rd_prog es (init (rd_init junk k 0)))
      (rd_abs (shared (rd_run junk k es))) \<and>
    (\<forall>t op e. threads (rd_run junk k es) t \<noteq> Dead op e)"
  using rd.linearizable_exec [OF assms, of junk 0] rd.og_no_fault [OF assms] by (simp add: rd_init_abs)

definition rd_overtake :: "u64 ms_op sched" where
  "rd_overtake = (0, Call (Enq 5)) # replicate 8 (0, Go 2) @ [(0, Leave), (0, Call (Enq 6))] @ replicate 8 (0, Go 3) @
     [(0, Leave), (0, Call (Deq Plain))] @ replicate 12 (0, Go 1) @ [(0, Leave)]"

theorem random_dequeue_quasi_linearizable_witness:
  "linearizable_to (quasi_spec 2) [] (history rd_prog rd_overtake (init (rd_init 9 2 0)))
     (rd_abs (shared (rd_run 9 2 rd_overtake))) \<and>
   history rd_prog rd_overtake (init (rd_init 9 2 0)) =
     [Inv 0 (Enq 5), Ret 0 (Enq 5) (Enqueued True), Inv 0 (Enq 6), Ret 0 (Enq 6) (Enqueued True),
      Inv 0 (Deq Plain), Ret 0 (Deq Plain) (Dequeued (Some 6))]"
proof
  have "rd_calls 2 rd_overtake" by code_simp
  from random_dequeue_quasi_linearizable [OF this, of 9]
  show "linearizable_to (quasi_spec 2) [] (history rd_prog rd_overtake (init (rd_init 9 2 0)))
     (rd_abs (shared (rd_run 9 2 rd_overtake)))" by simp
qed code_simp

end
