(* ===== verification/Distributed_Queue.thy ===== *)
theory Distributed_Queue
  imports MS_Queue Treiber_Stack
begin

text \<open>
  The distributed queue, src/src/datastructures/distributed_queue.h, over partial queues behind
  the interface of distributed_queue_interface.h, with the balancers balancer_1random.h,
  balancer_id.h and balancer_partrr.h that choose the partial queue to start with. The partial
  queues are any program of the theory Concurrency; MSQueue and TreiberStack, which the
  benchmarks use, are put in at the end. One step is one step of the balancer or of the partial
  queue at work.
\<close>

section \<open>Balancers\<close>

text \<open>
  The three classes behind BalancerInterface. The partitioned round robin keeps num_queues_,
  partitions_ and a counter per partition for enqueue and one for dequeue.
\<close>

datatype balancer = OneRandom bool | ById | PartRR u64 u64 "u64 list" "u64 list"

definition partrr_new :: "u64 \<Rightarrow> u64 \<Rightarrow> balancer" where
  "partrr_new partitions num_queues =
     (let rrs = map (\<lambda>i. (num_queues div partitions) * of_nat i) [0..<unat partitions]
      in PartRR num_queues partitions rrs rrs)"

text \<open>Both random number generators are answered by the schedule, here the argument r.\<close>

definition random_get :: "bool \<Rightarrow> nat \<Rightarrow> u64 \<Rightarrow> fault + u64" where
  "random_get use_hw_random r num_queues =
     (if num_queues = 1 then Inr 0
      else if num_queues = 0 then Inl (Undefined ''mod'')
      else Inr (of_nat r mod num_queues))"

definition id_get :: "tid \<Rightarrow> u64 \<Rightarrow> fault + u64" where
  "id_get thread_id num_queues =
     (if num_queues = 1 then Inr 0
      else if num_queues = 0 then Inl (Undefined ''mod'')
      else Inr (of_nat thread_id mod num_queues))"

definition fetch_and_add :: "u64 list \<Rightarrow> u64 \<Rightarrow> u64 \<Rightarrow> fault + u64 list \<times> u64" where
  "fetch_and_add rrs i num_queues =
     (if length rrs \<le> unat i then Inl Wild_Deref
      else if num_queues = 0 then Inl (Undefined ''mod'')
      else Inr (rrs[unat i := rrs ! unat i + 1], rrs ! unat i mod num_queues))"

fun bal_get :: "tid \<Rightarrow> nat \<Rightarrow> balancer \<Rightarrow> u64 \<Rightarrow> bool \<Rightarrow> fault + balancer \<times> u64" where
  "bal_get t r (OneRandom hw) num_queues enqueue = map_sum id (Pair (OneRandom hw)) (random_get hw r num_queues)"
| "bal_get t r ById num_queues enqueue = map_sum id (Pair ById) (id_get t num_queues)"
| "bal_get t r (PartRR m partitions enqs deqs) num_queues enqueue =
     (if partitions = 0 then Inl (Undefined ''mod'')
      else if enqueue then map_sum id (\<lambda>(rrs, x). (PartRR m partitions rrs deqs, x))
        (fetch_and_add enqs (of_nat t mod partitions) num_queues)
      else map_sum id (\<lambda>(rrs, x). (PartRR m partitions enqs rrs, x))
        (fetch_and_add deqs (of_nat t mod partitions) num_queues))"

fun bal_wf :: "balancer \<Rightarrow> bool" where
  "bal_wf (PartRR m partitions enqs deqs) \<longleftrightarrow> partitions \<noteq> 0 \<and> length enqs = unat partitions \<and> length deqs = unat partitions"
| "bal_wf b \<longleftrightarrow> True"

lemma fetch_and_add_ok:
  assumes "length rrs = unat p" "p \<noteq> 0" "n \<noteq> 0"
  obtains rrs' x where "fetch_and_add rrs (of_nat t mod p) n = Inr (rrs', x)" "length rrs' = unat p" "x < n"
proof -
  have "unat (of_nat t mod p :: u64) < length rrs"
    using assms(1) index_less [OF assms(2), of "of_nat t"] by (simp add: word_less_nat_alt)
  then show thesis using that assms index_less [OF assms(3)] by (simp add: fetch_and_add_def)
qed

lemma bal_get_ok:
  assumes "bal_wf b" "n \<noteq> 0"
  obtains b' x where "bal_get t r b n e = Inr (b', x)" "bal_wf b'" "x < n"
proof (cases b)
  case (PartRR m p es ds)
  then have w: "length es = unat p" "length ds = unat p" "p \<noteq> 0" using assms(1) by simp_all
  show thesis
  proof (cases e)
    case True
    show thesis by (rule fetch_and_add_ok [OF w(1,3) assms(2), of t]) (use that PartRR True w in auto)
  next
    case False
    show thesis by (rule fetch_and_add_ok [OF w(2,3) assms(2), of t]) (use that PartRR False w in auto)
  qed
next
  case (OneRandom hw)
  then show thesis using that [of b "if n = 1 then 0 else of_nat r mod n"] assms(2) index_less [OF assms(2), of "of_nat r"]
    by (simp add: random_get_def split: if_splits)
next
  case ById
  then show thesis using that [of b "if n = 1 then 0 else of_nat t mod n"] assms(2) index_less [OF assms(2), of "of_nat t"]
    by (simp add: id_get_def split: if_splits)
qed

section \<open>State and methods\<close>

text \<open>
  What the queue asks of the class P of its partial queues: put, get_return_empty_state and
  empty_state, and how to read their results.
\<close>

record ('b, 'op, 'r, 'p, 'a, 'w) partial_class =
  pq_prog :: "('b, 'op, 'r, 'p) prog"
  pq_put :: "'a \<Rightarrow> 'op"
  pq_get :: 'op
  pq_state :: 'op
  pq_ok :: "'r \<Rightarrow> bool"
  pq_item :: "'r \<Rightarrow> 'a option"
  pq_word :: "'r \<Rightarrow> 'w"

record ('b, 'w) dq =
  dq_backend :: "'b list"
  dq_num_queues :: u64
  dq_balancer :: balancer
  dq_tails :: "'w list list"

definition dq_new :: "'b \<Rightarrow> 'w \<Rightarrow> u64 \<Rightarrow> nat \<Rightarrow> balancer \<Rightarrow> ('b, 'w) dq" where
  "dq_new b w num_queues num_threads balancer = \<lparr>dq_backend = replicate (unat num_queues) b,
     dq_num_queues = num_queues, dq_balancer = balancer,
     dq_tails = replicate num_threads (replicate (unat num_queues) w)\<rparr>"

datatype 'a pool_op = PoolPut 'a | PoolGet

datatype 'a pool_res = PutRes bool | GetRes "'a option"

datatype ('a, 'p) dq_pc =
    PutBalance 'a
  | PutRun 'a u64 'p
  | GetBalance
  | GetLoop u64 u64
  | GetRun u64 u64 u64 'p
  | ScanLoop u64 u64
  | ScanRun u64 u64 u64 'p

type_synonym ('b, 'w, 'a, 'p) dq_out = "('b, 'w) dq \<times> (('a, 'p) dq_pc, 'a pool_res) outcome"

definition dq_balance :: "tid \<Rightarrow> nat \<Rightarrow> ('b, 'w) dq \<Rightarrow> bool \<Rightarrow> (u64 \<Rightarrow> ('a, 'p) dq_pc) \<Rightarrow> ('b, 'w, 'a, 'p) dq_out" where
  "dq_balance t n S enqueue f = (case bal_get t n (dq_balancer S) (dq_num_queues S) enqueue of
     Inl e \<Rightarrow> (S, Fault e)
   | Inr (b, index) \<Rightarrow> (S\<lparr>dq_balancer := b\<rparr>, Next (f index)))"

text \<open>One step of a method of the partial queue at an index.\<close>

definition dq_run :: "('b, 'op, 'r, 'p, 'a, 'w) partial_class \<Rightarrow> tid \<Rightarrow> nat \<Rightarrow> ('b, 'w) dq \<Rightarrow> u64 \<Rightarrow> 'p
    \<Rightarrow> ('p \<Rightarrow> ('a, 'p) dq_pc) \<Rightarrow> (('b, 'w) dq \<Rightarrow> 'r \<Rightarrow> ('b, 'w, 'a, 'p) dq_out) \<Rightarrow> ('b, 'w, 'a, 'p) dq_out" where
  "dq_run Q t n S index p f g = (if length (dq_backend S) \<le> unat index then (S, Fault Wild_Deref)
     else let (b, out) = body (pq_prog Q) t n (dq_backend S ! unat index) p;
       S' = S\<lparr>dq_backend := (dq_backend S)[unat index := b]\<rparr>
     in case out of Next p' \<Rightarrow> (S', Next (f p')) | Return r \<Rightarrow> g S' r | Fault e \<Rightarrow> (S', Fault e))"

text \<open>The word of the thread for a partial queue, tails_[thread_id][index].\<close>

definition tail_word :: "('b, 'w) dq \<Rightarrow> tid \<Rightarrow> u64 \<Rightarrow> 'w option" where
  "tail_word S t index = (if t < length (dq_tails S) \<and> unat index < length (dq_tails S ! t)
     then Some (dq_tails S ! t ! unat index) else None)"

definition set_tail_word :: "('b, 'w) dq \<Rightarrow> tid \<Rightarrow> u64 \<Rightarrow> 'w \<Rightarrow> ('b, 'w) dq" where
  "set_tail_word S t index w = S\<lparr>dq_tails := (dq_tails S)[t := (dq_tails S ! t)[unat index := w]]\<rparr>"

fun dq_put :: "('b, 'op, 'r, 'p, 'a, 'w) partial_class \<Rightarrow> tid \<Rightarrow> nat \<Rightarrow> ('b, 'w) dq \<Rightarrow> ('a, 'p) dq_pc
    \<Rightarrow> ('b, 'w, 'a, 'p) dq_out" where
  "dq_put Q t n S (PutBalance item) =
     dq_balance t n S True (\<lambda>index. PutRun item index (start (pq_prog Q) (pq_put Q item)))"
| "dq_put Q t n S (PutRun item index p) =
     dq_run Q t n S index p (PutRun item index) (\<lambda>S' r. (S', Return (PutRes (pq_ok Q r))))"
| "dq_put Q t n S p = (S, Fault (Undefined ''put''))"

fun dq_get :: "('b, 'op, 'r, 'p, 'a, 'w) partial_class \<Rightarrow> tid \<Rightarrow> nat \<Rightarrow> ('b, 'w) dq \<Rightarrow> ('a, 'p) dq_pc
    \<Rightarrow> ('b, 'w, 'a, 'p) dq_out" where
  "dq_get Q t n S GetBalance = dq_balance t n S False (\<lambda>start. GetLoop start 0)"
| "dq_get Q t n S (GetLoop first i) = (S, Next (if i < dq_num_queues S
     then GetRun first i ((first + i) mod dq_num_queues S) (start (pq_prog Q) (pq_get Q))
     else ScanLoop first 0))"
| "dq_get Q t n S (GetRun first i index p) =
     dq_run Q t n S index p (GetRun first i index) (\<lambda>S' r. case tail_word S' t index of
         None \<Rightarrow> (S', Fault Wild_Deref)
       | Some _ \<Rightarrow> (set_tail_word S' t index (pq_word Q r), case pq_item Q r of
             Some item \<Rightarrow> Return (GetRes (Some item)) | None \<Rightarrow> Next (GetLoop first (i + 1))))"
| "dq_get Q t n S (ScanLoop first i) = (S, Next (if i < dq_num_queues S
     then ScanRun first i ((first + i) mod dq_num_queues S) (start (pq_prog Q) (pq_state Q))
     else GetLoop first 0))"
| "dq_get Q t n S (ScanRun first i index p) =
     dq_run Q t n S index p (ScanRun first i index) (\<lambda>S' r. (S', case tail_word S' t index of
         None \<Rightarrow> Fault Wild_Deref
       | Some w \<Rightarrow> if pq_word Q r \<noteq> w then Next (GetLoop index 0)
           else if (index + 1) mod dq_num_queues S' = first then Return (GetRes None)
           else Next (ScanLoop first (i + 1))))"
| "dq_get Q t n S p = (S, Fault (Undefined ''get''))"

fun dq_body :: "('b, 'op, 'r, 'p, 'a, 'w) partial_class \<Rightarrow> tid \<Rightarrow> nat \<Rightarrow> ('b, 'w) dq \<Rightarrow> ('a, 'p) dq_pc
    \<Rightarrow> ('b, 'w, 'a, 'p) dq_out" where
  "dq_body Q t n S (PutBalance item) = dq_put Q t n S (PutBalance item)"
| "dq_body Q t n S (PutRun item index p) = dq_put Q t n S (PutRun item index p)"
| "dq_body Q t n S p = dq_get Q t n S p"

fun dq_start :: "'a pool_op \<Rightarrow> ('a, 'p) dq_pc" where
  "dq_start (PoolPut item) = PutBalance item"
| "dq_start PoolGet = GetBalance"

definition dq_prog :: "('b, 'op, 'r, 'p, 'a, 'w) partial_class
    \<Rightarrow> (('b, 'w) dq, 'a pool_op, 'a pool_res, ('a, 'p) dq_pc) prog" where
  "dq_prog Q = \<lparr>start = dq_start, body = dq_body Q\<rparr>"

lemma dq_prog_simps [simp]: "start (dq_prog Q) = dq_start" "body (dq_prog Q) = dq_body Q"
  by (simp_all add: dq_prog_def)

section \<open>The array of partial queues\<close>

text \<open>The method of a partial queue that a program counter is in: index, operation, counter there.\<close>

fun running :: "('b, 'op, 'r, 'p, 'a, 'w) partial_class \<Rightarrow> ('a, 'p) dq_pc \<Rightarrow> (u64 \<times> 'op \<times> 'p) option" where
  "running Q (PutRun x i q) = Some (i, pq_put Q x, q)"
| "running Q (GetRun h j i q) = Some (i, pq_get Q, q)"
| "running Q (ScanRun h j i q) = Some (i, pq_state Q, q)"
| "running Q p = None"

fun dq_at :: "u64 \<Rightarrow> 'a pool_op \<Rightarrow> ('a, 'p) dq_pc \<Rightarrow> bool" where
  "dq_at N op (PutBalance x) \<longleftrightarrow> op = PoolPut x"
| "dq_at N op (PutRun x i q) \<longleftrightarrow> op = PoolPut x"
| "dq_at N op GetBalance \<longleftrightarrow> op = PoolGet"
| "dq_at N op (GetLoop h i) \<longleftrightarrow> op = PoolGet \<and> h < N"
| "dq_at N op (GetRun h j i q) \<longleftrightarrow> op = PoolGet \<and> h < N"
| "dq_at N op (ScanLoop h i) \<longleftrightarrow> op = PoolGet \<and> h < N"
| "dq_at N op (ScanRun h j i q) \<longleftrightarrow> op = PoolGet \<and> h < N"

definition dq_call_ok :: "u64 \<Rightarrow> nat \<Rightarrow> balancer \<Rightarrow> tid \<Rightarrow> bool" where
  "dq_call_ok N T balancer t \<longleftrightarrow> t < T \<and> N \<noteq> 0 \<and> bal_wf balancer"

definition dq_frame :: "u64 \<Rightarrow> nat \<Rightarrow> balancer \<Rightarrow> ('b, 'w) dq \<Rightarrow> bool" where
  "dq_frame N T balancer S \<longleftrightarrow> dq_num_queues S = N \<and> length (dq_backend S) = unat N \<and>
     (bal_wf balancer \<longrightarrow> bal_wf (dq_balancer S)) \<and>
     length (dq_tails S) = T \<and> (\<forall>ws \<in> set (dq_tails S). length ws = unat N)"

fun pool_put :: "'a pool_op \<Rightarrow> 'a option" where
  "pool_put (PoolPut x) = Some x"
| "pool_put PoolGet = None"

fun pool_stored :: "'a pool_op \<Rightarrow> 'a pool_res \<Rightarrow> 'a option" where
  "pool_stored op (PutRes b) = (if b then pool_put op else None)"
| "pool_stored op r = None"

fun pool_got :: "'a pool_op \<Rightarrow> 'a pool_res \<Rightarrow> 'a option" where
  "pool_got op (GetRes x) = x"
| "pool_got op r = None"

lemma sum_list_upd:
  fixes f :: "'b \<Rightarrow> 'm multiset"
  shows "i < length xs \<Longrightarrow> sum_list (map f (xs[i := b])) + f (xs ! i) = sum_list (map f xs) + f b"
  by (induction xs arbitrary: i) (auto simp: nth_Cons' list_update_code ac_simps split: nat.split)

lemma sum_list_none: "sum_list (replicate n ({#} :: 'm multiset)) = {#}"
  by (induction n) simp_all

locale distributed = item_pool B b0 ok sinv pinv used common "\<lambda>_. {}" own seen rely "\<lambda>_ _. True"
    items put stored got inserted taken
  for B :: "('b, 'op, 'r, 'p) prog" and b0 ok sinv pinv and used :: "'b \<Rightarrow> 'x set" and common own seen rely
    and items :: "'b \<Rightarrow> 'a multiset" and put stored got inserted taken +
  fixes Q :: "('b, 'op, 'r, 'p, 'a, 'w) partial_class"
    and N :: u64 and T :: nat and w0 :: 'w and balancer :: balancer
  assumes class_prog: "pq_prog Q = B"
    and class_ok: "ok t (pq_put Q x) \<and> ok t (pq_get Q) \<and> ok t (pq_state Q)"
    and class_put: "put (pq_put Q x) = Some x \<and> put (pq_get Q) = None \<and> put (pq_state Q) = None"
    and class_stored: "stored (pq_put Q x) r = (if pq_ok Q r then Some x else None) \<and> got (pq_put Q x) r = None"
    and class_got: "got (pq_get Q) r = pq_item Q r \<and> got (pq_state Q) r = None"
begin

lemma get_stored: "stored (pq_get Q) r = None" "stored (pq_state Q) r = None"
  using stored_put [of "pq_get Q" r] stored_put [of "pq_state Q" r] class_put
  by (cases "stored (pq_get Q) r"; simp; cases "stored (pq_state Q) r"; simp)+

definition dq_sinv :: "('b, 'w) dq \<Rightarrow> bool" where
  "dq_sinv S \<longleftrightarrow> dq_frame N T balancer S \<and> (\<forall>b \<in> set (dq_backend S). sinv b)"

definition at_run :: "('b, 'w) dq \<Rightarrow> tid \<Rightarrow> u64 \<Rightarrow> 'op \<Rightarrow> 'p \<Rightarrow> bool" where
  "at_run S t i bop q \<longleftrightarrow> unat i < length (dq_backend S) \<and> pinv (dq_backend S ! unat i) t bop q"

definition dq_pinv :: "('b, 'w) dq \<Rightarrow> tid \<Rightarrow> 'a pool_op \<Rightarrow> ('a, 'p) dq_pc \<Rightarrow> bool" where
  "dq_pinv S t op p \<longleftrightarrow> dq_call_ok N T balancer t \<and> dq_at N op p \<and>
     (case running Q p of None \<Rightarrow> True | Some (i, bop, q) \<Rightarrow> at_run S t i bop q)"

definition in_part :: "(u64 \<times> 'op \<times> 'p) option \<Rightarrow> ('p \<Rightarrow> 'x set) \<Rightarrow> (nat \<times> 'x) set" where
  "in_part o' f = (case o' of None \<Rightarrow> {} | Some (i, bop, q) \<Rightarrow> Pair (unat i) ` f q)"

definition dq_own :: "('a, 'p) dq_pc \<Rightarrow> (nat \<times> 'x) set" where
  "dq_own p = in_part (running Q p) own"

definition dq_seen :: "('a, 'p) dq_pc \<Rightarrow> (nat \<times> 'x) set" where
  "dq_seen p = in_part (running Q p) seen"

definition in_all :: "('b \<Rightarrow> 'x set) \<Rightarrow> ('b, 'w) dq \<Rightarrow> (nat \<times> 'x) set" where
  "in_all f S = {(i, x). i < length (dq_backend S) \<and> x \<in> f (dq_backend S ! i)}"

definition dq_rely :: "(nat \<times> 'x) set \<Rightarrow> (nat \<times> 'x) set \<Rightarrow> ('b, 'w) dq \<Rightarrow> ('b, 'w) dq \<Rightarrow> bool" where
  "dq_rely C D S S' \<longleftrightarrow> length (dq_backend S') = length (dq_backend S) \<and>
     (\<forall>i < length (dq_backend S). dq_backend S' ! i = dq_backend S ! i \<or>
        rely {x. (i, x) \<in> C} {x. (i, x) \<in> D} (dq_backend S ! i) (dq_backend S' ! i))"

definition dq_items :: "('b, 'w) dq \<Rightarrow> 'a multiset" where
  "dq_items S = sum_list (map items (dq_backend S))"

definition run_item :: "('b \<Rightarrow> 'op \<Rightarrow> 'p \<Rightarrow> 'a option) \<Rightarrow> ('b, 'w) dq \<Rightarrow> 'a pool_op \<Rightarrow> ('a, 'p) dq_pc \<Rightarrow> 'a option" where
  "run_item f S op p = (case running Q p of None \<Rightarrow> None | Some (i, bop, q) \<Rightarrow> f (dq_backend S ! unat i) bop q)"

lemma in_part_simps [simp]: "in_part None f = {}" "in_part (Some (i, bop, q)) f = Pair (unat i) ` f q"
  by (simp_all add: in_part_def)

lemma dq_nth: "dq_sinv S \<Longrightarrow> i < length (dq_backend S) \<Longrightarrow> sinv (dq_backend S ! i)"
  by (simp add: dq_sinv_def)

lemma index_in: "dq_sinv S \<Longrightarrow> i < N \<Longrightarrow> unat i < length (dq_backend S)"
  by (simp add: dq_sinv_def dq_frame_def word_less_nat_alt)

lemma start_run:
  assumes "dq_sinv S" "i < N" "bop = pq_put Q x \<or> bop = pq_get Q \<or> bop = pq_state Q"
  shows "at_run S t i bop (start B bop)" "own (start B bop) = {}" "seen (start B bop) = {}"
proof -
  have "ok t bop" using assms(3) class_ok by auto
  then show "at_run S t i bop (start B bop)"
    using index_in [OF assms(1,2)] start_ok [OF dq_nth [OF assms(1)]] by (simp add: at_run_def)
qed (use start_own in simp_all)

text \<open>A step is one of the queue itself, or one of a partial queue.\<close>

definition local_step :: "('b, 'w) dq \<Rightarrow> tid \<Rightarrow> 'a pool_op \<Rightarrow> ('b, 'w) dq \<Rightarrow> (('a, 'p) dq_pc, 'a pool_res) outcome \<Rightarrow> bool" where
  "local_step S t op S' out \<longleftrightarrow> dq_backend S' = dq_backend S \<and> dq_frame N T balancer S' \<and> (\<exists>p'. out = Next p' \<and>
     dq_pinv S' t op p' \<and> (case running Q p' of None \<Rightarrow> True | Some (i, bop, q) \<Rightarrow> q = start B bop))"

definition continues :: "('b, 'w) dq \<Rightarrow> tid \<Rightarrow> 'a pool_op \<Rightarrow> u64 \<Rightarrow> 'op \<Rightarrow> ('p, 'r) outcome
    \<Rightarrow> (('a, 'p) dq_pc, 'a pool_res) outcome \<Rightarrow> bool" where
  "continues S' t op i bop o' out \<longleftrightarrow> (case o' of
     Next q \<Rightarrow> (\<exists>p'. out = Next p' \<and> running Q p' = Some (i, bop, q) \<and> dq_at N op p')
   | Return r \<Rightarrow> (case out of
       Next p' \<Rightarrow> running Q p' = None \<and> dq_at N op p' \<and> got bop r = None \<and> stored bop r = None
     | Return r' \<Rightarrow> pool_got op r' = got bop r \<and> pool_stored op r' = stored bop r
     | Fault e \<Rightarrow> False)
   | Fault e \<Rightarrow> True)"

lemma local_cases:
  assumes "dq_sinv S" "dq_pinv S t op p" "running Q p = None" "dq_body Q t n S p = (S', out)"
  shows "local_step S t op S' out"
proof -
  have t: "dq_call_ok N T balancer t" using assms(2) by (simp add: dq_pinv_def)
  then have queues: "N \<noteq> 0" by (simp add: dq_call_ok_def)
  have fr: "dq_frame N T balancer S" "dq_num_queues S = N" "bal_wf (dq_balancer S)"
    using assms(1) t by (simp_all add: dq_sinv_def dq_frame_def dq_call_ok_def)
  have a: "dq_at N op p" using assms(2) by (simp add: dq_pinv_def)
  have run: "at_run S t i bop (start B bop)" if "i < N" "bop = pq_put Q x \<or> bop = pq_get Q \<or> bop = pq_state Q" for i bop x
    by (rule start_run(1) [OF assms(1) that])
  have bal: "\<exists>b x. dq_balance t n S e f = (S\<lparr>dq_balancer := b\<rparr>, Next (f x)) \<and> bal_wf b \<and> x < N"
    for e and f :: "u64 \<Rightarrow> ('a, 'p) dq_pc"
    by (rule bal_get_ok [OF fr(3) queues, of t n e]) (auto simp: dq_balance_def fr(2))
  have keep: "dq_frame N T balancer (S\<lparr>dq_balancer := b\<rparr>)" "at_run (S\<lparr>dq_balancer := b\<rparr>) = at_run S" if "bal_wf b" for b
    using fr(1) that by (simp_all add: dq_frame_def at_run_def fun_eq_iff)
  show ?thesis
  proof (cases p)
    case (PutBalance x)
    then show ?thesis
      using bal [of True "\<lambda>i. PutRun x i (start B (pq_put Q x))"] keep run [of _ "pq_put Q x" x] a t assms(4) class_prog
      by (auto simp: local_step_def dq_pinv_def)
  next
    case GetBalance
    then show ?thesis
      using bal [of False "\<lambda>i. GetLoop i 0"] keep a t assms(4) by (auto simp: local_step_def dq_pinv_def)
  next
    case (GetLoop h i)
    then show ?thesis
      using run [of _ "pq_get Q"] fr a t assms(4) class_prog index_less [OF queues] by (auto simp: local_step_def dq_pinv_def)
  next
    case (ScanLoop h i)
    then show ?thesis
      using run [of _ "pq_state Q"] fr a t assms(4) class_prog index_less [OF queues] by (auto simp: local_step_def dq_pinv_def)
  qed (use assms(3) in simp_all)
qed

lemma run_cases:
  assumes "dq_sinv S" "dq_pinv S t op p" "running Q p = Some (i, bop, q)" "dq_body Q t n S p = (S', out)"
    and "own q \<inter> (common (dq_backend S ! unat i) \<union> seen q) = {}"
  obtains b o' where "body B t n (dq_backend S ! unat i) q = (b, o')" "unat i < length (dq_backend S)"
    "pinv (dq_backend S ! unat i) t bop q" "dq_backend S' = (dq_backend S)[unat i := b]" "dq_frame N T balancer S'"
    "continues S' t op i bop o' out"
proof -
  let ?b = "dq_backend S ! unat i"
  have fr: "dq_frame N T balancer S" "dq_num_queues S = N" and t: "t < T" "dq_at N op p"
    using assms(1,2) by (simp_all add: dq_sinv_def dq_frame_def dq_pinv_def dq_call_ok_def)
  have r: "unat i < length (dq_backend S)" "pinv ?b t bop q" using assms(2,3) by (auto simp: dq_pinv_def at_run_def)
  obtain b o' where b: "body B t n ?b q = (b, o')" by fastforce
  have safe: "o' \<noteq> Fault e" for e using body_safe [OF dq_nth [OF assms(1) r(1)] r(2) assms(5)] b by auto
  let ?S = "S\<lparr>dq_backend := (dq_backend S)[unat i := b]\<rparr>"
  have f: "dq_frame N T balancer ?S" using fr(1) by (simp add: dq_frame_def)
  have len: "t < length (dq_tails ?S)" "length (dq_tails ?S ! t) = length (dq_backend S)"
    using fr(1) t(1) by (simp_all add: dq_frame_def)
  then have tw: "tail_word ?S t i = Some (dq_tails S ! t ! unat i)" using r(1) by (simp add: tail_word_def)
  have fw: "dq_frame N T balancer (set_tail_word ?S t i w)" for w
    using f len by (auto simp: dq_frame_def set_tail_word_def dest!: set_update_subset_insert [THEN subsetD])
  have iN: "i < N" using r(1) fr by (simp add: dq_frame_def word_less_nat_alt)
  have nr: "dq_run Q t n S i q f g = (case o' of Next p' \<Rightarrow> (?S, Next (f p')) | Return r \<Rightarrow> g ?S r | Fault e \<Rightarrow> (?S, Fault e))"
    for f :: "'p \<Rightarrow> ('a, 'p) dq_pc" and g
    using r(1) b class_prog by (simp add: dq_run_def Let_def)
  have "dq_backend S' = (dq_backend S)[unat i := b] \<and> dq_frame N T balancer S' \<and> continues S' t op i bop o' out"
  proof (cases p)
    case (PutRun x j q')
    then show ?thesis
      using assms(3,4) nr f t class_stored [of x] safe by (cases o') (auto simp: continues_def)
  next
    case (GetRun h k j q')
    then have j: "j = i" "q' = q" "bop = pq_get Q" using assms(3) by simp_all
    show ?thesis
    proof (cases o')
      case (Return v)
      then show ?thesis
        using GetRun j assms(4) nr tw fw t class_got [of v] get_stored
        by (cases "pq_item Q v") (auto simp: continues_def set_tail_word_def)
    qed (use GetRun j assms(4) nr f t safe in \<open>auto simp: continues_def\<close>)
  next
    case (ScanRun h k j q')
    then have j: "j = i" "q' = q" "bop = pq_state Q" using assms(3) by simp_all
    show ?thesis
    proof (cases o')
      case (Return v)
      then show ?thesis
        using ScanRun j assms(4) nr tw f t class_got [of v] get_stored iN
        by (auto simp: continues_def split: if_splits)
    qed (use ScanRun j assms(4) nr f t safe in \<open>auto simp: continues_def\<close>)
  qed (use assms(3) in simp_all)
  then show thesis using that b r by blast
qed

text \<open>The obligations, each from those of the partial queue at work.\<close>

lemma dq_common_own:
  assumes "dq_pinv S t op p" "running Q p = Some (i, bop, q)" "dq_own p \<inter> (in_all common S \<union> dq_seen p) = {}"
  shows "own q \<inter> (common (dq_backend S ! unat i) \<union> seen q) = {}"
  using assms by (auto simp: dq_pinv_def at_run_def dq_own_def dq_seen_def in_all_def)

lemma dq_step [consumes 4, case_names loc run]:
  assumes "dq_sinv S" "dq_pinv S t op p" "dq_own p \<inter> (in_all common S \<union> dq_seen p) = {}" "dq_body Q t n S p = (S', out)"
  obtains (loc) "running Q p = None" "local_step S t op S' out"
  | (run) i bop q b o' where "running Q p = Some (i, bop, q)" "body B t n (dq_backend S ! unat i) q = (b, o')"
      "unat i < length (dq_backend S)" "pinv (dq_backend S ! unat i) t bop q"
      "own q \<inter> (common (dq_backend S ! unat i) \<union> seen q) = {}"
      "dq_backend S' = (dq_backend S)[unat i := b]" "dq_frame N T balancer S'" "continues S' t op i bop o' out"
proof (cases "running Q p")
  case None
  then show thesis using local_cases [OF assms(1,2) None assms(4)] loc by blast
next
  case (Some x)
  obtain i bop q where x: "running Q p = Some (i, bop, q)" using Some by (cases x) auto
  note o = dq_common_own [OF assms(2) x assms(3)]
  show thesis by (rule run_cases [OF assms(1,2) x assms(4) o]) (use run x o in blast)
qed

lemma dq_body_sinv:
  assumes "dq_sinv S" "dq_pinv S t op p" "dq_own p \<inter> (in_all common S \<union> dq_seen p) = {}" "dq_body Q t n S p = (S', out)"
  shows "dq_sinv S' \<and> in_all common S' \<subseteq> in_all common S \<union> dq_own p \<union> dq_seen p \<union> - in_all used S"
  using assms
proof (cases rule: dq_step)
  case loc
  then show ?thesis using assms(1) by (auto simp: local_step_def dq_sinv_def in_all_def)
next
  case (run i bop q b o')
  have B: "sinv b \<and> common b \<subseteq> common (dq_backend S ! unat i) \<union> own q \<union> seen q \<union> - used (dq_backend S ! unat i)"
    using body_sinv [OF dq_nth [OF assms(1) run(3)] run(4,5,2)] .
  have "dq_sinv S'" using assms(1) run(6,7) B by (auto simp: dq_sinv_def dest!: set_update_subset_insert [THEN subsetD])
  moreover have "in_all common S' \<subseteq> in_all common S \<union> dq_own p \<union> dq_seen p \<union> - in_all used S"
  proof
    fix z
    assume z: "z \<in> in_all common S'"
    obtain j x where jx: "z = (j, x)" by (cases z)
    have j: "j < length (dq_backend S)" "x \<in> common (dq_backend S' ! j)" using z run(6) by (simp_all add: jx in_all_def)
    show "z \<in> in_all common S \<union> dq_own p \<union> dq_seen p \<union> - in_all used S"
      using j B run(1,6) by (cases "j = unat i") (auto simp: jx in_all_def dq_own_def dq_seen_def)
  qed
  ultimately show ?thesis by blast
qed

lemma run_next:
  assumes "dq_sinv S" "running Q p = Some (i, bop, q)" "body B t n (dq_backend S ! unat i) q = (b, Next q')"
    "unat i < length (dq_backend S)" "pinv (dq_backend S ! unat i) t bop q"
    "own q \<inter> (common (dq_backend S ! unat i) \<union> seen q) = {}" "dq_backend S' = (dq_backend S)[unat i := b]"
    "running Q p' = Some (i, bop, q')"
  shows "at_run S' t i bop q'" "dq_own p' \<subseteq> dq_own p \<union> - in_all used S"
    "dq_seen p' \<subseteq> dq_seen p \<union> in_all common S \<union> in_all common S'" "dq_own p' \<inter> (in_all common S' \<union> dq_seen p') = {}"
proof -
  note B = body_next [OF dq_nth [OF assms(1,4)] assms(5,6,3)]
  show "at_run S' t i bop q'" using B assms(4,7) by (simp add: at_run_def)
  show "dq_own p' \<subseteq> dq_own p \<union> - in_all used S" using B assms(2,8) by (auto simp: dq_own_def in_all_def)
  show "dq_seen p' \<subseteq> dq_seen p \<union> in_all common S \<union> in_all common S'"
    using B assms(2,4,7,8) by (auto simp: dq_seen_def in_all_def)
  show "dq_own p' \<inter> (in_all common S' \<union> dq_seen p') = {}"
    using B assms(4,7,8) by (auto simp: dq_own_def dq_seen_def in_all_def)
qed

lemma dq_body_next:
  assumes "dq_sinv S" "dq_pinv S t op p" "dq_own p \<inter> (in_all common S \<union> dq_seen p) = {}" "dq_body Q t n S p = (S', Next p')"
  shows "dq_pinv S' t op p' \<and> dq_own p' \<subseteq> dq_own p \<union> - in_all used S \<and>
    dq_seen p' \<subseteq> dq_seen p \<union> in_all common S \<union> in_all common S' \<and> dq_own p' \<inter> (in_all common S' \<union> dq_seen p') = {}"
  using assms
proof (cases rule: dq_step)
  case loc
  then have "dq_own p' = {} \<and> dq_seen p' = {}" using start_own
    by (cases "running Q p'") (auto simp: local_step_def dq_own_def dq_seen_def)
  then show ?thesis using loc by (simp add: local_step_def)
next
  case (run i bop q b o')
  have t: "dq_call_ok N T balancer t" using assms(2) by (simp add: dq_pinv_def)
  have safe: "o' \<noteq> Fault e" for e using body_safe [OF dq_nth [OF assms(1) run(3)] run(4,5)] run(2) by auto
  show ?thesis
  proof (cases o')
    case (Next q')
    then have p': "running Q p' = Some (i, bop, q')" "dq_at N op p'" using run(8) by (simp_all add: continues_def)
    note R = run_next [OF assms(1) run(1) run(2) [unfolded Next] run(3-6) p'(1)]
    show ?thesis using R p' t by (simp add: dq_pinv_def)
  next
    case (Return r)
    then have "running Q p' = None" "dq_at N op p'" using run(8) by (simp_all add: continues_def)
    then show ?thesis using t by (simp add: dq_pinv_def dq_own_def dq_seen_def)
  qed (use safe in simp)
qed

lemma dq_body_safe:
  assumes "dq_sinv S" "dq_pinv S t op p" "dq_own p \<inter> (in_all common S \<union> dq_seen p) = {}"
  shows "dq_body Q t n S p \<noteq> (S', Fault e)"
proof
  assume "dq_body Q t n S p = (S', Fault e)"
  from assms this show False
  proof (cases rule: dq_step)
    case (run i bop q b o')
    have "o' \<noteq> Fault e" for e using body_safe [OF dq_nth [OF assms(1) run(3)] run(4,5)] run(2) by auto
    then show False using run(8) by (cases o') (auto simp: continues_def)
  qed (simp add: local_step_def)
qed

lemma dq_guarantee:
  assumes "dq_sinv S" "dq_pinv S t op p" "dq_own p \<inter> (in_all common S \<union> dq_seen p) = {}" "dq_body Q t n S p = (S', out)"
    and "C \<subseteq> in_all used S - dq_own p" "C \<inter> (in_all common S \<union> dq_seen p) = {}" "t \<noteq> u" "D \<subseteq> in_all used S - dq_own p"
  shows "dq_rely C D S S'"
  using assms(1-4)
proof (cases rule: dq_step)
  case loc
  then show ?thesis by (simp add: local_step_def dq_rely_def)
next
  case (run i bop q b o')
  have "rely {x. (unat i, x) \<in> C} {x. (unat i, x) \<in> D} (dq_backend S ! unat i) b"
  proof (rule guarantee [OF dq_nth [OF assms(1) run(3)] run(4,5,2)])
    show "{x. (unat i, x) \<in> C} \<subseteq> used (dq_backend S ! unat i) - ({} \<union> own q)"
      using assms(5) run(1) by (auto simp: in_all_def dq_own_def)
    show "{x. (unat i, x) \<in> C} \<inter> (common (dq_backend S ! unat i) \<union> seen q) \<subseteq> {}"
      using assms(6) run(1,3) by (auto simp: in_all_def dq_seen_def)
    show "{x. (unat i, x) \<in> D} \<subseteq> used (dq_backend S ! unat i) - own q"
      using assms(8) run(1) by (auto simp: in_all_def dq_own_def)
  qed (rule assms(7))
  then have "dq_backend S' ! j = dq_backend S ! j \<or>
      rely {x. (j, x) \<in> C} {x. (j, x) \<in> D} (dq_backend S ! j) (dq_backend S' ! j)" if "j < length (dq_backend S)" for j
    using that run(6) by (cases "j = unat i") simp_all
  then show ?thesis using run(6) by (simp add: dq_rely_def)
qed

lemma run_rely:
  assumes "dq_sinv S" "dq_sinv S'" "dq_rely (dq_own p) (dq_seen p) S S'" "dq_pinv S t op p" "running Q p = Some (i, bop, q)"
  obtains "unat i < length (dq_backend S')" "pinv (dq_backend S ! unat i) t bop q" "sinv (dq_backend S ! unat i)"
    "sinv (dq_backend S' ! unat i)" "dq_backend S' ! unat i = dq_backend S ! unat i \<or>
      rely (own q) (seen q) (dq_backend S ! unat i) (dq_backend S' ! unat i)"
proof -
  have r: "unat i < length (dq_backend S)" "pinv (dq_backend S ! unat i) t bop q"
    using assms(4,5) by (auto simp: dq_pinv_def at_run_def)
  have "{y. (unat i, y) \<in> dq_own p} = own q" "{y. (unat i, y) \<in> dq_seen p} = seen q"
    using assms(5) by (auto simp: dq_own_def dq_seen_def)
  then have "dq_backend S' ! unat i = dq_backend S ! unat i \<or>
      rely (own q) (seen q) (dq_backend S ! unat i) (dq_backend S' ! unat i)"
    using assms(3) r(1) by (auto simp: dq_rely_def)
  moreover have "unat i < length (dq_backend S')" using assms(3) r(1) by (simp add: dq_rely_def)
  ultimately show thesis using that r dq_nth [OF assms(1)] dq_nth [OF assms(2)] by blast
qed

lemma dq_stable:
  assumes "dq_sinv S" "dq_sinv S'" "dq_rely (dq_own p) (dq_seen p) S S'" "dq_pinv S t op p"
  shows "dq_pinv S' t op p"
proof (cases "running Q p")
  case (Some x)
  obtain i bop q where x: "running Q p = Some (i, bop, q)" using Some by (cases x) auto
  from run_rely [OF assms x] have "unat i < length (dq_backend S') \<and> pinv (dq_backend S' ! unat i) t bop q"
    by (metis stable sup_bot_left)
  then show ?thesis using assms(4) x by (simp add: dq_pinv_def at_run_def)
qed (use assms(4) in \<open>simp add: dq_pinv_def\<close>)

lemma dq_items_stable:
  assumes "dq_sinv S" "dq_sinv S'" "dq_rely (dq_own p) (dq_seen p) S S'" "dq_pinv S t op p"
  shows "run_item inserted S' op p = run_item inserted S op p \<and> run_item taken S' op p = run_item taken S op p"
proof (cases "running Q p")
  case (Some x)
  obtain i bop q where x: "running Q p = Some (i, bop, q)" using Some by (cases x) auto
  let ?b = "dq_backend S ! unat i" and ?b' = "dq_backend S' ! unat i"
  from run_rely [OF assms x] have "inserted ?b' bop q = inserted ?b bop q \<and> taken ?b' bop q = taken ?b bop q"
    by (metis items_stable sup_bot_left)
  then show ?thesis using x by (simp add: run_item_def)
qed (simp add: run_item_def)

lemma dq_balance_items:
  assumes "dq_sinv S" "dq_pinv S t op p" "dq_own p \<inter> (in_all common S \<union> dq_seen p) = {}" "dq_body Q t n S p = (S', out)"
  shows "dq_items S' + out_item (run_item taken S' op) (pool_got op) out + one (run_item inserted S op p) =
    dq_items S + one (run_item taken S op p) + out_item (run_item inserted S' op) (pool_stored op) out"
  using assms
proof (cases rule: dq_step)
  case loc
  then obtain p' where p': "out = Next p'" "case running Q p' of None \<Rightarrow> True | Some (i, bop, q) \<Rightarrow> q = start B bop"
    by (auto simp: local_step_def)
  then have "run_item inserted S' op p' = None \<and> run_item taken S' op p' = None"
    using start_items by (auto simp: run_item_def split: option.splits)
  then show ?thesis using loc p'(1) by (simp add: run_item_def dq_items_def local_step_def)
next
  case (run i bop q b o')
  let ?b = "dq_backend S ! unat i"
  have safe: "o' \<noteq> Fault e" for e using body_safe [OF dq_nth [OF assms(1) run(3)] run(4,5)] run(2) by auto
  have bal: "items b + out_item (taken b bop) (got bop) o' + one (inserted ?b bop q) =
    items ?b + one (taken ?b bop q) + out_item (inserted b bop) (stored bop) o'"
    by (rule balance [OF dq_nth [OF assms(1) run(3)] run(4,5,2)])
  have up: "dq_items S' + items ?b = dq_items S + items b"
    using sum_list_upd [OF run(3), of items b] run(6) by (simp add: dq_items_def)
  have new: "dq_backend S' ! unat i = b" using run(3,6) by simp
  have o: "out_item (run_item taken S' op) (pool_got op) out = out_item (taken b bop) (got bop) o' \<and>
    out_item (run_item inserted S' op) (pool_stored op) out = out_item (inserted b bop) (stored bop) o'"
  proof (cases o')
    case (Next q')
    then obtain p' where "out = Next p'" "running Q p' = Some (i, bop, q')" using run(8) by (auto simp: continues_def)
    then show ?thesis using Next new by (simp add: run_item_def)
  next
    case (Return r)
    then show ?thesis using run(8) by (cases out) (simp_all add: continues_def run_item_def)
  qed (use safe in simp)
  have "dq_items S' + out_item (taken b bop) (got bop) o' + one (inserted ?b bop q) =
    dq_items S + one (taken ?b bop q) + out_item (inserted b bop) (stored bop) o'"
    using arg_cong2 [OF up bal, of "(+)"] by (simp add: ac_simps)
  then show ?thesis using run(1) by (simp add: o run_item_def)
qed

lemma dq_init_sinv: "dq_sinv (dq_new b0 w0 N T balancer)"
  using sinv_init by (auto simp: dq_sinv_def dq_frame_def dq_new_def)

lemma dq_pinv_used: "dq_pinv S t op p \<Longrightarrow> dq_own p \<union> dq_seen p \<subseteq> in_all used S"
proof (cases "running Q p")
  case (Some x)
  assume p: "dq_pinv S t op p"
  obtain i bop q where x: "running Q p = Some (i, bop, q)" using Some by (cases x) auto
  then have r: "unat i < length (dq_backend S)" "pinv (dq_backend S ! unat i) t bop q"
    using p by (auto simp: dq_pinv_def at_run_def)
  show ?thesis using pinv_used [OF r(2)] r(1) x by (auto simp: dq_own_def dq_seen_def in_all_def)
qed (simp add: dq_own_def dq_seen_def)

end

sublocale distributed \<subseteq> dq: item_pool "dq_prog Q" "dq_new b0 w0 N T balancer" "\<lambda>t op. dq_call_ok N T balancer t" dq_sinv dq_pinv
  "in_all used" "in_all common" "\<lambda>_. {}" dq_own dq_seen dq_rely "\<lambda>_ _. True"
  dq_items pool_put pool_stored pool_got "run_item inserted" "run_item taken"
proof (unfold_locales, goal_cases)
  case 1 show ?case by (rule dq_init_sinv)
next
  case (2 S t op) then show ?case by (cases op) (simp_all add: dq_pinv_def)
next
  case (3 op) then show ?case by (cases op) (simp_all add: dq_own_def dq_seen_def)
next
  case 6 then show ?case by (rule dq_pinv_used)
next
  case (7 S)
  show ?case
  proof
    fix z
    assume z: "z \<in> in_all common S"
    obtain i x where i: "z = (i, x)" "i < length (dq_backend S)" "x \<in> common (dq_backend S ! i)"
      using z unfolding in_all_def by blast
    then have "x \<in> used (dq_backend S ! i)" using common_used [OF dq_nth [OF 7 i(2)]] by blast
    then show "z \<in> in_all used S" using i by (simp add: in_all_def)
  qed
next
  case (8 S t op p n S' out) then show ?case using dq_body_sinv [of S t op p n S' out] by simp
next
  case (9 S t op p n S' p') then show ?case using dq_body_next [of S t op p n S' p'] by simp
next
  case (10 S t op p n S' e) then show ?case using dq_body_safe [of S t op p n S' e] by simp
next
  case (11 S t op p n S' out C u D) then show ?case using dq_guarantee [of S t op p n S' out C u D] by simp
next
  case (12 S S' t p op) then show ?case using dq_stable [of S S' p t op] by simp
next
  case 16
  show ?case using items_init by (simp add: dq_items_def dq_new_def sum_list_none)
next
  case (17 S op) then show ?case by (cases op) (simp_all add: run_item_def)
next
  case (18 op r x) then show ?case by (cases r) (auto split: if_splits)
next
  case (19 S t op p x)
  then obtain i bop q where r: "running Q p = Some (i, bop, q)" by (auto simp: run_item_def split: option.splits)
  then have "unat i < length (dq_backend S)" "pinv (dq_backend S ! unat i) t bop q" "dq_at N op p"
    using 19(2) by (auto simp: dq_pinv_def at_run_def)
  then have "put bop = Some x" using 19 r inserted_put [OF dq_nth [OF 19(1)]] by (auto simp: run_item_def)
  then show ?case using r \<open>dq_at N op p\<close> class_put by (cases p) auto
next
  case (20 S t op p n S' out) then show ?case using dq_balance_items [of S t op p n S' out] by simp
next
  case (21 S S' t p op)
  then show ?case using dq_items_stable [of S S' p t op] by simp
qed simp_all

section \<open>The partial queues of the benchmarks\<close>

definition ms_partial :: "(u64 msq, u64 ms_op, u64 ms_res, u64 ms_pc, u64, addr acell) partial_class" where
  "ms_partial = \<lparr>pq_prog = ms_prog, pq_put = Enq, pq_get = Deq WithTail, pq_state = MS_Queue.EmptyState,
     pq_ok = (\<lambda>r. case r of Enqueued b \<Rightarrow> b | _ \<Rightarrow> False),
     pq_item = (\<lambda>r. case r of DequeuedTail x w \<Rightarrow> x | _ \<Rightarrow> None),
     pq_word = (\<lambda>r. case r of DequeuedTail x w \<Rightarrow> w | TailState w \<Rightarrow> w | _ \<Rightarrow> cell NULL 0)\<rparr>"

definition treiber_partial :: "(u64 treiber, u64 stack_op, u64 stack_res, u64 treiber_pc, u64, addr acell) partial_class" where
  "treiber_partial = \<lparr>pq_prog = treiber_prog, pq_put = Push, pq_get = GetState, pq_state = Treiber_Stack.EmptyState,
     pq_ok = (\<lambda>r. case r of Pushed b \<Rightarrow> b | _ \<Rightarrow> False),
     pq_item = (\<lambda>r. case r of Got x w \<Rightarrow> x | _ \<Rightarrow> None),
     pq_word = (\<lambda>r. case r of Got x w \<Rightarrow> w | State w \<Rightarrow> w | _ \<Rightarrow> cell NULL 0)\<rparr>"

lemma ms_class:
  "ms_put (pq_put ms_partial x) = Some x" "ms_put (pq_get ms_partial) = None" "ms_put (pq_state ms_partial) = None"
  "pq_prog ms_partial = ms_prog"
  by (simp_all add: ms_partial_def)

lemma ms_class_res:
  "ms_stored (pq_put ms_partial x) r = (if pq_ok ms_partial r then Some x else None)"
  "ms_got (pq_put ms_partial x) r = None" "ms_got (pq_get ms_partial) r = pq_item ms_partial r"
  "ms_got (pq_state ms_partial) r = None"
  by (simp_all add: ms_partial_def split: ms_res.split)

lemma treiber_class:
  "stack_put (pq_put treiber_partial x) = Some x" "stack_put (pq_get treiber_partial) = None"
  "stack_put (pq_state treiber_partial) = None" "pq_prog treiber_partial = treiber_prog"
  by (simp_all add: treiber_partial_def)

lemma treiber_class_res:
  "stack_stored (pq_put treiber_partial x) r = (if pq_ok treiber_partial r then Some x else None)"
  "stack_got (pq_put treiber_partial x) r = None" "stack_got (pq_get treiber_partial) r = pq_item treiber_partial r"
  "stack_got (pq_state treiber_partial) r = None"
  by (simp_all add: treiber_partial_def split: stack_res.split)

interpretation dq_ms: distributed ms_prog ms_init "\<lambda>_ _. True" ms_inv ms_pinv "\<lambda>s. dom (m_heap s)" "\<lambda>s. set (nodes s)"
    ms_own "\<lambda>_. {}" ms_rely "\<lambda>s. mset (fst (ms_abs s))" ms_put ms_stored ms_got
    "\<lambda>s op p. fixed_item (ms_stored op) (ms_mark p)" "\<lambda>s op p. fixed_item (ms_got op) (ms_mark p)"
    ms_partial N T "cell NULL 0" balancer for N T balancer
  by unfold_locales (simp_all add: ms_class ms_class_res)

interpretation dq_treiber: distributed treiber_prog treiber_init "\<lambda>_ _. True" treiber_inv treiber_pinv
    "\<lambda>s. dom (t_heap s)" "\<lambda>s. set (t_addrs s)" treiber_own treiber_seen treiber_rely
    "\<lambda>s. mset (fst (treiber_abs s))" stack_put stack_stored stack_got
    "\<lambda>s op p. fixed_item (stack_stored op) (treiber_mark s p)" "\<lambda>s op p. fixed_item (stack_got op) (treiber_mark s p)"
    treiber_partial N T "cell NULL 0" balancer for N T balancer
  by unfold_locales (simp_all add: treiber_class treiber_class_res)

section \<open>Properties\<close>

text \<open>
  C36: every balancer that is set up with at least one partition returns an index below the
  number of queues, and stays well formed.
\<close>

theorem balancer_in_range:
  assumes "bal_wf b" "n \<noteq> 0"
  shows "\<exists>b' x. bal_get t r b n e = Inr (b', x) \<and> bal_wf b' \<and> x < n"
proof -
  obtain b' x where "bal_get t r b n e = Inr (b', x)" "bal_wf b'" "x < n"
    using bal_get_ok [OF assms, where t=t and r=r and e=e] .
  then show ?thesis by (intro exI conjI)
qed

theorem balancer_in_range_witness:
  "\<exists>b' x. bal_get 5 9 (partrr_new 4 80) 80 False = Inr (b', x) \<and> bal_wf b' \<and> x < 80"
proof (rule balancer_in_range)
  show "bal_wf (partrr_new 4 80)" by code_simp
  show "(80 :: u64) \<noteq> 0" by simp
qed

lemma mod_shift_inj:
  fixes a :: nat
  assumes "(a + i) mod m = (a + j) mod m" "i < m" "j < m"
  shows "i = j"
proof (rule ccontr)
  assume "i \<noteq> j"
  then have "m dvd j - i \<and> i < j \<or> m dvd i - j \<and> j < i"
    using assms(1) mod_eq_dvd_iff_nat [of "a + i" "a + j" m] mod_eq_dvd_iff_nat [of "a + j" "a + i" m]
    by (cases "i < j") auto
  then show False using assms(2,3) by (auto dest!: dvd_imp_le)
qed

text \<open>The indices of m enqueues in a row by threads of one partition.\<close>

fun put_indices :: "nat \<Rightarrow> tid \<Rightarrow> balancer \<Rightarrow> u64 \<Rightarrow> fault + u64 list" where
  "put_indices 0 t b n = Inr []"
| "put_indices (Suc m) t b n = (case bal_get t 0 b n True of Inl e \<Rightarrow> Inl e
     | Inr (b', x) \<Rightarrow> map_sum id (\<lambda>xs. x # xs) (put_indices m t b' n))"

lemma put_indices_run:
  assumes "p \<noteq> 0" "n \<noteq> 0" "q = unat (of_nat t mod p)" "q < length es"
  shows "put_indices m t (PartRR k p es ds) n = Inr (map (\<lambda>i. (es ! q + of_nat i) mod n) [0..<m])"
  using assms(4)
proof (induction m arbitrary: es)
  case (Suc m)
  let ?es = "es[q := es ! q + 1]"
  have r: "put_indices m t (PartRR k p ?es ds) n = Inr (map (\<lambda>i. (?es ! q + of_nat i) mod n) [0..<m])"
    by (rule Suc.IH) (use Suc.prems in simp)
  have "[0..<Suc m] = 0 # map Suc [0..<m]" by (simp add: map_Suc_upt upt_conv_Cons del: upt_Suc)
  moreover have "es ! q + of_nat (Suc i) = ?es ! q + of_nat i" for i using Suc.prems by (simp add: ac_simps)
  ultimately have e: "map (\<lambda>i. (es ! q + of_nat i) mod n) [0..<Suc m] =
      es ! q mod n # map (\<lambda>i. (?es ! q + of_nat i) mod n) [0..<m]" by (simp del: of_nat_Suc upt_Suc)
  have "bal_get t 0 (PartRR k p es ds) n True = Inr (PartRR k p ?es ds, es ! q mod n)"
    using Suc.prems assms(1-3) by (simp add: fetch_and_add_def)
  then show ?case unfolding e using r by simp
qed simp

text \<open>
  C37: the partitioned round robin is fair: of as many enqueues in a row as there are queues, by
  threads of one partition, no two get the same queue, so each queue gets one, as long as the
  64 bit counter of the partition does not wrap around.
\<close>

theorem partrr_round_robin:
  assumes "p \<noteq> 0" "n \<noteq> 0" "unat (of_nat t mod p :: u64) < length es"
    and "unat (es ! unat (of_nat t mod p :: u64)) + unat n < 2 ^ 64"
  shows "\<exists>xs. put_indices (unat n) t (PartRR k p es ds) n = Inr xs \<and> distinct xs \<and> length xs = unat n \<and>
    list_all (\<lambda>x. x < n) xs"
proof -
  define c where "c = es ! unat (of_nat t mod p :: u64)"
  let ?xs = "map (\<lambda>i. (c + of_nat i) mod n) [0..<unat n]"
  have u: "unat ((c + of_nat i) mod n) = (unat c + i) mod unat n" if "i < unat n" for i
  proof -
    have "unat c + i < 2 ^ 64" using assms(4) that unfolding c_def by simp
    then have "unat (c + of_nat i) = unat c + i" by (simp add: unat_word_ariths unat_of_nat mod_simps)
    then show ?thesis by (simp add: unat_mod)
  qed
  have "inj_on (\<lambda>i. (c + of_nat i) mod n) (set [0..<unat n])"
  proof (rule inj_onI)
    fix i j
    assume i: "i \<in> set [0..<unat n]" and j: "j \<in> set [0..<unat n]"
      and e: "(c + of_nat i) mod n = (c + of_nat j) mod n"
    have "(unat c + i) mod unat n = (unat c + j) mod unat n" using u [of i] u [of j] i j e by simp
    then show "i = j" using i j by (auto intro: mod_shift_inj)
  qed
  then have "distinct ?xs" by (simp add: distinct_map)
  moreover have "list_all (\<lambda>x. x < n) ?xs" using index_less [OF assms(2)] by (simp add: list_all_iff)
  moreover have "put_indices (unat n) t (PartRR k p es ds) n = Inr ?xs"
    unfolding c_def by (rule put_indices_run [OF assms(1,2) refl assms(3)])
  ultimately show ?thesis by (intro exI [of _ ?xs]) simp
qed

theorem partrr_round_robin_witness:
  "\<exists>xs. put_indices (unat (3 :: u64)) 7 (PartRR 3 2 [5, 9] [5, 9]) 3 = Inr xs \<and> distinct xs \<and>
    length xs = unat (3 :: u64) \<and> list_all (\<lambda>x. x < 3) xs"
proof (rule partrr_round_robin)
  show "unat (of_nat 7 mod 2 :: u64) < length ([5, 9] :: u64 list)" by simp
  show "unat ([5, 9 :: u64] ! unat (of_nat 7 mod 2 :: u64)) + unat (3 :: u64) < 2 ^ 64" by simp
qed simp_all

definition ms_items :: "u64 msq \<Rightarrow> u64 multiset" where
  "ms_items s = mset (fst (ms_abs s))"

definition dq_content :: "('b \<Rightarrow> u64 multiset) \<Rightarrow> ('b, 'w) dq \<Rightarrow> u64 multiset" where
  "dq_content f S = sum_list (map f (dq_backend S))"

abbreviation dq_ms_new :: "u64 \<Rightarrow> nat \<Rightarrow> balancer \<Rightarrow> (u64 msq, addr acell) dq" where
  "dq_ms_new N T b \<equiv> dq_new ms_init (cell NULL 0) N T b"

abbreviation dq_threads :: "nat \<Rightarrow> u64 pool_op sched \<Rightarrow> bool" where
  "dq_threads T es \<equiv> list_all (valid_call (\<lambda>t op. t < T)) es"

lemma dq_calls: "N \<noteq> 0 \<Longrightarrow> bal_wf b \<Longrightarrow> dq_threads T es \<Longrightarrow> list_all (valid_call (\<lambda>t op. dq_call_ok N T b t)) es"
  by (simp add: dq_call_ok_def [abs_def])

text \<open>
  C35: the distributed queue over Michael-Scott queues loses, duplicates and invents no item,
  with any of the balancers and under any interleaving: the items in its partial queues
  together with those handed out are among those put, as often, and exactly those put when no
  call is running; and no step faults.
\<close>

theorem distributed_queue_conservation:
  assumes "N \<noteq> 0" "bal_wf b" "dq_threads T es"
  defines "c \<equiv> exec (dq_prog ms_partial) es (init (dq_ms_new N T b))"
    and "H \<equiv> history (dq_prog ms_partial) es (init (dq_ms_new N T b))"
  shows "dq_content ms_items (shared c) + ret_items pool_got H \<subseteq># inv_items pool_put H \<and>
    ((\<forall>t. threads c t = Idle) \<longrightarrow> dq_content ms_items (shared c) + ret_items pool_got H = ret_items pool_stored H) \<and>
    (\<forall>t op e. threads c t \<noteq> Dead op e)"
proof -
  note ok = dq_calls [OF assms(1-3)]
  have e: "dq_ms.dq_items = dq_content ms_items" by (simp add: fun_eq_iff dq_ms.dq_items_def dq_content_def ms_items_def [abs_def])
  show ?thesis
    using dq_ms.dq.pool_no_invention [OF ok] dq_ms.dq.pool_conserved [OF ok] dq_ms.dq.og_no_fault [OF ok]
    unfolding c_def H_def e by blast
qed

definition dq_two_threads :: "u64 pool_op sched" where
  "dq_two_threads = [(0, Call (PoolPut 5)), (1, Call (PoolPut 6))] @
     concat (replicate 9 [(0, Go 2), (1, Go 3)]) @ [(0, Leave), (1, Leave), (0, Call PoolGet)] @
     replicate 9 (0, Go 1) @ [(0, Leave)]"

lemma dq_two_threads_idle: "threads (exec (dq_prog ms_partial) dq_two_threads (init (dq_ms_new 2 2 (partrr_new 1 2)))) t = Idle"
proof -
  let ?c = "exec (dq_prog ms_partial) dq_two_threads (init (dq_ms_new 2 2 (partrr_new 1 2)))"
  have "threads ?c 0 = Idle \<and> threads ?c 1 = Idle" by code_simp
  moreover have "threads ?c t = Idle" if "t \<noteq> 0" "t \<noteq> 1"
    using that by (subst exec_other) (simp_all add: dq_two_threads_def)
  ultimately show ?thesis by (cases "t = 0"; cases "t = 1") simp_all
qed

theorem distributed_queue_conservation_witness:
  "dq_content ms_items (shared (exec (dq_prog ms_partial) dq_two_threads (init (dq_ms_new 2 2 (partrr_new 1 2))))) + {#5#} = {#5, 6#}"
proof -
  let ?H = "history (dq_prog ms_partial) dq_two_threads (init (dq_ms_new 2 2 (partrr_new 1 2)))"
  have "ret_items pool_got ?H = {#5#} \<and> ret_items pool_stored ?H = {#5, 6#}" by code_simp
  moreover have "bal_wf (partrr_new 1 2) \<and> dq_threads 2 dq_two_threads" by code_simp
  ultimately show ?thesis
    using distributed_queue_conservation [of 2 "partrr_new 1 2" 2 dq_two_threads] dq_two_threads_idle by simp
qed

end
