(* ===== verification/TS_Queue.thy ===== *)
theory TS_Queue
  imports Timestamps Item_Pool
begin

text \<open>
  The timestamped queue: the buffer of src/src/datastructures/ts_queue_buffer.h, a list of
  items per thread from which every thread may remove at the head, and the queue of ts_queue.h
  on top. An enqueue appends an item to the list of its thread and then gives it a timestamp; a
  dequeue looks at the heads of all lists and takes the one with the earliest timestamp. The
  timestamp class (ts_timestamp.h, theory Timestamps) is a parameter: the words that its
  methods store and load one after the other.
\<close>

unbundle bit_operations_syntax

section \<open>Pointers with a counter\<close>

text \<open>The low three bits of a remove pointer count its changes.\<close>

definition get_aba_free_pointer :: "u64 \<Rightarrow> u64" where
  "get_aba_free_pointer pointer = pointer AND 0xfffffffffffffff8"

definition add_next_aba :: "u64 \<Rightarrow> u64 \<Rightarrow> u64 \<Rightarrow> u64" where
  "add_next_aba pointer old increment =
     (let aba = (old + increment) AND 0x7; result = (pointer AND 0xfffffffffffffff8) OR aba
      in (result AND 0xffffffffffffff8) OR aba)"

text \<open>
  Addresses that survive: a multiple of eight with the four highest bits clear, which the mask
  of add_next_aba (one digit short) clears.
\<close>

definition aligned :: "u64 \<Rightarrow> bool" where
  "aligned w \<longleftrightarrow> w AND 0xffffffffffffff8 = w"

lemma aligned_0 [simp]: "aligned 0"
  by (simp add: aligned_def)

lemma aligned_free [simp]:
  assumes "aligned w"
  shows "get_aba_free_pointer w = w"
proof -
  have "w AND 0xfffffffffffffff8 = (w AND 0xffffffffffffff8) AND 0xfffffffffffffff8"
    using assms by (simp add: aligned_def)
  also have "\<dots> = w AND 0xffffffffffffff8" by (simp only: and.assoc) simp
  finally show ?thesis using assms by (simp add: aligned_def get_aba_free_pointer_def)
qed

lemma free_next_aba [simp]:
  assumes "aligned w"
  shows "get_aba_free_pointer (add_next_aba w old k) = w"
proof -
  let ?a = "(old + k) AND 0x7"
  have z: "?a AND 0xfffffffffffffff8 = 0" "?a AND 0xffffffffffffff8 = 0" by (simp_all only: and.assoc) simp_all
  have w: "w AND 0xfffffffffffffff8 = w" "w AND 0xffffffffffffff8 = w"
    using assms aligned_free [OF assms] by (simp_all add: aligned_def get_aba_free_pointer_def)
  show ?thesis
    by (simp add: get_aba_free_pointer_def add_next_aba_def Let_def bit.conj_disj_distrib2 z w)
qed

section \<open>State and methods\<close>

text \<open>
  A timestamp class as the buffer uses it: set_timestamp makes its stores with values drawn
  from the clock, load_timestamp its loads, read_time reads the clock.
\<close>

record 'ts ts_words =
  tw_class :: "'ts ts_class"
  tw_stores :: "(u64 \<Rightarrow> 'ts \<Rightarrow> 'ts) list"
  tw_loads :: "('ts \<Rightarrow> 'ts \<Rightarrow> 'ts) list"
  tw_read :: "u64 \<Rightarrow> 'ts"

definition hardware_words :: "u64 ts_words" where
  "hardware_words = \<lparr>tw_class = HardwareTimestamp, tw_stores = [\<lambda>v ts. v],
     tw_loads = [\<lambda>source ts. source], tw_read = (\<lambda>v. v)\<rparr>"

definition interval_words :: "(u64 \<times> u64) ts_words" where
  "interval_words = \<lparr>tw_class = HardwareIntervalTimestamp,
     tw_stores = [\<lambda>v ts. (v, snd ts), \<lambda>v ts. (fst ts, v)],
     tw_loads = [\<lambda>source ts. (fst source, snd ts), \<lambda>source ts. (fst ts, snd source)],
     tw_read = (\<lambda>v. (v, v))\<rparr>"

record ('a, 'ts) ts_item =
  ti_next :: u64
  ti_data :: 'a
  ti_stamp :: 'ts

record ('a, 'ts) tsb =
  tb_num_threads :: u64
  tb_insert :: "u64 list"
  tb_remove :: "u64 list"
  tb_check :: "u64 list list"
  tb_heap :: "('a, 'ts) ts_item heap"

text \<open>The sentinels of the threads are the items at the addresses the allocator returned.\<close>

definition tsb_initialize :: "'ts ts_words \<Rightarrow> u64 \<Rightarrow> u64 list \<Rightarrow> ('a :: zero, 'ts) tsb" where
  "tsb_initialize C num_threads sentinels = \<lparr>tb_num_threads = num_threads, tb_insert = sentinels, tb_remove = sentinels,
     tb_check = replicate (unat num_threads) (replicate (unat num_threads) 0),
     tb_heap = map_of (map (\<lambda>a. (unat a,
       \<lparr>ti_next = 0, ti_data = 0, ti_stamp = init_sentinel (tw_class C)\<rparr>)) sentinels)\<rparr>"

text \<open>
  The local variables of one round of try_remove_right; timestamp is the one the pointer
  timestamp refers to, in one half of tmp_timestamp.
\<close>

record 'ts tq_round =
  rd_empty :: bool
  rd_result :: u64
  rd_buffer_index :: u64
  rd_timestamp :: 'ts
  rd_old_remove :: u64
  rd_start_time :: 'ts
  rd_first :: u64
  rd_i :: u64

datatype 'a tq_op = TsEnqueue 'a | TsDequeue

datatype 'a tq_res = TsPut bool | TsGot "'a option"

datatype ('a, 'ts) tq_pc =
    InsAlloc 'a
  | InsLoad 'a u64
  | InsLink 'a u64 u64
  | InsStore 'a u64
  | InsStamp 'a u64 nat
  | RemTime
  | RemRandom 'ts
  | RemLoop "'ts tq_round"
  | RemInsert "'ts tq_round" u64
  | RemNext "'ts tq_round" u64 u64
  | RemStamp "'ts tq_round" u64 u64 nat 'ts
  | RemCheck "'ts tq_round"
  | RemCas "'ts tq_round"
  | RemData "'ts tq_round"

type_synonym ('a, 'ts) tq_out = "('a, 'ts) tsb \<times> (('a, 'ts) tq_pc, 'a tq_res) outcome"

definition ti_at :: "('a, 'ts) tsb \<Rightarrow> u64 \<Rightarrow> ('a, 'ts) ts_item option" where
  "ti_at s w = tb_heap s (unat w)"

definition ti_put :: "('a, 'ts) tsb \<Rightarrow> u64 \<Rightarrow> ('a, 'ts) ts_item \<Rightarrow> ('a, 'ts) tsb" where
  "ti_put s w item = s\<lparr>tb_heap := (tb_heap s)(unat w \<mapsto> item)\<rparr>"

text \<open>
  insert_left. The fresh item is initialized before anybody else can see it, so that this is
  one step with its allocation, at an address the allocator may return.
\<close>

definition ts_alloc_ok :: "('a, 'ts) tsb \<Rightarrow> nat \<Rightarrow> bool" where
  "ts_alloc_ok s n \<longleftrightarrow> is_fresh (tb_heap s) n \<and> unat (of_nat n :: u64) = n \<and> aligned (of_nat n)"

fun insert_left :: "'ts ts_words \<Rightarrow> tid \<Rightarrow> nat \<Rightarrow> ('a, 'ts) tsb \<Rightarrow> ('a, 'ts) tq_pc \<Rightarrow> ('a, 'ts) tq_out" where
  "insert_left C t n s (InsAlloc element) =
     (if ts_alloc_ok s n
      then (ti_put s (of_nat n) \<lparr>ti_next = 0, ti_data = element, ti_stamp = init_top (tw_class C)\<rparr>,
        Next (InsLoad element (of_nat n)))
      else (s, Next (InsAlloc element)))"
| "insert_left C t n s (InsLoad element new_item) =
     (s, if t < length (tb_insert s) then Next (InsLink element new_item (tb_insert s ! t)) else Fault Wild_Deref)"
| "insert_left C t n s (InsLink element new_item old_insert) = (case ti_at s old_insert of
     None \<Rightarrow> (s, Fault (fault_at (unat old_insert)))
   | Some item \<Rightarrow> (ti_put s old_insert (item\<lparr>ti_next := new_item\<rparr>), Next (InsStore element new_item)))"
| "insert_left C t n s (InsStore element new_item) =
     (s\<lparr>tb_insert := (tb_insert s)[t := new_item]\<rparr>, Next (InsStamp element new_item 0))"
| "insert_left C t n s p = (s, Fault (Undefined ''insert_left''))"

text \<open>enqueue of TSQueue: insert_left, then the stores of set_timestamp.\<close>

fun ts_enqueue :: "'ts ts_words \<Rightarrow> tid \<Rightarrow> nat \<Rightarrow> ('a, 'ts) tsb \<Rightarrow> ('a, 'ts) tq_pc \<Rightarrow> ('a, 'ts) tq_out" where
  "ts_enqueue C t n s (InsStamp element item k) = (if k < length (tw_stores C)
     then case ti_at s item of
         None \<Rightarrow> (s, Fault (fault_at (unat item)))
       | Some nd \<Rightarrow> (ti_put s item (nd\<lparr>ti_stamp := (tw_stores C ! k) (of_nat n) (ti_stamp nd)\<rparr>),
           Next (InsStamp element item (k + 1)))
     else (s, Return (TsPut True)))"
| "ts_enqueue C t n s p = insert_left C t n s p"

text \<open>The loop of dequeue, around the value and the result of try_remove_right.\<close>

definition ts_dequeue_loop :: "'a :: zero \<Rightarrow> bool \<Rightarrow> (('a, 'ts) tq_pc, 'a tq_res) outcome" where
  "ts_dequeue_loop element b = (if b then (if element \<noteq> 0 then Return (TsGot (Some element)) else Next RemTime)
     else Return (TsGot None))"

definition ts_fail :: "'ts tq_round \<Rightarrow> (('a :: zero, 'ts) tq_pc, 'a tq_res) outcome" where
  "ts_fail r = ts_dequeue_loop 0 (\<not> rd_empty r)"

text \<open>The buffer a round looks at, and the end of an iteration.\<close>

definition tmp_buffer_index :: "('a, 'ts) tsb \<Rightarrow> 'ts tq_round \<Rightarrow> u64" where
  "tmp_buffer_index s r = (rd_first r + rd_i r) mod tb_num_threads s"

definition round_next :: "'ts tq_round \<Rightarrow> 'ts tq_round" where
  "round_next r = r\<lparr>rd_i := rd_i r + 1\<rparr>"

fun try_remove_right :: "'ts ts_words \<Rightarrow> tid \<Rightarrow> nat \<Rightarrow> ('a :: zero, 'ts) tsb \<Rightarrow> ('a, 'ts) tq_pc \<Rightarrow> ('a, 'ts) tq_out" where
  "try_remove_right C t n s RemTime = (s, Next (RemRandom (tw_read C (of_nat n))))"
| "try_remove_right C t n s (RemRandom start_time) = (s, Next (RemLoop \<lparr>rd_empty = True, rd_result = 0,
     rd_buffer_index = - 1, rd_timestamp = init_top (tw_class C), rd_old_remove = 0,
     rd_start_time = start_time, rd_first = of_nat n, rd_i = 0\<rparr>))"
| "try_remove_right C t n s (RemLoop r) = (s,
     if rd_i r < tb_num_threads s then
       (if unat (tmp_buffer_index s r) < length (tb_remove s)
        then Next (RemInsert r (tb_remove s ! unat (tmp_buffer_index s r))) else Fault Wild_Deref)
     else if rd_result r \<noteq> 0 \<and> \<not> is_later (tw_class C) (rd_timestamp r) (rd_start_time r) then Next (RemCheck r)
     else ts_fail r)"
| "try_remove_right C t n s (RemInsert r tmp_remove) = (s,
     if unat (tmp_buffer_index s r) < length (tb_insert s)
     then Next (RemNext r tmp_remove (tb_insert s ! unat (tmp_buffer_index s r))) else Fault Wild_Deref)"
| "try_remove_right C t n s (RemNext r tmp_remove tmp_insert) =
     (let index = unat (tmp_buffer_index s r) in
      case ti_at s (get_aba_free_pointer tmp_remove) of
        None \<Rightarrow> (s, Fault (fault_at (unat (get_aba_free_pointer tmp_remove))))
      | Some item \<Rightarrow>
          if get_aba_free_pointer tmp_remove \<noteq> tmp_insert
          then (s, Next (RemStamp (r\<lparr>rd_empty := False\<rparr>) tmp_remove (ti_next item) 0 (init_top (tw_class C))))
          else if \<not> (t < length (tb_check s) \<and> index < length (tb_check s ! t)) then (s, Fault Wild_Deref)
          else if tb_check s ! t ! index \<noteq> tmp_remove
          then (s\<lparr>tb_check := (tb_check s)[t := (tb_check s ! t)[index := tmp_remove]]\<rparr>,
            Next (RemLoop (round_next (r\<lparr>rd_empty := False\<rparr>))))
          else (s, Next (RemLoop (round_next r))))"
| "try_remove_right C t n s (RemStamp r tmp_remove item k item_timestamp) = (s, if k < length (tw_loads C)
     then case ti_at s item of
         None \<Rightarrow> Fault (fault_at (unat item))
       | Some nd \<Rightarrow> Next (RemStamp r tmp_remove item (k + 1) ((tw_loads C ! k) (ti_stamp nd) item_timestamp))
     else if is_later (tw_class C) (rd_timestamp r) item_timestamp
     then Next (RemLoop (round_next (r\<lparr>rd_result := item, rd_buffer_index := tmp_buffer_index s r,
       rd_timestamp := item_timestamp, rd_old_remove := tmp_remove\<rparr>)))
     else Next (RemLoop (round_next r)))"
| "try_remove_right C t n s (RemCheck r) = (s,
     if length (tb_remove s) \<le> unat (rd_buffer_index r) then Fault Wild_Deref
     else if tb_remove s ! unat (rd_buffer_index r) = rd_old_remove r then Next (RemCas r) else ts_fail r)"
| "try_remove_right C t n s (RemCas r) =
     (if length (tb_remove s) \<le> unat (rd_buffer_index r) then (s, Fault Wild_Deref)
      else if tb_remove s ! unat (rd_buffer_index r) = rd_old_remove r \<and> even n
      then (s\<lparr>tb_remove := (tb_remove s)[unat (rd_buffer_index r) := add_next_aba (rd_result r) (rd_old_remove r) 1]\<rparr>,
        Next (RemData r))
      else (s, ts_fail r))"
| "try_remove_right C t n s (RemData r) = (s, case ti_at s (rd_result r) of
     None \<Rightarrow> Fault (fault_at (unat (rd_result r))) | Some item \<Rightarrow> ts_dequeue_loop (ti_data item) True)"
| "try_remove_right C t n s p = (s, Fault (Undefined ''try_remove_right''))"

fun tq_start :: "'a tq_op \<Rightarrow> ('a, 'ts) tq_pc" where
  "tq_start (TsEnqueue element) = InsAlloc element"
| "tq_start TsDequeue = RemTime"

fun tq_inserting :: "('a, 'ts) tq_pc \<Rightarrow> bool" where
  "tq_inserting (InsAlloc x) \<longleftrightarrow> True"
| "tq_inserting (InsLoad x a) \<longleftrightarrow> True"
| "tq_inserting (InsLink x a b) \<longleftrightarrow> True"
| "tq_inserting (InsStore x a) \<longleftrightarrow> True"
| "tq_inserting (InsStamp x a k) \<longleftrightarrow> True"
| "tq_inserting p \<longleftrightarrow> False"

definition tq_body :: "'ts ts_words \<Rightarrow> tid \<Rightarrow> nat \<Rightarrow> ('a :: zero, 'ts) tsb \<Rightarrow> ('a, 'ts) tq_pc \<Rightarrow> ('a, 'ts) tq_out" where
  "tq_body C t n s p = (if tq_inserting p then ts_enqueue C t n s p else try_remove_right C t n s p)"

definition tq_prog :: "'ts ts_words \<Rightarrow> (('a :: zero, 'ts) tsb, 'a tq_op, 'a tq_res, ('a, 'ts) tq_pc) prog" where
  "tq_prog C = \<lparr>start = tq_start, body = tq_body C\<rparr>"

lemma tq_prog_simps [simp]: "start (tq_prog C) = tq_start" "body (tq_prog C) = tq_body C"
  by (simp_all add: tq_prog_def)

section \<open>The lists of the threads\<close>

text \<open>
  The list of a thread runs from its remove pointer to the end; its first node is the last one
  removed, or the sentinel.
\<close>

definition ti_nx :: "('a, 'ts) ts_item \<Rightarrow> addr" where
  "ti_nx nd = unat (ti_next nd)"

definition tb_first :: "('a, 'ts) tsb \<Rightarrow> nat \<Rightarrow> addr" where
  "tb_first s j = unat (get_aba_free_pointer (tb_remove s ! j))"

definition tb_last :: "('a, 'ts) tsb \<Rightarrow> nat \<Rightarrow> addr" where
  "tb_last s j = unat (tb_insert s ! j)"

definition tb_nodes :: "('a, 'ts) tsb \<Rightarrow> nat \<Rightarrow> addr list" where
  "tb_nodes s j = the (chain ti_nx (tb_heap s) (tb_first s j))"

definition ti_value :: "('a, 'ts) ts_item heap \<Rightarrow> addr \<Rightarrow> 'a" where
  "ti_value h a = ti_data (the (h a))"

definition tb_threads :: "('a, 'ts) tsb \<Rightarrow> nat set" where
  "tb_threads s = {..<unat (tb_num_threads s)}"

definition tb_items :: "('a, 'ts) tsb \<Rightarrow> 'a multiset" where
  "tb_items s = (\<Sum>j \<in> tb_threads s. mset (map (ti_value (tb_heap s)) (List.tl (tb_nodes s j))))"

lemma finite_threads [simp]: "finite (tb_threads s)"
  by (simp add: tb_threads_def)

definition tb_shape :: "('a, 'ts) tsb \<Rightarrow> bool" where
  "tb_shape s \<longleftrightarrow> length (tb_insert s) = unat (tb_num_threads s) \<and> length (tb_remove s) = unat (tb_num_threads s) \<and>
     length (tb_check s) = unat (tb_num_threads s) \<and> (\<forall>row \<in> set (tb_check s). length row = unat (tb_num_threads s))"

definition tb_closed :: "('a, 'ts) ts_item heap \<Rightarrow> bool" where
  "tb_closed h \<longleftrightarrow> h NULL = None \<and>
     (\<forall>a nd. h a = Some nd \<longrightarrow> aligned (ti_next nd) \<and> (ti_next nd \<noteq> 0 \<longrightarrow> ti_nx nd \<in> dom h))"

definition tb_list :: "('a :: zero, 'ts) tsb \<Rightarrow> nat \<Rightarrow> addr list \<Rightarrow> bool" where
  "tb_list s j as \<longleftrightarrow> path ti_nx (tb_heap s) (tb_first s j) as NULL \<and> tb_last s j \<in> set as \<and>
     (\<forall>a \<in> set (List.tl as). ti_value (tb_heap s) a \<noteq> 0)"

definition tb_inv :: "('a :: zero, 'ts) tsb \<Rightarrow> bool" where
  "tb_inv s \<longleftrightarrow> tb_shape s \<and> tb_closed (tb_heap s) \<and> (\<forall>j \<in> tb_threads s. tb_list s j (tb_nodes s j)) \<and>
     (\<forall>j \<in> tb_threads s. \<forall>k \<in> tb_threads s. j \<noteq> k \<longrightarrow> set (tb_nodes s j) \<inter> set (tb_nodes s k) = {})"

lemma tb_nodes_eq: "tb_list s j as \<Longrightarrow> tb_closed (tb_heap s) \<Longrightarrow> tb_nodes s j = as"
  by (auto simp: tb_list_def tb_closed_def tb_nodes_def dest!: path_chain)

lemma tb_invI:
  assumes "tb_shape s" "tb_closed (tb_heap s)" "\<And>j. j \<in> tb_threads s \<Longrightarrow> tb_list s j (ns j)"
    and "\<And>j k. j \<in> tb_threads s \<Longrightarrow> k \<in> tb_threads s \<Longrightarrow> j \<noteq> k \<Longrightarrow> set (ns j) \<inter> set (ns k) = {}"
  shows "tb_inv s" "\<And>j. j \<in> tb_threads s \<Longrightarrow> tb_nodes s j = ns j"
proof -
  show e: "tb_nodes s j = ns j" if "j \<in> tb_threads s" for j
    using tb_nodes_eq [OF assms(3) [OF that] assms(2)] .
  show "tb_inv s" using assms by (simp add: tb_inv_def e)
qed

lemma tb_invD:
  assumes "tb_inv s"
  shows "tb_shape s" "tb_closed (tb_heap s)" "j \<in> tb_threads s \<Longrightarrow> tb_list s j (tb_nodes s j)"
    "j \<in> tb_threads s \<Longrightarrow> k \<in> tb_threads s \<Longrightarrow> j \<noteq> k \<Longrightarrow> set (tb_nodes s j) \<inter> set (tb_nodes s k) = {}"
  using assms by (simp_all add: tb_inv_def)

definition tb_linked :: "('a, 'ts) tsb \<Rightarrow> addr set" where
  "tb_linked s = (\<Union>j \<in> tb_threads s. set (tb_nodes s j))"

lemma tb_linked_dom: "tb_inv s \<Longrightarrow> tb_linked s \<subseteq> dom (tb_heap s)"
  using path_dom by (fastforce simp: tb_linked_def tb_inv_def tb_list_def)

text \<open>Changes that leave the lists alone: the successors and data of old nodes stay.\<close>

definition same_item :: "('a, 'ts) ts_item heap \<Rightarrow> ('a, 'ts) ts_item heap \<Rightarrow> addr \<Rightarrow> bool" where
  "same_item h h' a \<longleftrightarrow> map_option (\<lambda>nd. (ti_next nd, ti_data nd)) (h' a) = map_option (\<lambda>nd. (ti_next nd, ti_data nd)) (h a)"

lemma same_itemD:
  assumes "same_item h h' a" "h a = Some nd"
  obtains nd' where "h' a = Some nd'" "ti_next nd' = ti_next nd" "ti_data nd' = ti_data nd"
  using assms by (cases "h' a") (auto simp: same_item_def)

lemma same_item_value: "same_item h h' a \<Longrightarrow> a \<in> dom h \<Longrightarrow> ti_value h' a = ti_value h a"
  by (cases "h a"; cases "h' a") (auto simp: same_item_def ti_value_def)

lemma same_item_path:
  assumes "\<And>a. a \<in> set as \<Longrightarrow> same_item h h' a" "path ti_nx h a as b"
  shows "path ti_nx h' a as b"
  using assms
proof (induction as arbitrary: a)
  case (Cons x as)
  then obtain nd where nd: "a = x" "h x = Some nd" "path ti_nx h (ti_nx nd) as b" by (auto split: option.splits)
  have "same_item h h' x" using Cons.prems(1) by simp
  then obtain nd' where "h' x = Some nd'" "ti_nx nd' = ti_nx nd" using nd(2) by (rule same_itemD) (simp add: ti_nx_def)
  moreover have "path ti_nx h' (ti_nx nd) as b" by (rule Cons.IH) (use Cons.prems(1) nd(3) in auto)
  ultimately show ?case using nd(1) by simp
qed simp

lemma quiet_change:
  assumes "tb_inv s" "tb_shape s'" "tb_closed (tb_heap s')" "\<And>a. a \<in> tb_linked s \<Longrightarrow> same_item (tb_heap s) (tb_heap s') a"
    and "tb_num_threads s' = tb_num_threads s" "tb_remove s' = tb_remove s"
    and "\<And>j. j \<in> tb_threads s \<Longrightarrow> tb_last s' j \<in> set (tb_nodes s j)"
  shows "tb_inv s'" "j \<in> tb_threads s \<Longrightarrow> tb_nodes s' j = tb_nodes s j" "tb_linked s' = tb_linked s" "tb_items s' = tb_items s"
proof -
  have T: "tb_threads s' = tb_threads s" using assms(5) by (simp add: tb_threads_def)
  have k: "same_item (tb_heap s) (tb_heap s') a" "a \<in> dom (tb_heap s)" if "j \<in> tb_threads s" "a \<in> set (tb_nodes s j)" for j a
    using assms(4) [of a] that tb_linked_dom [OF assms(1)] by (auto simp: tb_linked_def)
  have v: "ti_value (tb_heap s') a = ti_value (tb_heap s) a" if "j \<in> tb_threads s" "a \<in> set (List.tl (tb_nodes s j))" for j a
  proof -
    have "a \<in> set (tb_nodes s j)" using that(2) by (cases "tb_nodes s j") auto
    from same_item_value [OF k [OF that(1) this]] show ?thesis .
  qed
  have L: "tb_list s' j (tb_nodes s j)" if "j \<in> tb_threads s'" for j
  proof -
    have j: "j \<in> tb_threads s" using that T by simp
    note l = tb_invD(3) [OF assms(1) j, unfolded tb_list_def]
    have "path ti_nx (tb_heap s') (tb_first s j) (tb_nodes s j) NULL"
      by (rule same_item_path [OF k(1) [OF j]]) (use l in simp_all)
    moreover have "tb_first s' j = tb_first s j" using assms(6) by (simp add: tb_first_def)
    ultimately show ?thesis using l assms(7) [OF j] v [OF j] by (simp add: tb_list_def)
  qed
  note I = tb_invI [OF assms(2,3) L, unfolded T, OF _ tb_invD(4) [OF assms(1)]]
  show "tb_inv s'" by (rule I(1)) simp_all
  show e: "tb_nodes s' j = tb_nodes s j" if "j \<in> tb_threads s" for j by (rule I(2)) (use that in simp_all)
  show "tb_linked s' = tb_linked s" by (simp add: tb_linked_def T e)
  show "tb_items s' = tb_items s"
    unfolding tb_items_def T by (rule sum.cong) (auto simp: e v intro!: image_mset_cong)
qed

lemma path_at_end:
  assumes "path ti_nx h a as NULL" "h NULL = None" "x \<in> set as" "h x = Some nd" "ti_nx nd = NULL"
  obtains bs where "as = bs @ [x]"
proof -
  obtain bs cs where as: "as = bs @ x # cs" using assms(3) by (auto simp: in_set_conv_decomp)
  then have "path ti_nx h NULL cs NULL" using assms(1,4,5) by (auto simp: path_append)
  then have "cs = []" using assms(2) by (cases cs) auto
  then show thesis using that as by simp
qed

lemma path_next_in:
  assumes "path ti_nx h a as NULL" "x \<in> set as" "h x = Some nd" "ti_nx nd \<noteq> NULL"
  shows "ti_nx nd \<in> set as"
proof -
  obtain bs cs where as: "as = bs @ x # cs" using assms(2) by (auto simp: in_set_conv_decomp)
  then have "path ti_nx h (ti_nx nd) cs NULL" using assms(1,3) by (auto simp: path_append)
  then show ?thesis using assms(4) as by (cases cs) auto
qed

lemma unat_inj [simp]: "unat (v :: u64) = unat w \<longleftrightarrow> v = w"
  by (simp add: word_unat_eq_iff)

lemma unat_NULL [simp]: "unat (w :: u64) = NULL \<longleftrightarrow> w = 0"
  using unat_inj [of w 0] by simp

text \<open>The step that links an item at the end of the list of thread j.\<close>

lemma ts_link_change:
  assumes "tb_inv s" "j \<in> tb_threads s" "ti_at s (tb_insert s ! j) = Some nd" "ti_next nd = 0"
    and "ti_at s i = Some nd'" "ti_next nd' = 0" "ti_data nd' \<noteq> 0" "i \<noteq> 0" "aligned i" "unat i \<notin> tb_linked s"
  defines "s' \<equiv> ti_put s (tb_insert s ! j) (nd\<lparr>ti_next := i\<rparr>)"
  shows "tb_inv s'" "k \<in> tb_threads s \<Longrightarrow> tb_nodes s' k = (if k = j then tb_nodes s j @ [unat i] else tb_nodes s k)"
    "tb_linked s' = insert (unat i) (tb_linked s)" "tb_items s' = tb_items s + {#ti_data nd'#}"
proof -
  let ?l = "tb_last s j"
  let ?ns = "\<lambda>k. if k = j then tb_nodes s j @ [unat i] else tb_nodes s k"
  have h: "tb_heap s' = (tb_heap s)(?l \<mapsto> nd\<lparr>ti_next := i\<rparr>)" by (simp add: s'_def ti_put_def tb_last_def)
  have T: "tb_threads s' = tb_threads s" by (simp add: s'_def ti_put_def tb_threads_def)
  note c = tb_invD(2) [OF assms(1)]
  have L: "path ti_nx (tb_heap s) (tb_first s k) (tb_nodes s k) NULL" "tb_last s k \<in> set (tb_nodes s k)"
    "\<forall>a \<in> set (List.tl (tb_nodes s k)). ti_value (tb_heap s) a \<noteq> 0" if "k \<in> tb_threads s" for k
    using tb_invD(3) [OF assms(1) that] by (simp_all add: tb_list_def)
  have l: "tb_heap s ?l = Some nd" "ti_nx nd = NULL" using assms(3,4) by (simp_all add: ti_at_def tb_last_def ti_nx_def)
  have n: "tb_heap s NULL = None" using c by (simp add: tb_closed_def)
  obtain bs where bs: "tb_nodes s j = bs @ [?l]" using path_at_end [OF L(1) [OF assms(2)] n L(2) [OF assms(2)] l] .
  have i: "unat i \<noteq> ?l" using L(2) [OF assms(2)] assms(2,10) by (auto simp: tb_linked_def)
  have d: "distinct (tb_nodes s j)" using path_distinct [OF L(1) [OF assms(2)] n] .
  have other: "?l \<notin> set (tb_nodes s k)" if "k \<in> tb_threads s" "k \<noteq> j" for k
    using tb_invD(4) [OF assms(1) assms(2) that(1)] L(2) [OF assms(2)] that(2) by auto
  have pj: "path ti_nx (tb_heap s') (tb_first s j) (tb_nodes s j @ [unat i]) NULL"
  proof -
    have "path ti_nx (tb_heap s) (tb_first s j) bs ?l" using L(1) [OF assms(2)] l(1) by (auto simp: bs path_append)
    then have "path ti_nx (tb_heap s') (tb_first s j) bs ?l" using d by (simp add: h bs path_upd)
    then show ?thesis using i assms(5,6) by (simp add: bs path_append h ti_nx_def ti_at_def)
  qed
  have v: "ti_value (tb_heap s') = ti_value (tb_heap s)" using l(1) by (simp add: fun_eq_iff h ti_value_def)
  have vi: "ti_value (tb_heap s) (unat i) = ti_data nd'" using assms(5) by (simp add: ti_value_def ti_at_def)
  have f: "tb_first s' k = tb_first s k" "tb_last s' k = tb_last s k" for k
    by (simp_all add: s'_def ti_put_def tb_first_def tb_last_def)
  have LL: "tb_list s' k (?ns k)" if "k \<in> tb_threads s'" for k
  proof (cases "k = j")
    case True
    have "set (List.tl (tb_nodes s j @ [unat i])) = insert (unat i) (set (List.tl (tb_nodes s j)))"
      unfolding bs by (cases bs) auto
    then show ?thesis using True pj L [OF assms(2)] assms(7) vi by (auto simp: tb_list_def v f)
  next
    case False
    have k: "k \<in> tb_threads s" using that T by simp
    show ?thesis using False L [OF k] other [OF k False] by (simp add: tb_list_def v f) (simp add: h path_upd)
  qed
  have sh: "tb_shape s'" using tb_invD(1) [OF assms(1)] by (simp add: tb_shape_def s'_def ti_put_def)
  have l0: "?l \<noteq> NULL" using n l(1) by (cases "?l = NULL") auto
  have cl: "tb_closed (tb_heap s')"
    using c assms(5,9) n l(1) l0 unfolding tb_closed_def h by (auto simp: ti_nx_def ti_at_def)
  have dj: "set (?ns a) \<inter> set (?ns b) = {}" if "a \<in> tb_threads s'" "b \<in> tb_threads s'" "a \<noteq> b" for a b
    using tb_invD(4) [OF assms(1), of a b] that assms(10) by (auto simp: T tb_linked_def)
  note I = tb_invI [OF sh cl LL dj]
  show "tb_inv s'" by (rule I(1)) simp_all
  show e: "tb_nodes s' k = ?ns k" if "k \<in> tb_threads s" for k by (rule I(2)) (use that T in simp_all)
  show "tb_linked s' = insert (unat i) (tb_linked s)"
    using assms(2) by (auto simp: tb_linked_def T e split: if_splits)
  have "tb_items s' = (\<Sum>k \<in> tb_threads s. mset (map (ti_value (tb_heap s)) (List.tl (((tb_nodes s)(j := ?ns j)) k))))"
    unfolding tb_items_def T by (rule sum.cong) (simp_all add: e v)
  also have "\<dots> = tb_items s + {#ti_data nd'#}"
    unfolding tb_items_def
    using sum_upd [OF finite_threads assms(2), of "\<lambda>as. mset (map (ti_value (tb_heap s)) (List.tl as))" "tb_nodes s" "?ns j"]
      sum_at [OF finite_threads assms(2), of "\<lambda>as. mset (map (ti_value (tb_heap s)) (List.tl as))" "tb_nodes s"] bs vi
    by (cases bs) simp_all
  finally show "tb_items s' = tb_items s + {#ti_data nd'#}" .
qed

text \<open>The compare-and-swap that takes the first item of the list of thread j.\<close>

lemma remove_change:
  assumes "tb_inv s" "j \<in> tb_threads s" "ti_at s (get_aba_free_pointer (tb_remove s ! j)) = Some nd" "ti_next nd = r" "r \<noteq> 0"
    and "get_aba_free_pointer (tb_remove s ! j) \<noteq> tb_insert s ! j"
    and "s' = s\<lparr>tb_remove := (tb_remove s)[j := add_next_aba r w inc]\<rparr>"
  shows "tb_inv s'" "tb_linked s' \<subseteq> tb_linked s" "tb_items s = tb_items s' + {#ti_value (tb_heap s) (unat r)#}"
    "ti_value (tb_heap s) (unat r) \<noteq> 0" "unat r \<in> dom (tb_heap s)"
proof -
  let ?ns = "(tb_nodes s)(j := List.tl (tb_nodes s j))"
  have T: "tb_threads s' = tb_threads s" by (simp add: assms(7) tb_threads_def)
  note sh = tb_invD(1) [OF assms(1)] and c = tb_invD(2) [OF assms(1)]
  have L: "path ti_nx (tb_heap s) (tb_first s k) (tb_nodes s k) NULL" "tb_last s k \<in> set (tb_nodes s k)"
    "\<forall>a \<in> set (List.tl (tb_nodes s k)). ti_value (tb_heap s) a \<noteq> 0" if "k \<in> tb_threads s" for k
    using tb_invD(3) [OF assms(1) that] by (simp_all add: tb_list_def)
  have hd: "tb_heap s (tb_first s j) = Some nd" "ti_nx nd = unat r"
    using assms(3,4) by (simp_all add: ti_at_def tb_first_def ti_nx_def)
  obtain as where as: "tb_nodes s j = tb_first s j # as" "path ti_nx (tb_heap s) (unat r) as NULL"
    using L(1,2) [OF assms(2)] hd by (cases "tb_nodes s j") auto
  obtain bs where bs: "as = unat r # bs" using as(2) assms(5) by (cases as) auto
  have al: "aligned r" using c hd(1) assms(4) by (auto simp: tb_closed_def)
  have j: "j < length (tb_remove s)" using sh assms(2) by (simp add: tb_shape_def tb_threads_def)
  have last: "tb_last s j \<in> set as" using L(2) [OF assms(2)] as(1) assms(6) by (auto simp: tb_last_def tb_first_def)
  have f: "tb_first s' k = (if k = j then unat r else tb_first s k)" "tb_last s' k = tb_last s k" for k
    using j al by (auto simp: assms(7) tb_first_def tb_last_def nth_list_update)
  have h: "tb_heap s' = tb_heap s" by (simp add: assms(7))
  have LL: "tb_list s' k (?ns k)" if "k \<in> tb_threads s'" for k
  proof (cases "k = j")
    case True
    then show ?thesis using as bs last L(3) [OF assms(2)] by (simp add: tb_list_def f h)
  next
    case False
    then show ?thesis using L [of k] that T by (simp add: tb_list_def f h)
  qed
  have sh': "tb_shape s'" using sh by (simp add: tb_shape_def assms(7))
  have sub: "set (?ns k) \<subseteq> set (tb_nodes s k)" for k by (cases "tb_nodes s j") auto
  have dj: "set (?ns a) \<inter> set (?ns b) = {}" if "a \<in> tb_threads s'" "b \<in> tb_threads s'" "a \<noteq> b" for a b
    using tb_invD(4) [OF assms(1), of a b] that sub [of a] sub [of b] T by blast
  note I = tb_invI [OF sh' _ LL dj]
  show "tb_inv s'" by (rule I(1)) (use c h in simp_all)
  have e: "tb_nodes s' k = ?ns k" if "k \<in> tb_threads s" for k by (rule I(2)) (use that T c h in simp_all)
  show "tb_linked s' \<subseteq> tb_linked s" using sub by (auto simp: tb_linked_def T e split: if_splits)
  have "tb_items s' = (\<Sum>k \<in> tb_threads s. mset (map (ti_value (tb_heap s)) (List.tl (?ns k))))"
    unfolding tb_items_def T by (rule sum.cong) (simp_all add: e h)
  then show "tb_items s = tb_items s' + {#ti_value (tb_heap s) (unat r)#}"
    unfolding tb_items_def
    using sum_upd [OF finite_threads assms(2), of "\<lambda>as. mset (map (ti_value (tb_heap s)) (List.tl as))" "tb_nodes s" "?ns j"]
      sum_at [OF finite_threads assms(2), of "\<lambda>as. mset (map (ti_value (tb_heap s)) (List.tl as))" "tb_nodes s"] as(1) bs
    by simp
  show "ti_value (tb_heap s) (unat r) \<noteq> 0" using L(3) [OF assms(2)] as(1) bs by simp
  show "unat r \<in> dom (tb_heap s)" using path_dom [OF as(2)] bs by simp
qed

section \<open>Assertions\<close>

definition nxt :: "('a, 'ts) tsb \<Rightarrow> u64 \<Rightarrow> u64 option" where
  "nxt s w = map_option ti_next (ti_at s w)"

text \<open>The end of the list of a thread, which only the thread itself changes.\<close>

definition tb_tail :: "('a, 'ts) tsb \<Rightarrow> nat \<Rightarrow> u64 \<times> u64 option \<times> u64 option" where
  "tb_tail s t = (tb_insert s ! t, nxt s (tb_insert s ! t), Option.bind (nxt s (tb_insert s ! t)) (nxt s))"

definition at_rest :: "('a, 'ts) tsb \<Rightarrow> nat \<Rightarrow> bool" where
  "at_rest s t \<longleftrightarrow> t \<in> tb_threads s \<and> nxt s (tb_insert s ! t) = Some 0"

definition fresh_item :: "('a, 'ts) tsb \<Rightarrow> 'a \<Rightarrow> u64 \<Rightarrow> bool" where
  "fresh_item s x i \<longleftrightarrow> i \<noteq> 0 \<and> aligned i \<and> nxt s i = Some 0 \<and> map_option ti_data (ti_at s i) = Some x"

text \<open>A remove pointer w of buffer j that had a successor inside of the list when it was read.\<close>

definition got_head :: "('a, 'ts) tsb \<Rightarrow> nat \<Rightarrow> u64 \<Rightarrow> u64 \<Rightarrow> bool" where
  "got_head s j w item \<longleftrightarrow> j \<in> tb_threads s \<and> item \<noteq> 0 \<and> nxt s (get_aba_free_pointer w) = Some item \<and>
     ti_at s item \<noteq> None \<and> get_aba_free_pointer w \<noteq> tb_insert s ! j"

definition round_ok :: "('a, 'ts) tsb \<Rightarrow> 'ts tq_round \<Rightarrow> bool" where
  "round_ok s r \<longleftrightarrow> (rd_result r \<noteq> 0 \<longrightarrow> got_head s (unat (rd_buffer_index r)) (rd_old_remove r) (rd_result r))"

definition visits :: "('a, 'ts) tsb \<Rightarrow> 'ts tq_round \<Rightarrow> u64 \<Rightarrow> bool" where
  "visits s r w \<longleftrightarrow> unat (tmp_buffer_index s r) \<in> tb_threads s \<and> ti_at s (get_aba_free_pointer w) \<noteq> None"

fun tq_pinv :: "('a :: zero, 'ts) tsb \<Rightarrow> tid \<Rightarrow> 'a tq_op \<Rightarrow> ('a, 'ts) tq_pc \<Rightarrow> bool" where
  "tq_pinv s t op (InsAlloc x) \<longleftrightarrow> op = TsEnqueue x \<and> x \<noteq> 0 \<and> at_rest s t"
| "tq_pinv s t op (InsLoad x i) \<longleftrightarrow> op = TsEnqueue x \<and> x \<noteq> 0 \<and> at_rest s t \<and> fresh_item s x i"
| "tq_pinv s t op (InsLink x i w) \<longleftrightarrow> op = TsEnqueue x \<and> x \<noteq> 0 \<and> at_rest s t \<and> fresh_item s x i \<and> w = tb_insert s ! t"
| "tq_pinv s t op (InsStore x i) \<longleftrightarrow> op = TsEnqueue x \<and> t \<in> tb_threads s \<and> i \<noteq> 0 \<and>
     nxt s (tb_insert s ! t) = Some i \<and> nxt s i = Some 0"
| "tq_pinv s t op (InsStamp x i k) \<longleftrightarrow> op = TsEnqueue x \<and> at_rest s t \<and> ti_at s i \<noteq> None"
| "tq_pinv s t op RemTime \<longleftrightarrow> op = TsDequeue \<and> at_rest s t"
| "tq_pinv s t op (RemRandom ts) \<longleftrightarrow> op = TsDequeue \<and> at_rest s t"
| "tq_pinv s t op (RemLoop r) \<longleftrightarrow> op = TsDequeue \<and> at_rest s t \<and> round_ok s r"
| "tq_pinv s t op (RemInsert r w) \<longleftrightarrow> op = TsDequeue \<and> at_rest s t \<and> round_ok s r \<and> visits s r w \<and>
     (nxt s (get_aba_free_pointer w) = Some 0 \<longrightarrow> get_aba_free_pointer w = tb_insert s ! unat (tmp_buffer_index s r))"
| "tq_pinv s t op (RemNext r w ins) \<longleftrightarrow> op = TsDequeue \<and> at_rest s t \<and> round_ok s r \<and> visits s r w \<and>
     (get_aba_free_pointer w \<noteq> ins \<longrightarrow> nxt s (get_aba_free_pointer w) \<noteq> Some 0 \<and>
        get_aba_free_pointer w \<noteq> tb_insert s ! unat (tmp_buffer_index s r))"
| "tq_pinv s t op (RemStamp r w i k ts) \<longleftrightarrow> op = TsDequeue \<and> at_rest s t \<and> round_ok s r \<and>
     got_head s (unat (tmp_buffer_index s r)) w i"
| "tq_pinv s t op (RemCheck r) \<longleftrightarrow> op = TsDequeue \<and> at_rest s t \<and> round_ok s r \<and> rd_result r \<noteq> 0"
| "tq_pinv s t op (RemCas r) \<longleftrightarrow> op = TsDequeue \<and> at_rest s t \<and> round_ok s r \<and> rd_result r \<noteq> 0"
| "tq_pinv s t op (RemData r) \<longleftrightarrow> op = TsDequeue \<and> at_rest s t \<and>
     (\<exists>x. map_option ti_data (ti_at s (rd_result r)) = Some x \<and> x \<noteq> 0)"

fun tq_own :: "('a, 'ts) tq_pc \<Rightarrow> (addr + tid) set" where
  "tq_own (InsLoad x i) = {Inl (unat i)}"
| "tq_own (InsLink x i w) = {Inl (unat i)}"
| "tq_own p = {}"

definition tb_used :: "('a, 'ts) tsb \<Rightarrow> (addr + tid) set" where
  "tb_used s = Inl ` dom (tb_heap s) \<union> range Inr"

definition tb_common :: "('a, 'ts) tsb \<Rightarrow> (addr + tid) set" where
  "tb_common s = Inl ` tb_linked s"

text \<open>
  What the others do: nodes stay, with their data and with their successor once they have one;
  an insert pointer moves on to a node without a successor only when the old one has one.
\<close>

definition tq_rely :: "(addr + tid) set \<Rightarrow> (addr + tid) set \<Rightarrow> ('a, 'ts) tsb \<Rightarrow> ('a, 'ts) tsb \<Rightarrow> bool" where
  "tq_rely A B s s' \<longleftrightarrow> tb_num_threads s' = tb_num_threads s \<and>
     (\<forall>w nd. ti_at s w = Some nd \<longrightarrow> (\<exists>nd'. ti_at s' w = Some nd' \<and> ti_data nd' = ti_data nd \<and>
        (ti_next nd \<noteq> 0 \<longrightarrow> ti_next nd' = ti_next nd))) \<and>
     (\<forall>w. Inl (unat w) \<in> A \<longrightarrow> nxt s' w = nxt s w) \<and>
     (\<forall>u \<in> tb_threads s. Inr u \<in> A \<longrightarrow> tb_tail s' u = tb_tail s u) \<and>
     (\<forall>j \<in> tb_threads s. tb_insert s' ! j = tb_insert s ! j \<or>
        nxt s' (tb_insert s ! j) \<noteq> Some 0 \<and> nxt s (tb_insert s' ! j) = Some 0)"

lemma tq_relyD:
  assumes "tq_rely A B s s'"
  shows "tb_threads s' = tb_threads s" "tb_num_threads s' = tb_num_threads s"
    "ti_at s w \<noteq> None \<Longrightarrow> ti_at s' w \<noteq> None"
    "nxt s w = Some i \<Longrightarrow> i \<noteq> 0 \<Longrightarrow> nxt s' w = Some i"
    "map_option ti_data (ti_at s w) = Some x \<Longrightarrow> map_option ti_data (ti_at s' w) = Some x"
    "Inl (unat w) \<in> A \<Longrightarrow> nxt s' w = nxt s w"
    "u \<in> tb_threads s \<Longrightarrow> Inr u \<in> A \<Longrightarrow> tb_tail s' u = tb_tail s u"
    "j \<in> tb_threads s \<Longrightarrow> tb_insert s' ! j = tb_insert s ! j \<or>
       nxt s' (tb_insert s ! j) \<noteq> Some 0 \<and> nxt s (tb_insert s' ! j) = Some 0"
proof -
  note R = assms [unfolded tq_rely_def]
  show "tb_threads s' = tb_threads s" using R by (simp add: tb_threads_def)
  have n: "\<exists>nd'. ti_at s' w = Some nd' \<and> ti_data nd' = ti_data nd \<and> (ti_next nd \<noteq> 0 \<longrightarrow> ti_next nd' = ti_next nd)"
    if "ti_at s w = Some nd" for w nd using R that by blast
  show "ti_at s w \<noteq> None \<Longrightarrow> ti_at s' w \<noteq> None" using n [of w] by (cases "ti_at s w") auto
  show "nxt s w = Some i \<Longrightarrow> i \<noteq> 0 \<Longrightarrow> nxt s' w = Some i" using n [of w] by (cases "ti_at s w") (auto simp: nxt_def)
  show "map_option ti_data (ti_at s w) = Some x \<Longrightarrow> map_option ti_data (ti_at s' w) = Some x"
    using n [of w] by (cases "ti_at s w") auto
qed (use assms in \<open>auto simp: tq_rely_def\<close>)

lemma at_rest_tail: "tb_tail s' t = tb_tail s t \<Longrightarrow> tb_threads s' = tb_threads s \<Longrightarrow> at_rest s t \<Longrightarrow> at_rest s' t"
  by (auto simp: at_rest_def tb_tail_def)

lemma got_head_stable:
  assumes "tq_rely A B s s'" "got_head s j w i"
  shows "got_head s' j w i"
proof -
  note R = tq_relyD [OF assms(1)]
  have g: "j \<in> tb_threads s" "i \<noteq> 0" "nxt s (get_aba_free_pointer w) = Some i" "ti_at s i \<noteq> None"
    "get_aba_free_pointer w \<noteq> tb_insert s ! j" using assms(2) by (simp_all add: got_head_def)
  have "get_aba_free_pointer w \<noteq> tb_insert s' ! j"
    using R(8) [OF g(1)] g(2,3,5) by auto
  then show ?thesis using g R(1) R(3) [OF g(4)] R(4) [OF g(3,2)] by (simp add: got_head_def)
qed

lemma round_ok_stable: "tq_rely A B s s' \<Longrightarrow> round_ok s r \<Longrightarrow> round_ok s' r"
  using got_head_stable by (auto simp: round_ok_def)

lemma index_stable: "tq_rely A B s s' \<Longrightarrow> tmp_buffer_index s' r = tmp_buffer_index s r"
  by (simp add: tmp_buffer_index_def tq_rely_def)

lemma visits_stable: "tq_rely A B s s' \<Longrightarrow> visits s r w \<Longrightarrow> visits s' r w"
  using tq_relyD(1,3) [of A B s s'] by (simp add: visits_def index_stable)

lemma nxt_defined: "nxt s w = None \<longleftrightarrow> ti_at s w = None"
  by (simp add: nxt_def)

lemma tq_stable:
  assumes "tq_rely ({Inr t} \<union> tq_own p) B s s'" "tq_pinv s t op p"
  shows "tq_pinv s' t op p"
proof -
  note R = tq_relyD [OF assms(1)]
  have "t \<in> tb_threads s" using assms(2) by (cases p) (simp_all add: at_rest_def)
  then have tl: "tb_tail s' t = tb_tail s t" by (rule R(7)) simp
  note st = at_rest_tail [OF tl R(1)] round_ok_stable [OF assms(1)] got_head_stable [OF assms(1)] visits_stable [OF assms(1)]
  have ix: "tmp_buffer_index s' r = tmp_buffer_index s r" for r by (rule index_stable [OF assms(1)])
  have own: "fresh_item s' x i" if "fresh_item s x i" "Inl (unat i) \<in> {Inr t} \<union> tq_own p" for x i
    using R(6) [OF that(2)] R(5) [of i x] that(1) by (simp add: fresh_item_def)
  have keep: "nxt s' w \<noteq> Some 0" if "nxt s w \<noteq> Some 0" "ti_at s w \<noteq> None" for w
    using R(4) [of w] that by (cases "nxt s w") (auto simp: nxt_defined)
  show ?thesis
  proof (cases p)
    case (InsLoad x i)
    then show ?thesis using assms(2) st(1) own [of x i] by simp
  next
    case (InsLink x i w)
    then show ?thesis using assms(2) st(1) own [of x i] tl by (simp add: tb_tail_def)
  next
    case (InsStore x i)
    then have "tb_tail s t = (tb_insert s ! t, Some i, Some 0)" using assms(2) by (simp add: tb_tail_def)
    then have "tb_tail s' t = (tb_insert s ! t, Some i, Some 0)" using tl by simp
    then show ?thesis using assms(2) InsStore R(1) by (auto simp: tb_tail_def)
  next
    case (RemInsert r w)
    let ?g = "get_aba_free_pointer w" and ?j = "unat (tmp_buffer_index s r)"
    have v: "visits s r w" "at_rest s t" "round_ok s r" "op = TsDequeue" "nxt s ?g = Some 0 \<longrightarrow> ?g = tb_insert s ! ?j"
      using assms(2) RemInsert by simp_all
    have "?g = tb_insert s' ! ?j" if "nxt s' ?g = Some 0"
    proof -
      have "nxt s ?g = Some 0" using keep [of ?g] that v(1) by (auto simp: visits_def)
      then show ?thesis using v(5) R(8) [of ?j] v(1) that by (auto simp: visits_def)
    qed
    then show ?thesis using RemInsert v st by (simp add: ix)
  next
    case (RemNext r w ins)
    let ?g = "get_aba_free_pointer w" and ?j = "unat (tmp_buffer_index s r)"
    have v: "visits s r w" "at_rest s t" "round_ok s r" "op = TsDequeue"
      "?g \<noteq> ins \<longrightarrow> nxt s ?g \<noteq> Some 0 \<and> ?g \<noteq> tb_insert s ! ?j"
      using assms(2) RemNext by simp_all
    have "nxt s' ?g \<noteq> Some 0 \<and> ?g \<noteq> tb_insert s' ! ?j" if "?g \<noteq> ins"
      using v(1,5) that keep [of ?g] R(8) [of ?j] by (auto simp: visits_def)
    then show ?thesis using RemNext v st by (simp add: ix)
  next
    case (InsStamp x i k)
    then show ?thesis using assms(2) st(1) R(3) by simp
  next
    case (RemStamp r w i k ts)
    then show ?thesis using assms(2) st by (simp add: ix)
  next
    case (RemData r)
    then obtain x where x: "map_option ti_data (ti_at s (rd_result r)) = Some x" "x \<noteq> 0" "op = TsDequeue" "at_rest s t"
      using assms(2) by auto
    from R(5) [OF x(1)] show ?thesis using RemData st(1) x(2-4) by auto
  qed (use assms(2) st in auto)
qed

section \<open>The steps\<close>

lemma ts_fail_next [simp]: "ts_fail r \<noteq> Next (RemData q)" "ts_fail r \<noteq> Next (InsStore x i)"
  by (simp_all add: ts_fail_def ts_dequeue_loop_def)

text \<open>What a step does to the shared state, with the facts that the assertions give there.\<close>

lemma tq_cases [consumes 4, case_names same alloc link store stamp remove]:
  assumes "tb_inv s" "tq_pinv s t op p" "tq_own p \<inter> tb_common s = {}" "tq_body C t n s p = (s', out)"
  obtains
    (same) c where "s' = s\<lparr>tb_check := c\<rparr>" "tb_shape s'" "tq_own p = {} \<or> (\<exists>x i. p = InsLoad x i \<and> out = Next (InsLink x i (tb_insert s ! t)))"
      "\<And>x i w. p \<noteq> InsLink x i w" "\<And>x i. p \<noteq> InsStore x i" "\<And>r. out \<noteq> Next (RemData r)" "\<And>x i. out \<noteq> Next (InsStore x i)"
      "\<And>x. p = InsAlloc x \<Longrightarrow> out = Next p"
  | (alloc) x where "p = InsAlloc x" "out = Next (InsLoad x (of_nat n))" "ts_alloc_ok s n"
      "s' = ti_put s (of_nat n) \<lparr>ti_next = 0, ti_data = x, ti_stamp = init_top (tw_class C)\<rparr>"
  | (link) x i nd nd' where "p = InsLink x i (tb_insert s ! t)" "out = Next (InsStore x i)" "t \<in> tb_threads s"
      "ti_at s (tb_insert s ! t) = Some nd" "ti_next nd = 0" "ti_at s i = Some nd'" "ti_next nd' = 0" "ti_data nd' = x" "x \<noteq> 0"
      "i \<noteq> 0" "aligned i" "unat i \<notin> tb_linked s" "s' = ti_put s (tb_insert s ! t) (nd\<lparr>ti_next := i\<rparr>)"
  | (store) x i where "p = InsStore x i" "out = Next (InsStamp x i 0)" "t \<in> tb_threads s" "i \<noteq> 0"
      "nxt s (tb_insert s ! t) = Some i" "nxt s i = Some 0" "s' = s\<lparr>tb_insert := (tb_insert s)[t := i]\<rparr>"
  | (stamp) x i k nd where "p = InsStamp x i k" "out = Next (InsStamp x i (k + 1))" "ti_at s i = Some nd"
      "s' = ti_put s i (nd\<lparr>ti_stamp := (tw_stores C ! k) (of_nat n) (ti_stamp nd)\<rparr>)"
  | (remove) r nd where "p = RemCas r" "out = Next (RemData r)" "unat (rd_buffer_index r) \<in> tb_threads s"
      "ti_at s (get_aba_free_pointer (tb_remove s ! unat (rd_buffer_index r))) = Some nd" "ti_next nd = rd_result r" "rd_result r \<noteq> 0"
      "get_aba_free_pointer (tb_remove s ! unat (rd_buffer_index r)) \<noteq> tb_insert s ! unat (rd_buffer_index r)"
      "s' = s\<lparr>tb_remove := (tb_remove s)[unat (rd_buffer_index r) := add_next_aba (rd_result r) (rd_old_remove r) 1]\<rparr>"
proof -
  note b = assms(4)[unfolded tq_body_def]
  have sh: "tb_shape s" using tb_invD(1) [OF assms(1)] .
  have len: "length (tb_remove s) = unat (tb_num_threads s)" "length (tb_insert s) = unat (tb_num_threads s)"
    using sh by (simp_all add: tb_shape_def)
  have eq: "s = s\<lparr>tb_check := tb_check s\<rparr>" by simp
  have still: thesis if "s' = s" "tq_own p = {} \<or> (\<exists>x i. p = InsLoad x i \<and> out = Next (InsLink x i (tb_insert s ! t)))"
      "\<And>x i w. p \<noteq> InsLink x i w" "\<And>x i. p \<noteq> InsStore x i" "\<And>r. out \<noteq> Next (RemData r)" "\<And>x i. out \<noteq> Next (InsStore x i)"
      "\<And>x. p = InsAlloc x \<Longrightarrow> out = Next p"
    by (rule same [of "tb_check s"]) (use that sh in simp_all)
  show thesis
  proof (cases p)
    case (InsAlloc x)
    show thesis
    proof (cases "ts_alloc_ok s n")
      case True
      show thesis by (rule alloc [of x]) (use b InsAlloc True in auto)
    next
      case False
      show thesis by (rule still) (use b InsAlloc False in auto)
    qed
  next
    case (InsLoad x i)
    have "t < length (tb_insert s)" using assms(2) InsLoad len by (simp add: at_rest_def tb_threads_def)
    then show thesis by (intro still) (use b InsLoad in auto)
  next
    case (InsLink x i w)
    then have p: "x \<noteq> 0" "t \<in> tb_threads s" "nxt s (tb_insert s ! t) = Some 0" "fresh_item s x i" "w = tb_insert s ! t"
      using assms(2) by (simp_all add: at_rest_def)
    then obtain nd nd' where "ti_at s w = Some nd" "ti_next nd = 0" "ti_at s i = Some nd'" "ti_next nd' = 0" "ti_data nd' = x"
      by (auto simp: nxt_def fresh_item_def)
    then show thesis
      by (intro link [of x i nd nd']) (use b InsLink p assms(3) in \<open>auto simp: tb_common_def fresh_item_def\<close>)
  next
    case (InsStore x i)
    show thesis by (rule store [of x i]) (use b InsStore assms(2) in auto)
  next
    case (InsStamp x i k)
    then obtain nd where nd: "ti_at s i = Some nd" using assms(2) by auto
    show thesis
    proof (cases "k < length (tw_stores C)")
      case True
      show thesis by (rule stamp [of x i k nd]) (use b InsStamp nd True in auto)
    next
      case False
      show thesis by (rule still) (use b InsStamp False in auto)
    qed
  next
    case (RemNext r w ins)
    have v: "unat (tmp_buffer_index s r) < unat (tb_num_threads s)" "t < unat (tb_num_threads s)"
      using assms(2) RemNext by (simp_all add: visits_def at_rest_def tb_threads_def)
    show thesis
    proof (cases "s' = s")
      case True
      show thesis by (rule still) (use b RemNext True in \<open>auto simp: Let_def split: option.splits if_splits\<close>)
    next
      case False
      then have s': "s' = s\<lparr>tb_check := (tb_check s)[t := (tb_check s ! t)[unat (tmp_buffer_index s r) := w]]\<rparr>"
        and o: "\<exists>q. out = Next (RemLoop q)"
        using b RemNext by (auto simp: Let_def split: option.splits if_splits)
      have "tb_shape s'" unfolding s' using sh v(2)
        by (auto simp: tb_shape_def dest!: set_update_subset_insert [THEN subsetD])
      then show thesis using s' o RemNext by (intro same) auto
    qed
  next
    case (RemCas r)
    then have g: "got_head s (unat (rd_buffer_index r)) (rd_old_remove r) (rd_result r)" using assms(2) by (simp add: round_ok_def)
    then have i: "unat (rd_buffer_index r) < length (tb_remove s)" using len by (simp add: got_head_def tb_threads_def)
    show thesis
    proof (cases "tb_remove s ! unat (rd_buffer_index r) = rd_old_remove r \<and> even n")
      case True
      obtain nd where "ti_at s (get_aba_free_pointer (rd_old_remove r)) = Some nd" "ti_next nd = rd_result r"
        using g by (auto simp: got_head_def nxt_def)
      then show thesis by (intro remove [of r nd]) (use b RemCas True i g in \<open>auto simp: got_head_def\<close>)
    next
      case False
      show thesis by (rule still) (use b RemCas False i in \<open>auto split: if_splits\<close>)
    qed
  next
    case (RemData r)
    show thesis by (rule still) (use b RemData in \<open>auto simp: ts_dequeue_loop_def split: option.splits if_splits\<close>)
  next
    case (RemLoop r)
    show thesis by (rule still) (use b RemLoop in \<open>auto split: if_splits\<close>)
  next
    case (RemStamp r w i k ts)
    show thesis by (rule still) (use b RemStamp in \<open>auto split: if_splits option.splits\<close>)
  next
    case (RemCheck r)
    show thesis by (rule still) (use b RemCheck in \<open>auto split: if_splits\<close>)
  qed (rule still; use b in \<open>auto split: if_splits\<close>)+
qed

lemma ts_alloc_change:
  assumes "tb_inv s" "ts_alloc_ok s n" "ti_next nd = 0"
  defines "s' \<equiv> ti_put s (of_nat n) nd"
  shows "tb_inv s'" "tb_linked s' = tb_linked s" "tb_items s' = tb_items s" "tb_heap s' = (tb_heap s)(n \<mapsto> nd)"
    "n \<notin> tb_linked s" "ti_at s (of_nat n) = None" "unat (of_nat n :: u64) = n"
proof -
  have n: "tb_heap s n = None" "n \<noteq> NULL"
    using assms(2) by (simp_all add: ts_alloc_ok_def is_fresh_def)
  show u: "unat (of_nat n :: u64) = n" using assms(2) unfolding ts_alloc_ok_def by blast
  show h: "tb_heap s' = (tb_heap s)(n \<mapsto> nd)" by (simp add: s'_def ti_put_def u)
  show l: "n \<notin> tb_linked s" using tb_linked_dom [OF assms(1)] n(1) by auto
  show "ti_at s (of_nat n) = None" by (simp add: ti_at_def u n)
  have c: "tb_closed (tb_heap s')"
    using tb_invD(2) [OF assms(1)] n(2) assms(3) by (auto simp: tb_closed_def h)
  have sh: "tb_shape s'" using tb_invD(1) [OF assms(1)] by (simp add: tb_shape_def s'_def ti_put_def)
  have last: "tb_last s' j \<in> set (tb_nodes s j)" if "j \<in> tb_threads s" for j
    using tb_invD(3) [OF assms(1) that] by (simp add: tb_list_def s'_def ti_put_def tb_last_def)
  note Q = quiet_change [OF assms(1) sh c _ _ _ last]
  show "tb_inv s'" "tb_linked s' = tb_linked s" "tb_items s' = tb_items s"
    using l by (intro Q; auto simp: h u same_item_def s'_def ti_put_def)+
qed

lemma stamp_change:
  assumes "tb_inv s" "ti_at s i = Some nd"
    and "s' = ti_put s i (nd\<lparr>ti_stamp := ts\<rparr>)"
  shows "tb_inv s'" "tb_linked s' = tb_linked s" "tb_items s' = tb_items s" "tb_heap s' = (tb_heap s)(unat i \<mapsto> nd\<lparr>ti_stamp := ts\<rparr>)"
proof -
  have n: "tb_heap s (unat i) = Some nd" using assms(2) by (simp add: ti_at_def)
  show h: "tb_heap s' = (tb_heap s)(unat i \<mapsto> nd\<lparr>ti_stamp := ts\<rparr>)" by (simp add: assms(3) ti_put_def)
  have c: "tb_closed (tb_heap s')"
    using tb_invD(2) [OF assms(1)] n by (auto simp: tb_closed_def h ti_nx_def)
  have sh: "tb_shape s'" using tb_invD(1) [OF assms(1)] by (simp add: tb_shape_def assms(3) ti_put_def)
  have last: "tb_last s' j \<in> set (tb_nodes s j)" if "j \<in> tb_threads s" for j
    using tb_invD(3) [OF assms(1) that] by (simp add: tb_list_def assms(3) ti_put_def tb_last_def)
  note Q = quiet_change [OF assms(1) sh c _ _ _ last]
  show "tb_inv s'" "tb_linked s' = tb_linked s" "tb_items s' = tb_items s"
    using n by (intro Q; auto simp: h same_item_def assms(3) ti_put_def)+
qed

lemma store_change:
  assumes "tb_inv s" "t \<in> tb_threads s" "nxt s (tb_insert s ! t) = Some i" "i \<noteq> 0"
  defines "s' \<equiv> s\<lparr>tb_insert := (tb_insert s)[t := i]\<rparr>"
  shows "tb_inv s'" "tb_linked s' = tb_linked s" "tb_items s' = tb_items s" "tb_heap s' = tb_heap s"
proof -
  show h: "tb_heap s' = tb_heap s" by (simp add: s'_def)
  have sh: "tb_shape s'" using tb_invD(1) [OF assms(1)] by (simp add: tb_shape_def s'_def)
  have c: "tb_closed (tb_heap s')" using tb_invD(2) [OF assms(1)] h by simp
  have L: "path ti_nx (tb_heap s) (tb_first s j) (tb_nodes s j) NULL" "tb_last s j \<in> set (tb_nodes s j)" if "j \<in> tb_threads s" for j
    using tb_invD(3) [OF assms(1) that] by (simp_all add: tb_list_def)
  obtain nd where nd: "tb_heap s (tb_last s t) = Some nd" "ti_nx nd = unat i"
    using assms(3) by (auto simp: nxt_def ti_at_def tb_last_def ti_nx_def)
  have i: "unat i \<in> set (tb_nodes s t)"
    using path_next_in [OF L [OF assms(2)] nd(1)] nd(2) assms(4) by simp
  have last: "tb_last s' j \<in> set (tb_nodes s j)" if "j \<in> tb_threads s" for j
    using L(2) [OF that] i assms(2) tb_invD(1) [OF assms(1)]
    by (cases "j = t") (simp_all add: s'_def tb_last_def tb_shape_def tb_threads_def)
  note Q = quiet_change [OF assms(1) sh c _ _ _ last]
  show "tb_inv s'" "tb_linked s' = tb_linked s" "tb_items s' = tb_items s"
    by - (intro Q; simp add: h same_item_def s'_def)+
qed

section \<open>The obligations of the interface\<close>

lemma tq_sinv:
  assumes "tb_inv s" "tq_pinv s t op p" "tq_own p \<inter> tb_common s = {}" "tq_body C t n s p = (s', out)"
  shows "tb_inv s' \<and> tb_common s' \<subseteq> tb_common s \<union> tq_own p \<union> - tb_used s"
  using assms
proof (cases rule: tq_cases)
  case (same c)
  have "tb_inv s' \<and> tb_linked s' = tb_linked s"
    using same(1) assms(1) same(2) tb_invD(2,3) [OF assms(1)]
    by (intro conjI quiet_change [OF assms(1) same(2)]) (auto simp: same_item_def tb_list_def tb_last_def)
  then show ?thesis by (simp add: tb_common_def le_supI1)
next
  case (alloc x)
  then show ?thesis using ts_alloc_change [OF assms(1) alloc(3)] by (simp add: tb_common_def le_supI1)
next
  case (link x i nd nd')
  note L = ts_link_change [OF assms(1) link(3-7) _ link(10-12)]
  show ?thesis using L(1,3) link by (auto simp: tb_common_def)
next
  case (store x i)
  then show ?thesis using store_change [OF assms(1) store(3,5,4)] by (simp add: tb_common_def le_supI1)
next
  case (stamp x i k nd)
  then show ?thesis using stamp_change [OF assms(1) stamp(3,4)] by (simp add: tb_common_def le_supI1)
next
  case (remove r nd)
  then show ?thesis using remove_change [OF assms(1) remove(3-8)] by (auto simp: tb_common_def)
qed

lemma put_at: "ti_at (ti_put s v nd) w = (if w = v then Some nd else ti_at s w)"
  by (simp add: ti_at_def ti_put_def)

lemma put_simps [simp]:
  "tb_num_threads (ti_put s v nd) = tb_num_threads s" "tb_threads (ti_put s v nd) = tb_threads s"
  "tb_insert (ti_put s v nd) = tb_insert s" "tb_remove (ti_put s v nd) = tb_remove s"
  by (simp_all add: ti_put_def tb_threads_def)

lemma upd_at [simp]: "ti_at (s\<lparr>tb_insert := a\<rparr>) w = ti_at s w" "ti_at (s\<lparr>tb_remove := a\<rparr>) w = ti_at s w"
  "ti_at (s\<lparr>tb_check := c\<rparr>) w = ti_at s w" "tb_threads (s\<lparr>tb_insert := a\<rparr>) = tb_threads s"
  "tb_threads (s\<lparr>tb_remove := a\<rparr>) = tb_threads s" "tb_threads (s\<lparr>tb_check := c\<rparr>) = tb_threads s"
  by (simp_all add: ti_at_def tb_threads_def)

lemma linked_insert:
  assumes "tb_inv s" "j \<in> tb_threads s"
  shows "unat (tb_insert s ! j) \<in> tb_linked s"
  using tb_invD(3) [OF assms] assms(2) by (auto simp: tb_list_def tb_last_def tb_linked_def)

text \<open>The nodes at the end of the list of one thread are not in the list of another.\<close>

lemma tails_apart:
  assumes "tb_inv s" "j \<in> tb_threads s" "k \<in> tb_threads s" "j \<noteq> k"
  shows "tb_insert s ! k \<noteq> tb_insert s ! j" "nxt s (tb_insert s ! k) = Some i \<Longrightarrow> i \<noteq> 0 \<Longrightarrow> i \<noteq> tb_insert s ! j"
proof -
  have L: "path ti_nx (tb_heap s) (tb_first s m) (tb_nodes s m) NULL" "tb_last s m \<in> set (tb_nodes s m)" if "m \<in> tb_threads s" for m
    using tb_invD(3) [OF assms(1) that] by (simp_all add: tb_list_def)
  note d = tb_invD(4) [OF assms(1-4)]
  show "tb_insert s ! k \<noteq> tb_insert s ! j"
    using L(2) [OF assms(2)] L(2) [OF assms(3)] d by (auto simp: tb_last_def)
  assume a: "nxt s (tb_insert s ! k) = Some i" "i \<noteq> 0"
  then obtain nd where nd: "tb_heap s (tb_last s k) = Some nd" "ti_nx nd = unat i"
    by (auto simp: nxt_def ti_at_def tb_last_def ti_nx_def)
  then have "ti_nx nd \<noteq> NULL" using a(2) by simp
  then have "unat i \<in> set (tb_nodes s k)" using path_next_in [OF L [OF assms(3)] nd(1)] nd(2) by simp
  then show "i \<noteq> tb_insert s ! j" using L(2) [OF assms(2)] d by (auto simp: tb_last_def)
qed

lemma no_node_0: "tb_inv s \<Longrightarrow> ti_at s 0 = None"
  using tb_invD(2) [of s] by (simp add: tb_closed_def ti_at_def)

lemma closed_next:
  assumes "tb_inv s" "nxt s w = Some i"
  shows "aligned i" "i \<noteq> 0 \<Longrightarrow> ti_at s i \<noteq> None"
  using tb_invD(2) [OF assms(1)] assms(2) by (auto simp: tb_closed_def nxt_def ti_at_def ti_nx_def)

lemma tail_defined:
  assumes "tb_inv s" "j \<in> tb_threads s"
  shows "ti_at s (tb_insert s ! j) \<noteq> None"
  using linked_insert [OF assms] tb_linked_dom [OF assms(1)] by (auto simp: ti_at_def)

lemma rely_same:
  assumes "tb_num_threads s' = tb_num_threads s" "tb_insert s' = tb_insert s"
    and "\<And>w. nxt s' w = nxt s w" "\<And>w. map_option ti_data (ti_at s' w) = map_option ti_data (ti_at s w)"
  shows "tq_rely A B s s'"
proof -
  have "nxt s' = nxt s" using assms(3) by auto
  then have "tb_tail s' u = tb_tail s u" for u using assms(2) by (simp add: tb_tail_def)
  moreover have "\<exists>nd'. ti_at s' w = Some nd' \<and> ti_data nd' = ti_data nd \<and> ti_next nd' = ti_next nd"
    if "ti_at s w = Some nd" for w nd
    using assms(3,4) [of w] that by (auto simp: nxt_def)
  ultimately show ?thesis using assms(1-3) unfolding tq_rely_def by fastforce
qed

lemma tq_guarantee:
  assumes "tb_inv s" "tq_pinv s t op p" "tq_own p \<inter> tb_common s = {}" "tq_body C t n s p = (s', out)"
    and "A \<subseteq> tb_used s - ({Inr t} \<union> tq_own p)" "A \<inter> tb_common s \<subseteq> {Inr u}"
  shows "tq_rely A B s s'"
  using assms(1-4)
proof (cases rule: tq_cases)
  case (same c)
  then show ?thesis by (intro rely_same) (simp_all add: nxt_def)
next
  case (alloc x)
  let ?nd = "\<lparr>ti_next = 0, ti_data = x, ti_stamp = init_top (tw_class C)\<rparr>"
  note A = ts_alloc_change [OF assms(1) alloc(3), of ?nd, simplified]
  have nx: "nxt s' w = nxt s w" if "ti_at s w \<noteq> None \<or> w = 0" for w
  proof -
    have "(of_nat n :: u64) \<noteq> 0" using alloc(3) A(7) by (metis is_fresh_NULL ts_alloc_ok_def unsigned_0)
    then show ?thesis using that A(6) by (auto simp: alloc(4) nxt_def put_at)
  qed
  have tl: "tb_tail s' v = tb_tail s v" if v: "v \<in> tb_threads s" for v
  proof -
    let ?w = "tb_insert s ! v"
    have w: "nxt s' ?w = nxt s ?w" using tail_defined [OF assms(1) v] by (simp add: nx)
    obtain i where i: "nxt s ?w = Some i" using tail_defined [OF assms(1) v] by (auto simp: nxt_def)
    have "nxt s' i = nxt s i" using closed_next(2) [OF assms(1) i] by (intro nx) blast
    then show ?thesis using w i by (simp add: tb_tail_def alloc(4))
  qed
  have own: "nxt s' w = nxt s w" if "Inl (unat w) \<in> A" for w
    using assms(5) that by (intro nx) (auto simp: tb_used_def ti_at_def)
  show ?thesis unfolding tq_rely_def
    using tl own A(6) by (auto simp: alloc(4) put_at)
next
  case (link x i nd nd')
  let ?l = "tb_insert s ! t"
  have nx: "nxt s' w = nxt s w" if "w \<noteq> ?l" for w using that by (simp add: link(13) nxt_def put_at)
  have own: "nxt s' w = nxt s w" if "Inl (unat w) \<in> A" for w
    using assms(6) that linked_insert [OF assms(1) link(3)] by (intro nx) (auto simp: tb_common_def)
  have tl: "tb_tail s' v = tb_tail s v" if v: "v \<in> tb_threads s" "Inr v \<in> A" for v
  proof -
    let ?w = "tb_insert s ! v"
    have "v \<noteq> t" using assms(5) v(2) by auto
    note ap = tails_apart [OF assms(1) link(3) v(1) this [symmetric]]
    obtain k where k: "nxt s ?w = Some k" using tail_defined [OF assms(1) v(1)] by (auto simp: nxt_def)
    have "nxt s' k = nxt s k"
    proof (cases "k = 0")
      case True
      have "?l \<noteq> 0" using no_node_0 [OF assms(1)] link(4) by auto
      then show ?thesis using True by (intro nx) simp
    next
      case False
      then show ?thesis using ap(2) [OF k] by (intro nx) simp
    qed
    then show ?thesis using nx [OF ap(1)] k by (simp add: tb_tail_def link(13))
  qed
  show ?thesis unfolding tq_rely_def
    using tl own link(4,5) by (auto simp: link(13) put_at)
next
  case (store x i)
  have nx: "nxt s' w = nxt s w" for w by (simp add: store(7) nxt_def)
  have "tb_tail s' v = tb_tail s v" if "v \<in> tb_threads s" "Inr v \<in> A" for v
  proof -
    have "v \<noteq> t" using assms(5) that(2) by auto
    moreover have "nxt s' = nxt s" using nx by auto
    ultimately show ?thesis by (simp add: tb_tail_def store(7))
  qed
  moreover have "tb_insert s' ! j = (if j = t then i else tb_insert s ! j)" for j
    using store(3) tb_invD(1) [OF assms(1)] by (simp add: store(7) tb_shape_def tb_threads_def)
  then have "tb_insert s' ! j = tb_insert s ! j \<or> nxt s' (tb_insert s ! j) \<noteq> Some 0 \<and> nxt s (tb_insert s' ! j) = Some 0"
    if "j \<in> tb_threads s" for j
    using store(4-6) by (simp add: nx)
  ultimately show ?thesis unfolding tq_rely_def using nx by (simp add: store(7))
next
  case (stamp x i k nd)
  then show ?thesis by (intro rely_same) (simp_all add: nxt_def put_at)
next
  case (remove r nd)
  then show ?thesis by (intro rely_same) (simp_all add: nxt_def)
qed

lemma pinv_check [simp]: "tq_pinv (s\<lparr>tb_check := c\<rparr>) t op p = tq_pinv s t op p"
  by (cases p) (simp_all add: at_rest_def fresh_item_def round_ok_def got_head_def visits_def tmp_buffer_index_def nxt_def)

lemma linked_check [simp]: "tb_linked (s\<lparr>tb_check := c\<rparr>) = tb_linked s"
  by (simp add: tb_linked_def tb_nodes_def tb_first_def)

text \<open>What reading a remove pointer gives.\<close>

lemma read_remove:
  assumes "tb_inv s" "j \<in> tb_threads s"
  defines "g \<equiv> get_aba_free_pointer (tb_remove s ! j)"
  shows "ti_at s g \<noteq> None" "nxt s g = Some 0 \<Longrightarrow> g = tb_insert s ! j"
proof -
  have L: "path ti_nx (tb_heap s) (tb_first s j) (tb_nodes s j) NULL" "tb_last s j \<in> set (tb_nodes s j)"
    using tb_invD(3) [OF assms(1,2)] by (simp_all add: tb_list_def)
  have g: "tb_first s j = unat g" by (simp add: tb_first_def g_def)
  obtain nd as where as: "tb_nodes s j = unat g # as" "tb_heap s (unat g) = Some nd" "path ti_nx (tb_heap s) (ti_nx nd) as NULL"
    using L g by (cases "tb_nodes s j") (auto split: option.splits)
  then show "ti_at s g \<noteq> None" by (simp add: ti_at_def)
  assume "nxt s g = Some 0"
  then have "ti_nx nd = NULL" using as(2) by (simp add: nxt_def ti_at_def ti_nx_def)
  then have "as = []" using as(3) tb_invD(2) [OF assms(1)] by (cases as) (auto simp: tb_closed_def)
  then show "g = tb_insert s ! j" using L(2) as(1) by (simp add: tb_last_def)
qed

lemma round_simps [simp]:
  "rd_result (round_next r) = rd_result r" "rd_buffer_index (round_next r) = rd_buffer_index r"
  "rd_old_remove (round_next r) = rd_old_remove r"
  by (simp_all add: round_next_def)

lemma tq_next_same:
  assumes "tb_inv s" "tq_pinv s t op p" "tq_body C t n s p = (s\<lparr>tb_check := c\<rparr>, Next p')"
    and "tq_own p = {} \<or> (\<exists>x i. p = InsLoad x i \<and> Next p' = Next (InsLink x i (tb_insert s ! t)))"
    and "\<And>x i w. p \<noteq> InsLink x i w" "\<And>x i. p \<noteq> InsStore x i"
    and "\<And>r. Next p' \<noteq> Next (RemData r)" "\<And>x i. Next p' \<noteq> Next (InsStore x i)"
    and "\<And>x. p = InsAlloc x \<Longrightarrow> Next p' = Next p"
  shows "tq_pinv s t op p' \<and> tq_own p' \<subseteq> tq_own p"
proof -
  note b = assms(3)[unfolded tq_body_def]
  have fail: "tq_pinv s t op p' \<and> tq_own p' \<subseteq> {}" if "ts_fail r = Next p'" "op = TsDequeue" "at_rest s t" for r
    using that by (auto simp: ts_fail_def ts_dequeue_loop_def split: if_splits)
  show ?thesis
  proof (cases p)
    case (RemLoop r)
    have i: "unat (tmp_buffer_index s r) \<in> tb_threads s" if "rd_i r < tb_num_threads s"
    proof -
      have "tb_num_threads s \<noteq> 0" using that by auto
      from index_less [OF this] show ?thesis by (simp add: tmp_buffer_index_def tb_threads_def word_less_nat_alt)
    qed
    show ?thesis using b RemLoop assms(2) fail i read_remove [OF assms(1) i]
      by (auto simp: visits_def split: if_splits)
  next
    case (RemInsert r w)
    then show ?thesis using b assms(2) by (auto split: if_splits)
  next
    case (RemNext r w ins)
    let ?g = "get_aba_free_pointer w"
    obtain nd where nd: "ti_at s ?g = Some nd" using assms(2) RemNext by (auto simp: visits_def)
    have "nxt s ?g = Some (ti_next nd)" using nd by (simp add: nxt_def)
    then show ?thesis using b RemNext assms(2) nd closed_next [OF assms(1), of ?g "ti_next nd"]
      by (auto simp: Let_def got_head_def visits_def round_ok_def round_next_def tmp_buffer_index_def split: if_splits)
  next
    case (RemStamp r w i k ts)
    then show ?thesis using b assms(2)
      by (auto simp: round_ok_def round_next_def split: if_splits option.splits)
  next
    case (RemCheck r)
    then show ?thesis using b assms(2) fail by (auto split: if_splits)
  next
    case (RemCas r)
    then show ?thesis using b assms(2,7) fail by (auto split: if_splits)
  next
    case (RemData r)
    then show ?thesis using b assms(2) by (auto simp: ts_dequeue_loop_def split: if_splits option.splits)
  next
    case (InsStamp x i k)
    then show ?thesis using b assms(2) by (auto split: if_splits option.splits)
  qed (use b assms(2,4,5,6,9) in \<open>auto simp: round_ok_def\<close>)
qed

lemma tq_next:
  assumes "tb_inv s" "tq_pinv s t op p" "tq_own p \<inter> tb_common s = {}" "tq_body C t n s p = (s', Next p')"
  shows "tq_pinv s' t op p' \<and> tq_own p' \<subseteq> tq_own p \<union> - tb_used s \<and> tq_own p' \<inter> tb_common s' = {}"
  using assms
proof (cases rule: tq_cases)
  case (same c)
  have "tq_pinv s t op p' \<and> tq_own p' \<subseteq> tq_own p"
    by (rule tq_next_same [OF assms(1,2) assms(4)[unfolded same(1)]]) (use same in auto)
  then show ?thesis using same(1) assms(3) by (auto simp: tb_common_def)
next
  case (alloc x)
  let ?nd = "\<lparr>ti_next = 0, ti_data = x, ti_stamp = init_top (tw_class C)\<rparr>"
  note A = ts_alloc_change [OF assms(1) alloc(3), of ?nd, simplified]
  have n: "(of_nat n :: u64) \<noteq> 0" using alloc(3) A(7) by (metis is_fresh_NULL ts_alloc_ok_def unsigned_0)
  have "at_rest s t" using assms(2) alloc(1) by simp
  then have "at_rest s' t" using A(6) by (auto simp: at_rest_def nxt_def alloc(4) put_at)
  moreover have "fresh_item s' x (of_nat n)" using n alloc(3) by (simp add: fresh_item_def nxt_def alloc(4) put_at ts_alloc_ok_def)
  ultimately show ?thesis using alloc(1,2) assms(2) A(2,5,6,7)
    by (auto simp: alloc(4) tb_used_def tb_common_def ti_at_def)
next
  case (link x i nd nd')
  have i: "i \<noteq> tb_insert s ! t" using link(12) linked_insert [OF assms(1) link(3)] by auto
  show ?thesis using assms(2) link i by (auto simp: nxt_def put_at)
next
  case (store x i)
  have "tb_insert s' ! t = i" using store(3) tb_invD(1) [OF assms(1)] by (simp add: store(7) tb_shape_def tb_threads_def)
  then show ?thesis using assms(2) store by (auto simp: at_rest_def nxt_def)
next
  case (stamp x i k nd)
  then show ?thesis using assms(2) by (auto simp: at_rest_def nxt_def put_at)
next
  case (remove r nd)
  note R = remove_change [OF assms(1) remove(3-8)]
  obtain it where it: "ti_at s (rd_result r) = Some it" using R(5) by (auto simp: ti_at_def)
  have "ti_data it \<noteq> 0" using R(4) it by (simp add: ti_value_def ti_at_def)
  then show ?thesis using assms(2) remove it by (auto simp: at_rest_def nxt_def)
qed

lemma tq_safe:
  assumes "tb_inv s" "tq_pinv s t op p" "tq_own p \<inter> tb_common s = {}"
  shows "tq_body C t n s p \<noteq> (s', Fault e)"
proof
  assume b: "tq_body C t n s p = (s', Fault e)"
  have fail: "ts_fail r \<noteq> Fault e" for r by (simp add: ts_fail_def ts_dequeue_loop_def)
  note sh = tb_invD(1) [OF assms(1), unfolded tb_shape_def]
  show False
    using assms(1,2,3) b
  proof (cases rule: tq_cases)
    case (same c)
    note b = b [unfolded tq_body_def]
    show False
    proof (cases p)
      case (RemLoop r)
      have i: "unat (tmp_buffer_index s r) < unat (tb_num_threads s)" if "rd_i r < tb_num_threads s"
      proof -
        have "tb_num_threads s \<noteq> 0" using that by auto
        from index_less [OF this] show ?thesis by (simp add: tmp_buffer_index_def word_less_nat_alt)
      qed
      then show ?thesis using b RemLoop fail sh by (auto split: if_splits)
    next
      case (RemInsert r w)
      then show ?thesis using b assms(2) sh by (auto simp: visits_def tb_threads_def split: if_splits)
    next
      case (RemNext r w ins)
      then show ?thesis using b assms(2) sh by (auto simp: visits_def at_rest_def tb_threads_def Let_def split: if_splits)
    next
      case (RemStamp r w i k ts)
      then show ?thesis using b assms(2) by (auto simp: got_head_def split: if_splits option.splits)
    next
      case (RemCheck r)
      then show ?thesis using b assms(2) fail sh by (auto simp: round_ok_def got_head_def tb_threads_def split: if_splits)
    next
      case (RemCas r)
      then show ?thesis using b assms(2) fail sh by (auto simp: round_ok_def got_head_def tb_threads_def split: if_splits)
    next
      case (RemData r)
      then show ?thesis using b assms(2) by (auto simp: ts_dequeue_loop_def split: if_splits option.splits)
    next
      case (InsLoad x i)
      then show ?thesis using b assms(2) sh by (auto simp: at_rest_def tb_threads_def split: if_splits)
    next
      case (InsStamp x i k)
      then show ?thesis using b assms(2) by (auto split: if_splits option.splits)
    qed (use b same(4,5) in \<open>auto split: if_splits\<close>)
  qed auto
qed

lemma tq_return:
  assumes "tb_inv s" "tq_pinv s t op p" "tq_own p \<inter> tb_common s = {}" "tq_body C t n s p = (s', Return r)"
  shows "at_rest s' t"
  using assms
proof (cases rule: tq_cases)
  case (same c)
  have "at_rest s t" using assms(2) same(4,5) by (cases p) auto
  then show ?thesis by (simp add: at_rest_def nxt_def same(1))
qed auto

section \<open>The items\<close>

fun tq_put :: "'a tq_op \<Rightarrow> 'a option" where
  "tq_put (TsEnqueue x) = Some x"
| "tq_put TsDequeue = None"

fun tq_stored :: "'a tq_op \<Rightarrow> 'a tq_res \<Rightarrow> 'a option" where
  "tq_stored op (TsPut b) = (if b then tq_put op else None)"
| "tq_stored op r = None"

fun tq_got :: "'a tq_op \<Rightarrow> 'a tq_res \<Rightarrow> 'a option" where
  "tq_got op (TsGot x) = x"
| "tq_got op r = None"

fun tq_inserted :: "('a, 'ts) tsb \<Rightarrow> 'a tq_op \<Rightarrow> ('a, 'ts) tq_pc \<Rightarrow> 'a option" where
  "tq_inserted s op (InsStore x i) = Some x"
| "tq_inserted s op (InsStamp x i k) = Some x"
| "tq_inserted s op p = None"

fun tq_taken :: "('a, 'ts) tsb \<Rightarrow> 'a tq_op \<Rightarrow> ('a, 'ts) tq_pc \<Rightarrow> 'a option" where
  "tq_taken s op (RemData r) = map_option ti_data (ti_at s (rd_result r))"
| "tq_taken s op p = None"

lemma items_check [simp]: "tb_items (s\<lparr>tb_check := c\<rparr>) = tb_items s"
  by (simp add: tb_items_def tb_nodes_def tb_first_def)

lemma fail_items: "out_item (tq_taken s op) (tq_got op) (ts_fail r) = {#}" "out_item (tq_inserted s op) (tq_stored op) (ts_fail r) = {#}"
  by (simp_all add: ts_fail_def ts_dequeue_loop_def)

lemma tq_balance:
  assumes "tb_inv s" "tq_pinv s t op p" "tq_own p \<inter> tb_common s = {}" "tq_body C t n s p = (s', out)"
  shows "tb_items s' + out_item (tq_taken s' op) (tq_got op) out + one (tq_inserted s op p) =
    tb_items s + one (tq_taken s op p) + out_item (tq_inserted s' op) (tq_stored op) out"
  using assms
proof (cases rule: tq_cases)
  case (same c)
  note b = assms(4)[unfolded tq_body_def]
  have nf: "out \<noteq> Fault e" for e using tq_safe [OF assms(1-3)] assms(4) by auto
  have "out_item (tq_taken s' op) (tq_got op) out + one (tq_inserted s op p) =
    one (tq_taken s op p) + out_item (tq_inserted s' op) (tq_stored op) out"
  proof (cases p)
    case (RemData r)
    then show ?thesis using b assms(2) by (auto simp: ts_dequeue_loop_def)
  next
    case (InsStamp x i k)
    then show ?thesis using b assms(2) by (auto split: if_splits option.splits)
  next
    case (RemLoop r)
    then show ?thesis using b by (auto simp: fail_items split: if_splits)
  next
    case (RemCheck r)
    then show ?thesis using b by (auto simp: fail_items split: if_splits)
  next
    case (RemCas r)
    then show ?thesis using b same(6) by (auto simp: fail_items split: if_splits)
  next
    case (RemNext r w ins)
    then show ?thesis using b by (auto simp: Let_def split: if_splits option.splits)
  next
    case (RemStamp r w i k ts)
    then show ?thesis using b by (auto split: if_splits option.splits)
  qed (use b same(3-5,8) in \<open>auto split: if_splits\<close>)
  then show ?thesis by (simp add: same(1))
next
  case (alloc x)
  let ?nd = "\<lparr>ti_next = 0, ti_data = x, ti_stamp = init_top (tw_class C)\<rparr>"
  show ?thesis using ts_alloc_change(3) [OF assms(1) alloc(3), of ?nd] alloc by simp
next
  case (link x i nd nd')
  then show ?thesis using ts_link_change(4) [OF assms(1) link(3-7) _ link(10-12)] by simp
next
  case (store x i)
  then show ?thesis using store_change(3) [OF assms(1) store(3,5,4)] by simp
next
  case (stamp x i k nd)
  then show ?thesis using stamp_change(3) [OF assms(1) stamp(3,4)] by simp
next
  case (remove r nd)
  note R = remove_change [OF assms(1) remove(3-8)]
  obtain it where it: "ti_at s (rd_result r) = Some it" using R(5) by (auto simp: ti_at_def)
  show ?thesis using remove R(3) it by (simp add: ti_value_def ti_at_def)
qed

section \<open>The initial state and the interface\<close>

text \<open>What the allocator gives initialize: different, usable addresses, one for each thread.\<close>

definition ts_layout :: "u64 \<Rightarrow> u64 list \<Rightarrow> bool" where
  "ts_layout N as \<longleftrightarrow> length as = unat N \<and> distinct as \<and> list_all (\<lambda>a. a \<noteq> 0 \<and> aligned a) as"

definition tq_threads :: "u64 \<Rightarrow> u64 list \<Rightarrow> u64" where
  "tq_threads N as = (if ts_layout N as then N else 0)"

definition tq_init :: "'ts ts_words \<Rightarrow> u64 \<Rightarrow> u64 list \<Rightarrow> ('a :: zero, 'ts) tsb" where
  "tq_init C N as = (if ts_layout N as then tsb_initialize C N as else tsb_initialize C 0 [])"

fun tq_ok :: "u64 \<Rightarrow> tid \<Rightarrow> 'a :: zero tq_op \<Rightarrow> bool" where
  "tq_ok N t (TsEnqueue x) \<longleftrightarrow> t < unat N \<and> x \<noteq> 0"
| "tq_ok N t TsDequeue \<longleftrightarrow> t < unat N"

lemma map_of_const: "map_of (map (\<lambda>a. (unat a, c)) as) x = (if x \<in> unat ` set as then Some c else None)"
  for as :: "u64 list"
  by (induction as) auto

lemma initialize_inv:
  assumes "ts_layout N as"
    and "s = (tsb_initialize C N as :: ('a :: zero, 'ts) tsb)"
  shows "tb_inv s" "tb_items s = {#}" "j < unat N \<Longrightarrow> at_rest s j"
proof -
  note A = assms(1)[unfolded ts_layout_def list_all_iff]
  have h: "tb_heap s x = (if x \<in> unat ` set as
      then Some \<lparr>ti_next = 0, ti_data = 0, ti_stamp = init_sentinel (tw_class C)\<rparr> else None)" for x
    unfolding assms(2) tsb_initialize_def by (simp add: map_of_const)
  have T: "tb_threads s = {..<length as}" using A by (simp add: assms(2) tsb_initialize_def tb_threads_def)
  have al: "aligned (as ! j)" "as ! j \<noteq> 0" if "j < length as" for j using A that by auto
  have f: "tb_first s j = unat (as ! j)" "tb_last s j = unat (as ! j)" if "j < length as" for j
    using al [OF that] by (simp_all add: assms(2) tsb_initialize_def tb_first_def tb_last_def)
  have sh: "tb_shape s" using A by (auto simp: tb_shape_def assms(2) tsb_initialize_def)
  have cl: "tb_closed (tb_heap s)" using A by (auto simp: tb_closed_def h split: if_splits)
  have L: "tb_list s j [unat (as ! j)]" if "j \<in> tb_threads s" for j
    using that by (auto simp: T tb_list_def f h ti_nx_def)
  have dj: "set [unat (as ! j)] \<inter> set [unat (as ! k)] = {}" if "j \<in> tb_threads s" "k \<in> tb_threads s" "j \<noteq> k" for j k
    using that A by (auto simp: T nth_eq_iff_index_eq)
  note I = tb_invI [OF sh cl L dj]
  show "tb_inv s" by (rule I(1)) simp_all
  have "tb_nodes s j = [unat (as ! j)]" if "j \<in> tb_threads s" for j by (rule I(2)) (use that in simp_all)
  then show "tb_items s = {#}" by (simp add: tb_items_def)
  show "at_rest s j" if "j < unat N"
    using that A T by (auto simp: at_rest_def nxt_def ti_at_def h) (simp_all add: assms(2) tsb_initialize_def)
qed

lemma tq_init_inv: "tb_inv (tq_init C N as)" "tb_items (tq_init C N as) = {#}"
  "j < unat (tq_threads N as) \<Longrightarrow> at_rest (tq_init C N as) j"
proof -
  have e: "ts_layout 0 []" by (simp add: ts_layout_def)
  show "tb_inv (tq_init C N as)" "tb_items (tq_init C N as) = {#}"
    "j < unat (tq_threads N as) \<Longrightarrow> at_rest (tq_init C N as) j"
    using initialize_inv [OF _ refl, where N=N and as=as and C=C] initialize_inv [OF e refl, where C=C] by (auto simp: tq_init_def tq_threads_def)
qed

interpretation ts_pool: item_pool "tq_prog C" "tq_init C N as" "tq_ok (tq_threads N as)" tb_inv tq_pinv tb_used tb_common
    "\<lambda>t. {Inr t}" tq_own "\<lambda>_. {}" tq_rely "\<lambda>s t. t < unat (tq_threads N as) \<longrightarrow> at_rest s t"
    tb_items tq_put tq_stored tq_got tq_inserted tq_taken for C N as
proof (unfold_locales, goal_cases)
  case 1 show ?case by (rule tq_init_inv)
next
  case (2 s t op) then show ?case by (cases op) simp_all
next
  case (3 op) then show ?case by (cases op) simp_all
next
  case 4 show ?case by (simp add: tb_used_def)
next
  case 5 then show ?case by simp
next
  case (6 s t op p)
  then have "i \<noteq> 0 \<and> nxt s i = Some 0" if "Inl (unat i) \<in> tq_own p" for i using that by (cases p) (auto simp: fresh_item_def)
  then show ?case by (cases p) (auto simp: tb_used_def nxt_def ti_at_def)
next
  case (7 s) then show ?case using tb_linked_dom [of s] by (auto simp: tb_common_def tb_used_def)
next
  case (8 s t op p n s' out) then show ?case using tq_sinv [of s t op p C n s' out] by simp
next
  case (9 s t op p n s' p') then show ?case using tq_next [of s t op p C n s' p'] by simp
next
  case (10 s t op p n s' e) then show ?case using tq_safe [of s t op p C n s' e] by simp
next
  case (11 s t op p n s' out A u B) then show ?case using tq_guarantee [of s t op p C n s' out A u B] by simp
next
  case (12 s s' t p op) then show ?case using tq_stable [of t p "{}" s s' op] by simp
next
  case (13 t) show ?case using tq_init_inv(3) by blast
next
  case (14 s t op p n s' r) then show ?case using tq_return [of s t op p C n s' r] by simp
next
  case (15 s s' t)
  show ?case
  proof
    assume "t < unat (tq_threads N as)"
    then have r: "at_rest s t" using 15(4) by simp
    then have "tb_tail s' t = tb_tail s t" using tq_relyD(7) [OF 15(3), of t] by (simp add: at_rest_def)
    then show "at_rest s' t" using at_rest_tail [OF _ tq_relyD(1) [OF 15(3)] r] by simp
  qed
next
  case 16 show ?case by (rule tq_init_inv)
next
  case (17 s op) then show ?case by (cases op) simp_all
next
  case (18 op r x) then show ?case by (cases r) (auto split: if_splits)
next
  case (19 s t op p x) then show ?case by (cases p) auto
next
  case (20 s t op p n s' out) then show ?case using tq_balance [of s t op p C n s' out] by simp
next
  case (21 s s' t p op)
  show ?case
  proof (cases p)
    case (RemData r)
    then obtain x where "map_option ti_data (ti_at s (rd_result r)) = Some x" using 21(4) by auto
    with tq_relyD(5) [OF 21(3) this] show ?thesis using RemData by auto
  qed simp_all
qed

section \<open>Properties\<close>

text \<open>
  C38: the timestamped queue loses, duplicates and invents no item, whatever the timestamps are
  and under any interleaving and any spurious failure of compare_exchange_weak: the items in
  the lists of the threads together with those handed out are among those enqueued, as often,
  and are exactly those enqueued when no call is running; and no step faults. NULL must not be
  enqueued.
\<close>

theorem ts_queue_conservation:
  fixes C :: "'ts ts_words"
  assumes "ts_layout N as" "list_all (valid_call (tq_ok N)) es"
  defines "c \<equiv> exec (tq_prog C) es (init (tsb_initialize C N as))"
    and "H \<equiv> history (tq_prog C) es (init (tsb_initialize C N as))"
  shows "tb_items (shared c) + ret_items tq_got H \<subseteq># inv_items tq_put H \<and>
    ((\<forall>t. threads c t = Idle) \<longrightarrow> tb_items (shared c) + ret_items tq_got H = ret_items tq_stored H) \<and>
    (\<forall>t op e. threads c t \<noteq> Dead op e)"
proof -
  have e: "tq_init C N as = tsb_initialize C N as" "tq_threads N as = N"
    using assms(1) by (simp_all add: tq_init_def tq_threads_def)
  note P = ts_pool.pool_no_invention [where C=C and N=N and as=as, unfolded e, OF assms(2)]
    ts_pool.pool_conserved [where C=C and N=N and as=as, unfolded e, OF assms(2)]
    ts_pool.og_no_fault [where C=C and N=N and as=as, unfolded e, OF assms(2)]
  show ?thesis using P unfolding c_def H_def by blast
qed

definition ts_two_threads :: "u64 tq_op sched" where
  "ts_two_threads = [(0, Call (TsEnqueue 5)), (1, Call (TsEnqueue 6))] @
     concat (replicate 6 [(0, Go 24), (1, Go 32)]) @ [(0, Leave), (1, Leave), (0, Call TsDequeue)] @
     replicate 18 (0, Go 40) @ [(0, Leave)]"

abbreviation hw_queue :: "(u64, u64) tsb" where
  "hw_queue \<equiv> tsb_initialize hardware_words 2 [8, 16]"

lemma ts_two_threads_idle: "threads (exec (tq_prog hardware_words) ts_two_threads (init hw_queue)) t = Idle"
proof -
  let ?c = "exec (tq_prog hardware_words) ts_two_threads (init hw_queue)"
  have "threads ?c 0 = Idle \<and> threads ?c 1 = Idle" by code_simp
  moreover have "threads ?c t = Idle" if "t \<noteq> 0" "t \<noteq> 1"
    using that by (subst exec_other) (simp_all add: ts_two_threads_def)
  ultimately show ?thesis by (cases "t = 0"; cases "t = 1") simp_all
qed

theorem ts_queue_conservation_witness:
  "tb_items (shared (exec (tq_prog hardware_words) ts_two_threads (init hw_queue))) + {#5#} = {#5, 6#}"
proof -
  let ?H = "history (tq_prog hardware_words) ts_two_threads (init hw_queue)"
  have "ret_items tq_got ?H = {#5#} \<and> ret_items tq_stored ?H = {#5, 6#}" by code_simp
  moreover have "ts_layout 2 [8, 16] \<and> list_all (valid_call (tq_ok 2)) ts_two_threads" by code_simp
  ultimately show ?thesis
    using ts_queue_conservation [of 2 "[8, 16]" ts_two_threads hardware_words] ts_two_threads_idle by simp
qed

end
