(* ===== verification/Spec2Isabelle.thy ===== *)
theory Spec2Isabelle
  imports Atomic_Value Treiber_Stack MS_Queue Utilities Thread_Allocator Timestamps Single_List Graph_Search
    Lock_Queue Flat_Combining K_Stack_Order Unbounded_KFifo_Commit Random_Dequeue
    Distributed_Queue TS_Queue
begin

text \<open>
  Scal, a library of concurrent queues, stacks and other pools (src/src/datastructures) with
  the utilities they stand on (src/src/util) and benchmarks that use them (src/src/benchmark).
  The benchmarks create a structure and let threads put and get items; a structure keeps its
  state in words that are changed with compare-and-swap (util/atomic_value.h), takes its memory
  from a thread local allocator (util/malloc.cc) and its random numbers from util/random.cc.

  How code becomes a model. A shared structure is a record with the fields of the class; its
  methods are one function from a state and a program counter to a state and the next program
  counter, a result, or a fault; one step makes at most one access to shared memory. The theory
  Concurrency interleaves such programs under an arbitrary schedule, which also supplies what
  the code draws from outside (the address a fresh node gets, random numbers, clock readings,
  spurious wake-ups). A failed dereference, an index out of range, abort and a division by zero
  are faults. Memory is sequentially consistent: the x86 instructions the code uses for its
  synchronisation are, the C++ data races next to them are taken as atomic accesses.
  Sequential code (allocator, parser, searches) is modelled by functions with errors as values.

  Theories and what their lemmas show.
  Prelude: machine types, heaps and paths of nodes, the atomic cell of a value and its ABA
  counter with cas, decimal numbers in C strings.
  Concurrency: programs, schedules, histories, and linearizability of a history proved from
  linearization points (the interface lin_system).
  Rely_Guarantee: invariants of all reachable configurations from assertions per program
  counter and a discipline of owned resources (og_system), with linearization points
  (lf_object), and obstruction freedom from a rank (solo_progress).
  Item_Pool: from a balance of every step to conservation of the items of every execution
  (item_pool, and bag_object for linearizable objects). Queue_Spec: the sequential queue and the resource of a lock. Slots: arrays of
  item slots. Solo: a thread that runs alone, its returns as a relation, and sequential
  objects proved correct and terminating from the result of each call (sequential_object).
  Atomic_Value (util/atomic_value128.h, atomic_value64_base.h, atomic_value64_offset.h,
  atomic_value64_no_offset.h): the word layouts implement the cell; the class is linearizable
  except for the torn read of raw, whose loop gives a snapshot while the counter moves.
  Treiber_Stack (treiber_stack.h) and MS_Queue (ms_queue.h): linearizable, memory safe and
  obstruction free, with the size counter and the empty state of the queue.
  Lock_Queue (lockbased_queue.h): linearizable in all dequeue modes, mutual exclusion, no lost
  wake-up, the deadline of the timed dequeue.
  Flat_Combining (flatcombining_queue.h over Single_List, single_list.h): linearizable for
  items other than NULL.
  Bounded_KFifo (boundedsize_kfifo.h): conservation of items and index safety; the endless
  enqueue on a full queue whose head has wrapped. Unbounded_KFifo (unboundedsize_kfifo.h): the
  list of segments that grows at the tail and shrinks at the head; balance of all slots and
  memory safety. Unbounded_KFifo_Commit: what committed is for, by an invariant that gives
  every slot in use behind the head its thread; conservation of the items that can be reached
  from the head.
  Random_Dequeue (random_dequeue_queue.h): linearizable to a queue that is out of order by at
  most the quasi factor, by refinement to the nodes of the Michael-Scott queue.
  Distributed_Queue (distributed_queue.h, distributed_queue_interface.h, balancer_1random.h,
  balancer_id.h, balancer_partrr.h): a pool over any partial queues that conserve their items
  conserves them too (the locale distributed), with MS_Queue and Treiber_Stack put in; the
  balancers stay in range.
  K_Stack and K_Stack_Order (kstack.h): memory safety under every interleaving, the sequential
  k-LIFO order with termination, and the item that committed duplicates.
  Timestamps (ts_timestamp.h): the order of the timestamps of the five classes, in 64 bit
  arithmetic.
  TS_Queue (ts_queue.h over ts_queue_buffer.h): conservation of items and memory safety for any
  timestamps; the remove pointers with their three counter bits.
  Utilities (random.cc, threadlocals.cc, bitmap.h), Thread_Allocator (malloc.cc, malloc.h):
  the generator is Lehmer's; thread ids and the bounds of the array of contexts; objects of the
  allocator are disjoint over refills and stay in the buffer over wrap-arounds, the overflows.
  Graph_Search (benchmark/bfs): the two parsers and the two breadth first searches, shown to
  terminate and to compute shortest distances.

  Bounds. Pointers and node addresses are natural numbers, drawn fresh; ABA counters, head and
  tail indices, sizes and items of the k-FIFO queue are 64 bit words. The loops of the methods
  are steps of a program, so that no fuel is needed: a method that loops for ever is a thread
  that never returns, and the theorems about returning bound the number of steps or exclude it.
  Where a counter of 64 bits must not come round (the head word of the unbounded k-FIFO queue,
  the stuttering clocks), the theorem is for runs with fewer than 2 to the 64 steps or calls.

  Not modelled: the buffers of the timestamped stack and deque, the DTS queue and the two wait-free
  queues; the flags, timers, thread creation and printing of the
  benchmarks, the glue files (constructors and flags only), the operation logger, the barrier
  and the unit tests, which are input and output or third-party calls.
\<close>

end
